(* ===== verification/Prelude.thy ===== *)
theory Prelude
  imports Main "HOL-Library.Word"
begin

text \<open>
  Shared ground of the development: the deterministic error codes of
  \<open>src/src/simpleawait/error.h\<close>, the collections of rewrite rules the component
  theories extend, and the generic facts on words, bit masks and lists they share.
\<close>

named_theorems sched_simps \<open>projections of the scheduler operations\<close>
named_theorems fifo_intros \<open>representation facts of the intrusive FIFOs\<close>

section \<open>Error codes (error.h)\<close>

text \<open>
  \<open>enum class Error : uint8_t\<close>. The configured hook \<open>SIMPLEAWAIT_ON_ERROR\<close> is modelled
  as an append to a log in the state: a hook that returns. Under the default hook, which
  never returns, the program stops at the first entry of that log.
\<close>

datatype error =
    No_error
  | Task_limit
  | Frame_pool_exhausted
  | Scheduler_reentry
  | Invalid_task
  | Task_already_scheduled
  | Task_awaited_twice
  | Multiple_flag_waiters
  | Object_destroyed_with_waiters
  | Deadline_overflow
  | Unhandled_exception
  | Internal_error

text \<open>The underlying integer of the enumerator: the values are appended, never reordered.\<close>

fun error_code :: "error \<Rightarrow> 8 word" where
  "error_code No_error = 0"
| "error_code Task_limit = 1"
| "error_code Frame_pool_exhausted = 2"
| "error_code Scheduler_reentry = 3"
| "error_code Invalid_task = 4"
| "error_code Task_already_scheduled = 5"
| "error_code Task_awaited_twice = 6"
| "error_code Multiple_flag_waiters = 7"
| "error_code Object_destroyed_with_waiters = 8"
| "error_code Deadline_overflow = 9"
| "error_code Unhandled_exception = 10"
| "error_code Internal_error = 11"

lemma error_code_inj: "error_code x = error_code y \<longleftrightarrow> x = y"
  by (cases x; cases y) simp_all

text \<open>Errors are ordered by their code.\<close>

instantiation error :: linorder
begin

definition less_eq_error :: "error \<Rightarrow> error \<Rightarrow> bool" where
  "x \<le> y \<longleftrightarrow> error_code x \<le> error_code y"

definition less_error :: "error \<Rightarrow> error \<Rightarrow> bool" where
  "(x :: error) < y \<longleftrightarrow> error_code x < error_code y"

instance
  by standard (auto simp: less_eq_error_def less_error_def simp flip: error_code_inj)

end

section \<open>Words\<close>

lemma unat32_lt: "unat (w :: 32 word) < 2 ^ 32"
  using unsigned_less [of w] by simp

lemma unat64_lt: "unat (w :: 64 word) < 2 ^ 64"
  using unsigned_less [of w] by simp

lemma unat_ucast_32_64 [simp]: "unat (ucast (w :: 32 word) :: 64 word) = unat w"
  using unat32_lt [of w] by (simp add: unsigned_ucast_eq take_bit_nat_eq_self_iff)

lemma unat32_max: "unat (- 1 :: 32 word) = 2 ^ 32 - 1"
  by (simp add: unsigned_minus_1_eq_mask mask_eq_exp_minus_1)

lemma unat64_max: "unat (- 1 :: 64 word) = 2 ^ 64 - 1"
  by (simp add: unsigned_minus_1_eq_mask mask_eq_exp_minus_1)

section \<open>Lists\<close>

lemma find_upt_Some:
  assumes "find P [0..<n] = Some i"
  shows "i < n \<and> P i \<and> (\<forall>j < i. \<not> P j)"
proof -
  from assms obtain k where k: "k < length [0..<n]" "P ([0..<n] ! k)" "i = [0..<n] ! k"
    and least: "\<forall>j < k. \<not> P ([0..<n] ! j)"
    by (auto simp: find_Some_iff)
  then show ?thesis by auto
qed

lemma find_upt_None: "find P [0..<n] = None \<longleftrightarrow> (\<forall>i < n. \<not> P i)"
  by (auto simp: find_None_iff)

lemma last_snoc_cons [simp]: "last (x # xs @ [y]) = y"
  by simp

section \<open>Counting slots\<close>

text \<open>The number of indices below \<open>n\<close> that satisfy a predicate, as a scan computes it.\<close>

definition count_below :: "nat \<Rightarrow> (nat \<Rightarrow> bool) \<Rightarrow> nat" where
  "count_below n P = length (filter P [0..<n])"

lemma count_below_cong:
  "(\<And>i. i < n \<Longrightarrow> P i = Q i) \<Longrightarrow> count_below n P = count_below n Q"
  unfolding count_below_def by (rule arg_cong [where f = length], rule filter_cong) auto

lemma count_below_card: "count_below n P = card {i. i < n \<and> P i}"
proof -
  have "count_below n P = card (set (filter P [0..<n]))"
    unfolding count_below_def by (rule distinct_card [symmetric]) simp
  also have "set (filter P [0..<n]) = {i. i < n \<and> P i}" by auto
  finally show ?thesis .
qed

lemma count_below_insert:
  assumes "k < n" "\<not> P k" "Q k" "\<And>i. i < n \<Longrightarrow> i \<noteq> k \<Longrightarrow> Q i = P i"
  shows "count_below n Q = Suc (count_below n P)"
proof -
  have "{i. i < n \<and> Q i} = insert k {i. i < n \<and> P i}" using assms by auto
  then show ?thesis using assms(2) by (simp add: count_below_card)
qed

lemma count_below_remove:
  assumes "k < n" "P k" "\<not> Q k" "\<And>i. i < n \<Longrightarrow> i \<noteq> k \<Longrightarrow> Q i = P i"
  shows "Suc (count_below n Q) = count_below n P"
  using count_below_insert [of k n Q P] assms by auto

lemma count_below_pos: "k < n \<Longrightarrow> P k \<Longrightarrow> 0 < count_below n P"
  by (auto simp: count_below_card card_gt_0_iff)

lemma count_below_le: "count_below n P \<le> n"
  unfolding count_below_def using length_filter_le [of P "[0..<n]"] by simp

end
