(* ===== verification/Intrusive_List.thy ===== *)
theory Intrusive_List
  imports Prelude
begin

text \<open>
  The intrusive singly linked FIFOs of the library. A node is named by a number, its link is
  a field of the node, and a queue is a head and a tail pointer (\<open>None\<close> is
  \<open>nullptr\<close>). The scheduler's ready FIFO and \<open>WaitQueue\<close> (scheduler.h) and the
  sender and receiver lists of \<open>Queue\<close> (queue.h) all have this shape; the locale states
  what their push and pop operations do to the pointers and derives, once, that they are the
  operations of a FIFO list.
\<close>

section \<open>Pointer chains\<close>

text \<open>\<open>chain nxt h xs\<close>: following the links from \<open>h\<close> visits exactly \<open>xs\<close>.\<close>

primrec chain :: "(nat \<Rightarrow> nat option) \<Rightarrow> nat option \<Rightarrow> nat list \<Rightarrow> bool" where
  "chain nxt h [] \<longleftrightarrow> h = None"
| "chain nxt h (x # xs) \<longleftrightarrow> h = Some x \<and> chain nxt (nxt x) xs"

definition fifo :: "(nat \<Rightarrow> nat option) \<Rightarrow> nat option \<Rightarrow> nat option \<Rightarrow> nat list \<Rightarrow> bool" where
  "fifo nxt h t xs \<longleftrightarrow>
     chain nxt h xs \<and> distinct xs \<and> t = (if xs = [] then None else Some (last xs))"

text \<open>The nodes met in at most \<open>n\<close> steps from a pointer: the executable reading of a chain.\<close>

fun walk :: "nat \<Rightarrow> (nat \<Rightarrow> nat option) \<Rightarrow> nat option \<Rightarrow> nat list" where
  "walk 0 nxt h = []"
| "walk (Suc n) nxt h = (case h of None \<Rightarrow> [] | Some x \<Rightarrow> x # walk n nxt (nxt x))"

lemma chain_None [simp]: "chain nxt None xs \<longleftrightarrow> xs = []"
  by (cases xs) auto

lemma chain_Some: "chain nxt (Some x) xs \<longleftrightarrow> (\<exists>ys. xs = x # ys \<and> chain nxt (nxt x) ys)"
  by (cases xs) auto

lemma chain_walk: "chain nxt h xs \<Longrightarrow> walk (length xs) nxt h = xs"
  by (induction xs arbitrary: h) auto

lemma chain_unique: "chain nxt h xs \<Longrightarrow> chain nxt h ys \<Longrightarrow> xs = ys"
proof (induction xs arbitrary: h ys)
  case Nil
  then show ?case by simp
next
  case (Cons x xs)
  then show ?case by (auto simp: chain_Some)
qed

lemma chain_upd [simp]: "u \<notin> set xs \<Longrightarrow> chain (nxt(u := v)) h xs = chain nxt h xs"
  by (induction xs arbitrary: h) auto

lemma chain_cong: "(\<And>x. x \<in> set xs \<Longrightarrow> nxt' x = nxt x) \<Longrightarrow> chain nxt' h xs = chain nxt h xs"
  by (induction xs arbitrary: h) auto

lemma chain_snoc:
  "chain nxt h (xs @ [t]) \<Longrightarrow> t \<notin> set xs \<Longrightarrow> x \<notin> set xs \<Longrightarrow> x \<noteq> t \<Longrightarrow>
   chain (nxt(x := None, t := Some x)) h (xs @ [t, x])"
  by (induction xs arbitrary: h) auto

lemma chain_append_last:
  "chain nxt h (xs @ [t]) \<Longrightarrow> nxt t = None"
  by (induction xs arbitrary: h) auto

lemma chain_remove:
  assumes "chain nxt h (pre @ x # post)" and "distinct (pre @ x # post)"
  shows "chain (if pre = [] then nxt else nxt(last pre := nxt x)) (if pre = [] then nxt x else h) (pre @ post)"
  using assms
proof (induction pre arbitrary: h)
  case (Cons y pre)
  then have h: "h = Some y" and c: "chain nxt (nxt y) (pre @ x # post)" and d: "distinct (pre @ x # post)"
    and y: "y \<notin> set (pre @ x # post)" by auto
  show ?case
  proof (cases "pre = []")
    case True
    have "chain (nxt(y := nxt x)) (nxt x) post" using c y True by simp
    then have "chain (nxt(y := nxt x)) (Some y) (y # post)" by (simp only: chain.simps fun_upd_same simp_thms)
    then show ?thesis unfolding True h by (simp only: append.simps last.simps list.distinct if_False if_True refl)
  next
    case False
    then have "last pre \<noteq> y" using y by auto
    then show ?thesis using Cons.IH [OF c d] False h by simp
  qed
qed simp

section \<open>FIFO representations\<close>

lemma fifo_empty: "fifo nxt None None []"
  by (simp add: fifo_def)

lemma fifo_unique: "fifo nxt h t xs \<Longrightarrow> fifo nxt h t' ys \<Longrightarrow> xs = ys"
  unfolding fifo_def by (blast intro: chain_unique)

lemma fifo_walk: "fifo nxt h t xs \<Longrightarrow> walk (length xs) nxt h = xs"
  unfolding fifo_def by (simp add: chain_walk)

lemma fifo_head_None: "fifo nxt None t xs \<longleftrightarrow> xs = [] \<and> t = None"
  by (auto simp: fifo_def)

lemma fifo_tail_None: "fifo nxt h None xs \<longleftrightarrow> xs = [] \<and> h = None"
  by (auto simp: fifo_def split: if_splits)

lemma fifo_head_Some:
  "fifo nxt (Some x) t xs \<Longrightarrow> \<exists>ys. xs = x # ys \<and> x \<notin> set ys"
  by (cases xs) (auto simp: fifo_def)

lemma fifo_tail_in: "fifo nxt h (Some t) xs \<Longrightarrow> t \<in> set xs"
  by (auto simp: fifo_def split: if_splits)

lemma fifo_distinct: "fifo nxt h t xs \<Longrightarrow> distinct xs"
  by (simp add: fifo_def)

lemma fifo_cong: "(\<And>x. x \<in> set xs \<Longrightarrow> nxt' x = nxt x) \<Longrightarrow> fifo nxt' h t xs = fifo nxt h t xs"
  using chain_cong [of xs nxt' nxt h] by (simp add: fifo_def)

lemma fifo_push:
  assumes "fifo nxt h t xs" and "x \<notin> set xs"
  shows "fifo (case t of None \<Rightarrow> nxt(x := None) | Some l \<Rightarrow> nxt(x := None, l := Some x))
              (if t = None then Some x else h) (Some x) (xs @ [x])"
proof (cases xs rule: rev_cases)
  case Nil
  with assms show ?thesis by (auto simp: fifo_def)
next
  case (snoc ys l)
  with assms have c: "chain nxt h (ys @ [l])" and t: "t = Some l" and d: "distinct (ys @ [l])"
    by (auto simp: fifo_def)
  from snoc assms(2) d have "chain (nxt(x := None, l := Some x)) h (ys @ [l, x])"
    by (intro chain_snoc [OF c]) auto
  with snoc t d assms(2) show ?thesis by (auto simp: fifo_def)
qed

lemma fifo_pop:
  assumes "fifo nxt (Some x) t xs"
  shows "fifo (nxt(x := None)) (nxt x) (if nxt x = None then None else t) (tl xs)"
proof -
  from assms obtain ys where xs: "xs = x # ys" "x \<notin> set ys"
    using fifo_head_Some by blast
  with assms have "chain nxt (nxt x) ys" by (simp add: fifo_def)
  with xs assms show ?thesis by (cases ys) (auto simp: fifo_def)
qed

text \<open>Taking a node out of the middle.\<close>

lemma fifo_remove:
  assumes "fifo nxt h t (pre @ x # post)"
  shows "fifo (if pre = [] then nxt else nxt(last pre := nxt x)) (if pre = [] then nxt x else h)
    (if t = Some x then if pre = [] then None else Some (last pre) else t) (pre @ post)"
proof -
  have c: "chain nxt h (pre @ x # post)" and d: "distinct (pre @ x # post)"
    and t: "t = Some (last (x # post))"
    using assms by (auto simp: fifo_def)
  have x: "last (x # post) = x \<longleftrightarrow> post = []" using d by (cases post rule: rev_cases) auto
  show ?thesis unfolding fifo_def
    using chain_remove [OF c d] d x by (auto simp: t)
qed

section \<open>The interface of an intrusive FIFO\<close>

text \<open>
  \<open>nxt\<close> reads the links of the store, \<open>head_of\<close> and \<open>tail_of\<close> its two
  pointers; \<open>push\<close> and \<open>pop\<close> are the operations. The assumptions say what the
  operations do to the pointers, case by case as the C++ code writes them.
\<close>

locale intrusive_queue =
  fixes nxt :: "'h \<Rightarrow> nat \<Rightarrow> nat option"
    and head_of :: "'h \<Rightarrow> nat option"
    and tail_of :: "'h \<Rightarrow> nat option"
    and push :: "nat \<Rightarrow> 'h \<Rightarrow> 'h"
    and pop :: "'h \<Rightarrow> nat option \<times> 'h"
  assumes push_nxt:
      "nxt (push x h) = (case tail_of h of
           None \<Rightarrow> (nxt h)(x := None) | Some l \<Rightarrow> (nxt h)(x := None, l := Some x))"
    and push_head: "head_of (push x h) = (if tail_of h = None then Some x else head_of h)"
    and push_tail: "tail_of (push x h) = Some x"
    and pop_empty: "head_of h = None \<Longrightarrow> pop h = (None, h)"
    and pop_result: "head_of h = Some x \<Longrightarrow> fst (pop h) = Some x"
    and pop_nxt: "head_of h = Some x \<Longrightarrow> nxt (snd (pop h)) = (nxt h)(x := None)"
    and pop_head: "head_of h = Some x \<Longrightarrow> head_of (snd (pop h)) = nxt h x"
    and pop_tail: "head_of h = Some x \<Longrightarrow>
        tail_of (snd (pop h)) = (if nxt h x = None then None else tail_of h)"
begin

lemma push_fifo:
  assumes "fifo (nxt h) (head_of h) (tail_of h) xs" and "x \<notin> set xs"
  shows "fifo (nxt (push x h)) (head_of (push x h)) (tail_of (push x h)) (xs @ [x])"
  unfolding push_nxt push_head push_tail by (rule fifo_push [OF assms])

lemma pop_fifo:
  assumes "fifo (nxt h) (head_of h) (tail_of h) (x # xs)"
  shows "fst (pop h) = Some x"
    and "fifo (nxt (snd (pop h))) (head_of (snd (pop h))) (tail_of (snd (pop h))) xs"
proof -
  from assms have h: "head_of h = Some x" by (simp add: fifo_def)
  then show "fst (pop h) = Some x" by (rule pop_result)
  from assms h have "fifo (nxt h) (Some x) (tail_of h) (x # xs)" by simp
  from fifo_pop [OF this]
  show "fifo (nxt (snd (pop h))) (head_of (snd (pop h))) (tail_of (snd (pop h))) xs"
    by (simp add: pop_nxt [OF h] pop_head [OF h] pop_tail [OF h])
qed

lemma pop_fifo_Nil:
  assumes "fifo (nxt h) (head_of h) (tail_of h) []"
  shows "pop h = (None, h)"
  using assms by (intro pop_empty) (simp add: fifo_def)

lemma push_pop_empty:
  assumes "fifo (nxt h) (head_of h) (tail_of h) []"
  shows "fst (pop (push x h)) = Some x"
  using push_fifo [OF assms, of x] by (intro pop_fifo) simp

end

end
