(* ===== verification/Time_Math.thy ===== *)
theory Time_Math
  imports Prelude
begin

text \<open>
  The 64-bit microsecond timebase: \<open>detail/time_math.h\<close> (durations and deadlines),
  the software-extended clock of \<open>detail/platform_clock.h\<close> and the tick arithmetic and
  wait decision of \<open>detail/platform_idle.h\<close>. All integers are words of the width the
  code gives them.
\<close>

type_synonym tick_t = "64 word"

section \<open>Durations and deadlines (time_math.h)\<close>

definition ms_to_us :: "32 word \<Rightarrow> tick_t" where
  "ms_to_us milliseconds = ucast milliseconds * 1000"

definition add_overflows :: "tick_t \<Rightarrow> tick_t \<Rightarrow> bool" where
  "add_overflows a b \<longleftrightarrow> b > (- 1 - a)"

text \<open>
  \<open>compute_deadline(now, duration_us, out)\<close>: the returned flag, the out parameter and the
  log of the error hook.
\<close>

definition compute_deadline ::
    "tick_t \<Rightarrow> tick_t \<Rightarrow> tick_t \<Rightarrow> error list \<Rightarrow> bool \<times> tick_t \<times> error list" where
  "compute_deadline now duration_us out log =
     (let overflow = add_overflows now duration_us
      in if overflow then (\<not> overflow, out, log @ [Deadline_overflow])
         else (\<not> overflow, now + duration_us, log))"

lemma unat_ms_to_us: "unat (ms_to_us ms) = unat ms * 1000"
proof -
  have "unat ms < 2 ^ 32" by (rule unat32_lt)
  then show ?thesis by (simp add: ms_to_us_def unat_word_ariths)
qed

lemma unat_max_minus: "unat (- 1 - a :: tick_t) = 2 ^ 64 - 1 - unat a"
proof -
  have "a \<le> (- 1 :: tick_t)" by simp
  then have "unat (- 1 - a) = unat (- 1 :: tick_t) - unat a" by (rule unat_sub)
  then show ?thesis by (simp add: unat64_max)
qed

lemma add_overflows_iff: "add_overflows a b \<longleftrightarrow> 2 ^ 64 \<le> unat a + unat b"
  using unat64_lt [of a] unat64_lt [of b]
  by (auto simp: add_overflows_def word_less_nat_alt unat_max_minus)

lemma unat_add_no_overflow: "\<not> add_overflows a b \<Longrightarrow> unat (a + b) = unat a + unat b"
  by (simp add: add_overflows_iff unat_word_ariths)

lemma compute_deadline_cases:
  "compute_deadline now d out log =
     (if unat now + unat d < 2 ^ 64 then (True, now + d, log)
      else (False, out, log @ [Deadline_overflow]))"
  using add_overflows_iff [of now d] by (auto simp: compute_deadline_def Let_def)

lemma deadline_positive:
  "\<not> add_overflows now d \<Longrightarrow> d \<noteq> 0 \<Longrightarrow> now < now + d"
  using unat_add_no_overflow [of now d] by (simp add: word_less_nat_alt unat_gt_0)

section \<open>The extended 32-bit clock (platform_clock.h)\<close>

record micros32_extender =
  last_sample :: "32 word"
  wraps :: "32 word"

definition extender_init :: micros32_extender where
  "extender_init = \<lparr>last_sample = 0, wraps = 0\<rparr>"

definition extend :: "32 word \<Rightarrow> micros32_extender \<Rightarrow> tick_t \<times> micros32_extender" where
  "extend now32 m =
     (let m1 = (if now32 < last_sample m then m\<lparr>wraps := wraps m + 1\<rparr> else m);
          m2 = m1\<lparr>last_sample := now32\<rparr>
      in (or (push_bit 32 (ucast (wraps m2))) (ucast now32), m2))"

text \<open>The 64-bit time an extender state stands for.\<close>

definition extender_time :: "micros32_extender \<Rightarrow> nat" where
  "extender_time m = unat (wraps m) * 2 ^ 32 + unat (last_sample m)"

lemma unat_extend_value:
  "unat (or (push_bit 32 (ucast (w :: 32 word))) (ucast (l :: 32 word)) :: tick_t)
     = unat w * 2 ^ 32 + unat l"
proof -
  have "and (push_bit 32 (ucast w)) (ucast l) = (0 :: tick_t)"
    by (rule bit_word_eqI) (auto simp: bit_simps dest: bit_imp_le_length)
  then have "or (push_bit 32 (ucast w)) (ucast l) = push_bit 32 (ucast w) + (ucast l :: tick_t)"
    by (simp add: disjunctive_add_eq_or)
  moreover have "unat (push_bit 32 (ucast w) :: tick_t) = unat w * 2 ^ 32"
    using unat32_lt [of w] by (simp add: push_bit_eq_mult unat_word_ariths)
  moreover have "unat (ucast l :: tick_t) = unat l"
    using unat32_lt [of l] by (simp add:)
  ultimately show ?thesis
    using unat32_lt [of w] unat32_lt [of l] by (simp add: unat_word_ariths)
qed

lemma extend_value: "unat (fst (extend t m)) = extender_time (snd (extend t m))"
  by (simp add: extend_def Let_def unat_extend_value extender_time_def)

lemma extend_tracks:
  assumes "extender_time m \<le> T" and "T < extender_time m + 2 ^ 32" and "T < 2 ^ 64"
  shows "extender_time (snd (extend (of_nat T) m)) = T"
proof -
  let ?l = "unat (last_sample m)" and ?w = "unat (wraps m)"
  have l: "?l < 2 ^ 32" by (rule unat32_lt)
  have u: "unat (of_nat T :: 32 word) = T mod 2 ^ 32" by (simp add: unat_of_nat)
  have le: "?w * 2 ^ 32 + ?l \<le> T" and lt: "T < ?w * 2 ^ 32 + ?l + 2 ^ 32"
    using assms by (simp_all add: extender_time_def)
  show ?thesis
  proof (cases "T < (?w + 1) * 2 ^ 32")
    case True
    then have d: "T div 2 ^ 32 = ?w"
      using le by (intro div_nat_eqI) simp_all
    then have "T mod 2 ^ 32 = T - ?w * 2 ^ 32"
      by (simp add: modulo_nat_def mult.commute)
    with le have "?l \<le> T mod 2 ^ 32" and "?w * 2 ^ 32 + T mod 2 ^ 32 = T" by simp_all
    then show ?thesis
      by (simp add: extend_def Let_def extender_time_def word_less_nat_alt u)
  next
    case False
    then have "(?w + 1) * 2 ^ 32 \<le> T" by simp
    moreover have "T < (?w + 2) * 2 ^ 32" using lt l by simp
    ultimately have d: "T div 2 ^ 32 = ?w + 1"
      by (intro div_nat_eqI) simp_all
    then have m: "T mod 2 ^ 32 = T - (?w + 1) * 2 ^ 32"
      by (simp add: modulo_nat_def mult.commute)
    with False lt have less: "T mod 2 ^ 32 < ?l" by simp
    have "T div 2 ^ 32 < 2 ^ 32" using assms(3) by (intro less_mult_imp_div_less) simp
    with d have "?w + 1 < 2 ^ 32" by simp
    then have "unat (wraps m + 1) = ?w + 1" by (simp add: unat_word_ariths)
    with less m False show ?thesis
      by (simp add: extend_def Let_def extender_time_def word_less_nat_alt u)
  qed
qed

section \<open>Properties\<close>

text \<open>C20. \<open>compute_deadline\<close> writes the mathematical sum of clock
  and duration exactly when it fits 64 bits; otherwise it leaves the output alone, reports
  \<open>deadline_overflow\<close> once and returns false. It never wraps or saturates.\<close>

theorem deadline_exact_or_reported:
  "case compute_deadline now d out log of (ok, out', log') \<Rightarrow>
     (ok \<longleftrightarrow> unat now + unat d < 2 ^ 64) \<and>
     (if ok then unat out' = unat now + unat d \<and> log' = log
      else out' = out \<and> log' = log @ [Deadline_overflow])"
  by (simp add: compute_deadline_cases unat_word_ariths(1))

text \<open>Widening milliseconds to microseconds loses nothing for any
  32-bit count.\<close>

theorem millisecond_delays_exact: "unat (ms_to_us ms) = 1000 * unat ms"
  by (simp add: unat_ms_to_us)

end
