(* ===== verification/Frame_Pool.thy ===== *)
theory Frame_Pool
  imports Prelude
begin

unbundle bit_operations_syntax

text \<open>
  \<open>detail/frame_pool.h\<close>: the fixed arena from which coroutine frames are allocated. The
  block headers live inside the arena; here they are a function of the byte offset at which
  they were placed, of which only the offsets reached by walking the block sizes are read.
  \<open>size_t\<close> and \<open>uintptr_t\<close> are natural numbers with the wrap-around at the target's word
  size written out (32 bits on the microcontrollers, 64 on the host), header fields are the
  32-bit words of \<open>BlockHeader\<close>. The loops over the arena end only because every block
  has a positive size, so they are partial functions: \<open>None\<close> is a walk that does not end.
\<close>

section \<open>Target constants and size\_t arithmetic\<close>

record target =
  word_bits :: nat      \<comment> \<open>bits of \<open>size_t\<close> and \<open>uintptr_t\<close>\<close>
  max_align :: nat      \<comment> \<open>\<open>alignof(std::max_align_t)\<close>\<close>
  header_bytes :: nat   \<comment> \<open>\<open>sizeof(BlockHeader)\<close>\<close>
  pool_bytes :: nat     \<comment> \<open>the template argument \<open>Bytes\<close>\<close>
  storage_addr :: nat   \<comment> \<open>the address of \<open>storage_\<close>\<close>

definition sz_add :: "target \<Rightarrow> nat \<Rightarrow> nat \<Rightarrow> nat" where
  "sz_add c a b = (a + b) mod 2 ^ word_bits c"

definition sz_sub :: "target \<Rightarrow> nat \<Rightarrow> nat \<Rightarrow> nat" where
  "sz_sub c a b = (a + 2 ^ word_bits c - b) mod 2 ^ word_bits c"

definition sz_not :: "target \<Rightarrow> nat \<Rightarrow> nat" where
  "sz_not c a = 2 ^ word_bits c - 1 - a"

definition kAlign :: "target \<Rightarrow> nat" where
  "kAlign c = max_align c"

definition kHeader :: "target \<Rightarrow> nat" where
  "kHeader c = and (sz_sub c (sz_add c (header_bytes c) (kAlign c)) 1) (sz_not c (sz_sub c (kAlign c) 1))"

definition kUsable :: "target \<Rightarrow> nat" where
  "kUsable c = pool_bytes c - pool_bytes c mod kAlign c"

definition is_power_of_two :: "target \<Rightarrow> nat \<Rightarrow> bool" where
  "is_power_of_two c v \<longleftrightarrow> v \<noteq> 0 \<and> and v (sz_sub c v 1) = 0"

definition align_padding :: "target \<Rightarrow> nat \<Rightarrow> nat \<Rightarrow> nat" where
  "align_padding c addr align =
     (let mask = sz_sub c align 1
      in and (sz_sub c align (and addr mask)) mask)"

definition round_up :: "target \<Rightarrow> nat \<Rightarrow> nat \<Rightarrow> nat" where
  "round_up c v a = and (sz_add c v (sz_sub c a 1)) (sz_not c (sz_sub c a 1))"

section \<open>The pool\<close>

record block_header =
  bh_size :: "32 word"
  bh_payload :: "32 word"
  bh_allocated :: bool

record pool =
  headers :: "nat \<Rightarrow> block_header"
  bytes_used :: nat
  peak_bytes_used :: nat
  allocation_failures :: nat

abbreviation blk_size :: "block_header \<Rightarrow> nat" where
  "blk_size b \<equiv> unat (bh_size b)"

definition mk_header :: "nat \<Rightarrow> nat \<Rightarrow> bool \<Rightarrow> block_header" where
  "mk_header sz payload allocated =
     \<lparr>bh_size = of_nat sz, bh_payload = of_nat payload, bh_allocated = allocated\<rparr>"

definition pool_reset :: "target \<Rightarrow> pool \<Rightarrow> pool" where
  "pool_reset c p = p\<lparr>headers := (headers p)(0 := mk_header (kUsable c) (kHeader c) False),
     bytes_used := 0, peak_bytes_used := 0, allocation_failures := 0\<rparr>"

text \<open>\<open>FramePool()\<close>: the constructor resets storage of unspecified content.\<close>

definition pool_init :: "target \<Rightarrow> (nat \<Rightarrow> block_header) \<Rightarrow> pool" where
  "pool_init c junk = pool_reset c
     \<lparr>headers = junk, bytes_used = 0, peak_bytes_used = 0, allocation_failures = 0\<rparr>"

definition count_failure :: "target \<Rightarrow> pool \<Rightarrow> pool" where
  "count_failure c p = p\<lparr>allocation_failures := sz_add c (allocation_failures p) 1\<rparr>"

text \<open>The payload offset the code computes for a block at \<open>off\<close>, and its fit test.\<close>

definition payload_offset :: "target \<Rightarrow> nat \<Rightarrow> nat \<Rightarrow> nat" where
  "payload_offset c align off =
     sz_add c (kHeader c)
       (align_padding c (sz_add c (sz_add c (storage_addr c) off) (kHeader c)) align)"

definition fits :: "target \<Rightarrow> nat \<Rightarrow> nat \<Rightarrow> nat \<Rightarrow> nat \<Rightarrow> bool" where
  "fits c sz align off blkSize \<longleftrightarrow>
     (let po = payload_offset c align off in po \<le> blkSize \<and> sz \<le> sz_sub c blkSize po)"

text \<open>The body of the success branch: split the block when the rest can hold a block.\<close>

definition place :: "target \<Rightarrow> nat \<Rightarrow> nat \<Rightarrow> nat \<Rightarrow> pool \<Rightarrow> nat \<times> pool" where
  "place c sz align off p =
     (let blkSize = blk_size (headers p off);
          payloadOffset = payload_offset c align off;
          used = sz_add c payloadOffset sz;
          needed = round_up c used (kAlign c);
          remainder = sz_sub c blkSize needed;
          p1 = (if sz_add c (kHeader c) (kAlign c) \<le> remainder
                then p\<lparr>headers := (headers p)
                       (sz_add c off needed := mk_header remainder (kHeader c) False,
                        off := (headers p off)\<lparr>bh_size := of_nat needed\<rparr>)\<rparr>
                else p);
          p2 = p1\<lparr>headers := (headers p1)
                 (off := (headers p1 off)\<lparr>bh_allocated := True, bh_payload := of_nat payloadOffset\<rparr>)\<rparr>;
          p3 = p2\<lparr>bytes_used := sz_add c (bytes_used p2) (blk_size (headers p2 off))\<rparr>;
          p4 = (if bytes_used p3 > peak_bytes_used p3
                then p3\<lparr>peak_bytes_used := bytes_used p3\<rparr> else p3)
      in (sz_add c (storage_addr c) (sz_add c off payloadOffset), p4))"

partial_function (option) alloc_walk ::
    "target \<Rightarrow> nat \<Rightarrow> nat \<Rightarrow> nat \<Rightarrow> pool \<Rightarrow> (nat option \<times> pool) option" where
  "alloc_walk c sz align off p =
     (if off < kUsable c then
        (if \<not> bh_allocated (headers p off) \<and> fits c sz align off (blk_size (headers p off))
         then Some (case place c sz align off p of (a, p') \<Rightarrow> (Some a, p'))
         else alloc_walk c sz align (sz_add c off (blk_size (headers p off))) p)
      else Some (None, count_failure c p))"

definition allocate :: "target \<Rightarrow> nat \<Rightarrow> nat \<Rightarrow> pool \<Rightarrow> (nat option \<times> pool) option" where
  "allocate c sz align p =
     (let align = (if align < kAlign c then kAlign c else align)
      in if \<not> is_power_of_two c align then Some (None, count_failure c p)
         else alloc_walk c sz align 0 p)"

partial_function (option) coalesce_from :: "target \<Rightarrow> nat \<Rightarrow> pool \<Rightarrow> pool option" where
  "coalesce_from c off p =
     (if off < kUsable c then
        let blk = headers p off; nextOff = sz_add c off (blk_size blk)
        in if \<not> bh_allocated blk \<and> nextOff < kUsable c \<and> \<not> bh_allocated (headers p nextOff)
           then coalesce_from c off
                  (p\<lparr>headers := (headers p)(off := blk\<lparr>bh_size :=
                      of_nat (sz_add c (blk_size blk) (blk_size (headers p nextOff)))\<rparr>)\<rparr>)
           else coalesce_from c nextOff p
      else Some p)"

definition coalesce :: "target \<Rightarrow> pool \<Rightarrow> pool option" where
  "coalesce c p = coalesce_from c 0 p"

text \<open>\<open>deallocate(p)\<close>: the pool and what the error hook was called with, if it was.\<close>

partial_function (option) dealloc_walk ::
    "target \<Rightarrow> nat \<Rightarrow> nat \<Rightarrow> pool \<Rightarrow> (pool \<times> error list) option" where
  "dealloc_walk c ptr off p =
     (if off < kUsable c then
        let blk = headers p off; blkSize = blk_size blk
        in if bh_allocated blk \<and>
              sz_add c (storage_addr c) (sz_add c off (unat (bh_payload blk))) = ptr
           then map_option (\<lambda>p'. (p', []))
                  (coalesce c (p\<lparr>headers := (headers p)(off := blk\<lparr>bh_allocated := False\<rparr>),
                     bytes_used := sz_sub c (bytes_used p) blkSize\<rparr>))
           else dealloc_walk c ptr (sz_add c off blkSize) p
      else Some (p, [Internal_error]))"

definition deallocate :: "target \<Rightarrow> nat option \<Rightarrow> pool \<Rightarrow> (pool \<times> error list) option" where
  "deallocate c ptr p =
     (case ptr of None \<Rightarrow> Some (p, []) | Some a \<Rightarrow> dealloc_walk c a 0 p)"

definition bytes_free :: "target \<Rightarrow> pool \<Rightarrow> nat" where
  "bytes_free c p = sz_sub c (kUsable c) (bytes_used p)"

section \<open>What the compiler and the static assertions guarantee\<close>

definition wf_target :: "target \<Rightarrow> bool" where
  "wf_target c \<longleftrightarrow>
     32 \<le> word_bits c \<and> (\<exists>k < word_bits c. max_align c = 2 ^ k) \<and>
     0 < header_bytes c \<and> header_bytes c + max_align c \<le> 2 ^ (word_bits c - 1) \<and>
     kHeader c + kAlign c \<le> pool_bytes c \<and> kUsable c < 2 ^ 32 \<and>
     storage_addr c mod max_align c = 0 \<and> storage_addr c + pool_bytes c < 2 ^ word_bits c"

section \<open>The bit operations are the arithmetic they stand for\<close>

lemma and_mask_mod: "and x (2 ^ k - 1) = x mod 2 ^ k" for x :: nat
  by (simp add: take_bit_eq_mod [symmetric] take_bit_eq_mask mask_eq_exp_minus_1)

lemma and_high_bits:
  fixes x :: nat
  assumes "k \<le> w" and "x < 2 ^ w"
  shows "and x (2 ^ w - 1 - (2 ^ k - 1)) = x - x mod 2 ^ k"
proof -
  have "(2 :: nat) ^ w - 1 - (2 ^ k - 1) = 2 ^ k * (2 ^ (w - k) - 1)"
    using assms(1) by (simp add: diff_mult_distrib2 flip: power_add)
  also have "\<dots> = push_bit k (mask (w - k))"
    by (simp add: push_bit_eq_mult mask_eq_exp_minus_1 mult.commute)
  finally have m: "(2 :: nat) ^ w - 1 - (2 ^ k - 1) = push_bit k (mask (w - k))" .
  have "and x (push_bit k (mask (w - k))) = push_bit k (drop_bit k x)"
  proof (rule bit_eqI)
    fix n
    have "bit x n \<Longrightarrow> n < w"
      using assms(2) by (metis bit_take_bit_iff take_bit_nat_eq_self_iff)
    then show "bit (and x (push_bit k (mask (w - k)))) n = bit (push_bit k (drop_bit k x)) n"
      using assms(1) by (auto simp: bit_simps)
  qed
  also have "\<dots> = x - x mod 2 ^ k"
    by (simp add: push_bit_eq_mult drop_bit_eq_div minus_mod_eq_div_mult)
  finally show ?thesis by (simp only: m)
qed

lemma and_even_odd: "and (2 * u) (2 * w + 1) = 2 * and u w" for u w :: nat
  by (subst and_rec) simp

lemma and_odd_even: "and (2 * u + 1) (2 * w) = 2 * and u w" for u w :: nat
  by (subst and_rec) simp

lemma and_pred_eq_0: "v \<noteq> 0 \<Longrightarrow> and v (v - 1) = 0 \<Longrightarrow> \<exists>k. v = 2 ^ k" for v :: nat
proof (induction v rule: less_induct)
  case (less v)
  show ?case
  proof (cases "even v")
    case True
    then obtain u where v: "v = 2 * u" by (elim evenE)
    with less.prems(1) have u: "u \<noteq> 0" "u < v" by simp_all
    have "v - 1 = 2 * (u - 1) + 1" using u v by simp
    then have "and v (v - 1) = 2 * and u (u - 1)"
      by (simp only: v and_even_odd)
    with less.prems have "and u (u - 1) = 0" by simp
    with less.IH u obtain k where "u = 2 ^ k" by blast
    then have "v = 2 ^ Suc k" using v by simp
    then show ?thesis by blast
  next
    case False
    then obtain u where v: "v = 2 * u + 1" by (elim oddE)
    then have "v - 1 = 2 * u" by simp
    then have "and v (v - 1) = 2 * u" by (simp only: v and_odd_even and.idem)
    with less.prems v have "v = 2 ^ 0" by simp
    then show ?thesis by blast
  qed
qed

lemma and_pow2_pred: "and (2 ^ k) (2 ^ k - 1) = (0 :: nat)"
  by (simp only: and_mask_mod mod_self)

lemma sz_add_eq: "a + b < 2 ^ word_bits c \<Longrightarrow> sz_add c a b = a + b"
  by (simp add: sz_add_def)

lemma sz_sub_eq: "b \<le> a \<Longrightarrow> a < 2 ^ word_bits c \<Longrightarrow> sz_sub c a b = a - b"
proof -
  assume "b \<le> a" "a < 2 ^ word_bits c"
  moreover have "a + 2 ^ word_bits c - b = (a - b) + 2 ^ word_bits c"
    using \<open>b \<le> a\<close> by simp
  ultimately show ?thesis by (simp only: sz_sub_def mod_add_self2) simp
qed

lemma is_power_of_two_iff:
  assumes "v < 2 ^ word_bits c"
  shows "is_power_of_two c v \<longleftrightarrow> (\<exists>k < word_bits c. v = 2 ^ k)"
proof (cases "v = 0")
  case True
  then show ?thesis by (simp add: is_power_of_two_def)
next
  case False
  then have s: "sz_sub c v 1 = v - 1" using assms by (intro sz_sub_eq) simp_all
  have "is_power_of_two c v \<longleftrightarrow> and v (v - 1) = 0"
    using False by (simp only: is_power_of_two_def s simp_thms)
  also have "\<dots> \<longleftrightarrow> (\<exists>k. v = 2 ^ k)"
    using and_pred_eq_0 [OF False] and_pow2_pred by auto
  also have "\<dots> \<longleftrightarrow> (\<exists>k < word_bits c. v = 2 ^ k)" using assms by auto
  finally show ?thesis .
qed

lemma align_padding_eq:
  assumes "k < word_bits c"
  shows "align_padding c addr (2 ^ k) = (2 ^ k - addr mod 2 ^ k) mod 2 ^ k"
proof -
  have l: "(2 :: nat) ^ k < 2 ^ word_bits c" using assms by simp
  have m: "sz_sub c (2 ^ k) 1 = 2 ^ k - 1" using l by (intro sz_sub_eq) simp_all
  have "addr mod 2 ^ k \<le> 2 ^ k" by (simp add: less_imp_le)
  then have "sz_sub c (2 ^ k) (addr mod 2 ^ k) = 2 ^ k - addr mod 2 ^ k"
    using l by (intro sz_sub_eq)
  then show ?thesis by (simp only: align_padding_def Let_def m and_mask_mod)
qed

text \<open>The padding is the least one that makes the padded address a multiple.\<close>

lemma align_padding_spec:
  assumes "k < word_bits c"
  shows "(addr + align_padding c addr (2 ^ k)) mod 2 ^ k = 0"
    and "align_padding c addr (2 ^ k) < 2 ^ k"
proof -
  let ?r = "addr mod 2 ^ k"
  show "align_padding c addr (2 ^ k) < 2 ^ k" by (simp add: align_padding_eq [OF assms])
  have "(addr + (2 ^ k - ?r) mod 2 ^ k) mod 2 ^ k = (?r + (2 ^ k - ?r)) mod 2 ^ k"
    by (simp only: mod_add_right_eq mod_add_left_eq)
  also have "?r + (2 ^ k - ?r) = 2 ^ k" by (simp add: less_imp_le)
  finally show "(addr + align_padding c addr (2 ^ k)) mod 2 ^ k = 0"
    by (simp only: align_padding_eq [OF assms] mod_self)
qed

lemma round_up_eq:
  assumes "k < word_bits c" and "v + (2 ^ k - 1) < 2 ^ word_bits c"
  shows "round_up c v (2 ^ k) = (v + (2 ^ k - 1)) - (v + (2 ^ k - 1)) mod 2 ^ k"
proof -
  have l: "(2 :: nat) ^ k < 2 ^ word_bits c" using assms by simp
  have m: "sz_sub c (2 ^ k) 1 = 2 ^ k - 1" using l by (intro sz_sub_eq) simp_all
  have a: "sz_add c v (2 ^ k - 1) = v + (2 ^ k - 1)" by (rule sz_add_eq [OF assms(2)])
  show ?thesis
    unfolding round_up_def m a sz_not_def
    by (rule and_high_bits) (use assms in simp_all)
qed

lemma round_up_spec:
  assumes "k < word_bits c" and "v + (2 ^ k - 1) < 2 ^ word_bits c"
  shows "v \<le> round_up c v (2 ^ k)" and "round_up c v (2 ^ k) mod 2 ^ k = 0"
    and "m mod 2 ^ k = 0 \<Longrightarrow> v \<le> m \<Longrightarrow> round_up c v (2 ^ k) \<le> m"
proof -
  let ?x = "v + (2 ^ k - 1)"
  have r: "round_up c v (2 ^ k) = ?x div 2 ^ k * 2 ^ k"
    by (simp only: round_up_eq [OF assms] minus_mod_eq_div_mult)
  have "?x mod 2 ^ k \<le> 2 ^ k - 1" by (simp add: Suc_leI less_Suc_eq_le [symmetric])
  then show "v \<le> round_up c v (2 ^ k)"
    unfolding round_up_eq [OF assms] by linarith
  show "round_up c v (2 ^ k) mod 2 ^ k = 0" by (simp add: r)
  show "round_up c v (2 ^ k) \<le> m" if "m mod 2 ^ k = 0" "v \<le> m"
  proof -
    from that(1) obtain q where m: "m = q * 2 ^ k" by (metis mult.commute mod_eq_0_iff_dvd dvdE)
    have "?x < q * 2 ^ k + 2 ^ k" using that(2) unfolding m by (rule add_le_less_mono) simp
    then have "?x < Suc q * 2 ^ k" by simp
    then have "?x div 2 ^ k < Suc q" by (rule less_mult_imp_div_less)
    then show ?thesis using m r by (simp add: less_Suc_eq_le)
  qed
qed

end
