(* ===== verification/Frame_Pool_Spec.thy ===== *)
theory Frame_Pool_Spec
  imports Frame_Pool
begin

text \<open>
  The contract of the frame pool: the arena is a list of blocks that tile it, allocation is
  first fit on that list, deallocation clears a flag and merges the runs of free blocks. The
  lemmas say that the loops over the in-arena headers compute exactly these list functions,
  so in particular that they end and that no address computation wraps.
\<close>

section \<open>Block lists\<close>

lemma mod_add_zero: "x mod k = 0 \<Longrightarrow> y mod k = 0 \<Longrightarrow> (x + y) mod k = 0" for k :: nat
  by (simp add: mod_eq_0_iff_dvd)

fun tiles :: "(nat \<Rightarrow> block_header) \<Rightarrow> nat \<Rightarrow> block_header list \<Rightarrow> nat \<Rightarrow> bool" where
  "tiles h off [] e \<longleftrightarrow> off = e"
| "tiles h off (b # bs) e \<longleftrightarrow> h off = b \<and> tiles h (off + blk_size b) bs e"

abbreviation total_size :: "block_header list \<Rightarrow> nat" where
  "total_size bs \<equiv> sum_list (map blk_size bs)"

definition used_bytes :: "block_header list \<Rightarrow> nat" where
  "used_bytes bs = total_size (filter bh_allocated bs)"

definition block_ok :: "target \<Rightarrow> block_header \<Rightarrow> bool" where
  "block_ok c b \<longleftrightarrow> blk_size b mod kAlign c = 0 \<and> kHeader c \<le> blk_size b \<and>
     (bh_allocated b \<longrightarrow> kHeader c \<le> unat (bh_payload b) \<and> unat (bh_payload b) \<le> blk_size b)"

fun coalesced :: "block_header list \<Rightarrow> bool" where
  "coalesced (a # b # bs) \<longleftrightarrow> (bh_allocated a \<or> bh_allocated b) \<and> coalesced (b # bs)"
| "coalesced _ \<longleftrightarrow> True"

definition pool_rep :: "target \<Rightarrow> pool \<Rightarrow> block_header list \<Rightarrow> bool" where
  "pool_rep c p bs \<longleftrightarrow>
     tiles (headers p) 0 bs (kUsable c) \<and> (\<forall>b \<in> set bs. block_ok c b) \<and> coalesced bs \<and>
     bytes_used p = used_bytes bs \<and> bytes_used p \<le> peak_bytes_used p"

lemma tiles_total: "tiles h off bs e \<Longrightarrow> off + total_size bs = e"
  by (induction bs arbitrary: off) (simp_all add: add.assoc [symmetric])

lemma tiles_append:
  "tiles h off (bs @ cs) e \<longleftrightarrow> tiles h off bs (off + total_size bs) \<and> tiles h (off + total_size bs) cs e"
  by (induction bs arbitrary: off) (auto simp: add.assoc)

lemma tiles_cong:
  "(\<And>x. off \<le> x \<Longrightarrow> x < e \<Longrightarrow> h' x = h x) \<Longrightarrow> (\<forall>b \<in> set bs. 0 < blk_size b) \<Longrightarrow>
   tiles h off bs e \<Longrightarrow> tiles h' off bs e"
proof (induction bs arbitrary: off)
  case Nil
  then show ?case by simp
next
  case (Cons b bs)
  have "off + blk_size b + total_size bs = e" using tiles_total [OF Cons.prems(3)] by simp
  moreover have "0 < blk_size b" using Cons.prems(2) by simp
  ultimately have "h' off = h off" using Cons.prems(1) by simp
  with Cons show ?case by simp
qed

lemma tiles_update:
  "tiles h off (pre @ b # bs) e \<Longrightarrow> \<forall>x \<in> set (pre @ b # bs). 0 < blk_size x \<Longrightarrow>
   blk_size b' = blk_size b \<Longrightarrow> tiles (h(off + total_size pre := b')) off (pre @ b' # bs) e"
proof (induction pre arbitrary: off)
  case Nil
  then have "tiles h (off + blk_size b) bs e" and "\<forall>x \<in> set bs. 0 < blk_size x" by simp_all
  then have "tiles (h(off := b')) (off + blk_size b) bs e"
    using Nil.prems(2) by (intro tiles_cong [of _ _ "h(off := b')" h]) auto
  then show ?case
    unfolding append_Nil tiles.simps list.map sum_list.Nil add_0_right Nil.prems(3) by simp
next
  case (Cons x pre)
  then show ?case using Cons.IH [of "off + blk_size x"] by (simp add: add.assoc)
qed

lemma used_bytes_simps [simp]:
  "used_bytes [] = 0"
  "used_bytes (b # bs) = (if bh_allocated b then blk_size b else 0) + used_bytes bs"
  "used_bytes (bs @ cs) = used_bytes bs + used_bytes cs"
  by (simp_all add: used_bytes_def)

lemma used_bytes_le: "used_bytes bs \<le> total_size bs"
  by (induction bs) auto

section \<open>Facts of a well-formed target\<close>

lemma unat_of_nat32: "n < 2 ^ 32 \<Longrightarrow> unat (of_nat n :: 32 word) = n"
  by (simp add: unat_of_nat)

lemma kAlign_pow2: "wf_target c \<Longrightarrow> \<exists>k < word_bits c. kAlign c = 2 ^ k"
  by (auto simp: wf_target_def kAlign_def)

lemma kUsable_le: "kUsable c \<le> pool_bytes c"
  by (simp add: kUsable_def)

lemma kUsable_aligned: "kUsable c mod kAlign c = 0"
  by (simp add: kUsable_def minus_mod_eq_div_mult)

lemma kHeader_bounds:
  assumes "wf_target c"
  shows "header_bytes c \<le> kHeader c" and "kHeader c < header_bytes c + kAlign c"
    and "kHeader c mod kAlign c = 0" and "0 < kHeader c"
proof -
  obtain k where k: "k < word_bits c" "kAlign c = 2 ^ k" using kAlign_pow2 [OF assms] by blast
  have w: "header_bytes c + kAlign c \<le> 2 ^ (word_bits c - 1)" "0 < header_bytes c" "32 \<le> word_bits c"
    using assms by (auto simp: wf_target_def kAlign_def)
  have "(2 :: nat) ^ (word_bits c - 1) < 2 ^ word_bits c" using w(3) by simp
  with w have lt: "header_bytes c + kAlign c < 2 ^ word_bits c" by linarith
  have one: "1 \<le> kAlign c" using k by simp
  have s: "sz_sub c (kAlign c) 1 = kAlign c - 1" using one lt by (intro sz_sub_eq) simp_all
  have "sz_sub c (sz_add c (header_bytes c) (kAlign c)) 1 = header_bytes c + kAlign c - 1"
    using lt one by (simp add: sz_add_eq sz_sub_eq)
  moreover have "sz_add c (header_bytes c) (sz_sub c (kAlign c) 1) = header_bytes c + (kAlign c - 1)"
    unfolding s using lt by (intro sz_add_eq) simp
  ultimately have eq: "kHeader c = round_up c (header_bytes c) (2 ^ k)"
    using one by (simp add: kHeader_def round_up_def k(2) [symmetric])
  have b: "header_bytes c + (2 ^ k - 1) < 2 ^ word_bits c" using lt k by linarith
  note r = round_up_spec [OF k(1) b]
  show "header_bytes c \<le> kHeader c" unfolding eq by (rule r)
  then show "0 < kHeader c" using w(2) by simp
  show "kHeader c mod kAlign c = 0" unfolding eq k(2) by (rule r)
  show "kHeader c < header_bytes c + kAlign c"
    unfolding eq k(2) round_up_eq [OF k(1) b] using w(2) by (simp add: less_imp_diff_less)
qed

lemma word_room: "wf_target c \<Longrightarrow> kUsable c + kAlign c \<le> 2 ^ word_bits c"
proof -
  assume c: "wf_target c"
  then obtain k where k: "k < word_bits c" "kAlign c = 2 ^ k" using kAlign_pow2 by blast
  have "kUsable c < 2 ^ word_bits c"
    using c kUsable_le [of c] by (auto simp: wf_target_def)
  moreover obtain q where q: "kUsable c = 2 ^ k * q"
    using kUsable_aligned [of c] k by (metis mod_eq_0_iff_dvd dvdE)
  moreover have p: "(2 :: nat) ^ word_bits c = 2 ^ k * 2 ^ (word_bits c - k)"
    using k by (simp flip: power_add)
  ultimately have "Suc q \<le> 2 ^ (word_bits c - k)" by (simp add: Suc_le_eq)
  then have "2 ^ k * Suc q \<le> 2 ^ k * 2 ^ (word_bits c - k)" by (rule mult_le_mono2)
  then show ?thesis using q p k by (simp add: algebra_simps)
qed

text \<open>
  The alignment a request is served with: a power of two at least \<open>kAlign\<close>. For a block
  inside the arena the payload offset is header plus padding, and the fit test is exact.
\<close>

lemma payload_offset_eq:
  assumes c: "wf_target c" and a: "align = 2 ^ j" "j < word_bits c"
    and b: "off + kHeader c \<le> kUsable c"
  shows "payload_offset c align off
           = kHeader c + align_padding c (storage_addr c + off + kHeader c) align"
proof -
  let ?W = "2 ^ word_bits c :: nat"
  have st: "storage_addr c + pool_bytes c < ?W" and h: "header_bytes c + kAlign c \<le> 2 ^ (word_bits c - 1)"
    and w: "32 \<le> word_bits c" using c by (auto simp: wf_target_def kAlign_def)
  have "kHeader c < 2 ^ (word_bits c - 1)" using kHeader_bounds(2) [OF c] h by simp
  moreover have "align_padding c (storage_addr c + off + kHeader c) align < 2 ^ (word_bits c - 1)"
  proof -
    have "align_padding c (storage_addr c + off + kHeader c) align < 2 ^ j"
      unfolding a(1) by (rule align_padding_spec(2) [OF a(2)])
    also have "(2 :: nat) ^ j \<le> 2 ^ (word_bits c - 1)" using a(2) by simp
    finally show ?thesis .
  qed
  moreover have "(2 :: nat) ^ (word_bits c - 1) + 2 ^ (word_bits c - 1) = ?W"
    using w by (cases "word_bits c") simp_all
  moreover have "storage_addr c + off + kHeader c < ?W" using st b kUsable_le [of c] by simp
  ultimately show ?thesis
    by (simp add: payload_offset_def sz_add_eq)
qed

lemma fits_iff:
  assumes "blkSize < 2 ^ word_bits c"
  shows "fits c sz align off blkSize \<longleftrightarrow> payload_offset c align off + sz \<le> blkSize"
  using assms by (auto simp: fits_def Let_def sz_sub_eq)


section \<open>Allocation is first fit on the block list\<close>

definition split_block :: "target \<Rightarrow> nat \<Rightarrow> nat \<Rightarrow> nat \<Rightarrow> block_header \<Rightarrow> block_header list" where
  "split_block c sz align off b =
     (let po = payload_offset c align off; needed = round_up c (po + sz) (kAlign c)
      in if kHeader c + kAlign c \<le> blk_size b - needed
         then [mk_header needed po True, mk_header (blk_size b - needed) (kHeader c) False]
         else [mk_header (blk_size b) po True])"

fun alloc_spec ::
    "target \<Rightarrow> nat \<Rightarrow> nat \<Rightarrow> nat \<Rightarrow> block_header list \<Rightarrow> (nat \<times> block_header list) option" where
  "alloc_spec c sz align off [] = None"
| "alloc_spec c sz align off (b # bs) =
     (if \<not> bh_allocated b \<and> payload_offset c align off + sz \<le> blk_size b
      then Some (storage_addr c + off + payload_offset c align off,
                 split_block c sz align off b @ bs)
      else map_option (\<lambda>(a, bs'). (a, b # bs')) (alloc_spec c sz align (off + blk_size b) bs))"

text \<open>What a fitting block gives: the sizes of the pieces and no wrap-around.\<close>

lemma fit_sizes:
  assumes c: "wf_target c" and b: "block_ok c b" and e: "off + blk_size b \<le> kUsable c"
    and f: "payload_offset c align off + sz \<le> blk_size b"
    and po: "kHeader c \<le> payload_offset c align off"
  defines "needed \<equiv> round_up c (payload_offset c align off + sz) (kAlign c)"
  shows "payload_offset c align off + sz \<le> needed" and "needed \<le> blk_size b"
    and "needed mod kAlign c = 0" and "blk_size b < 2 ^ 32" and "blk_size b < 2 ^ word_bits c"
proof -
  obtain k where k: "k < word_bits c" "kAlign c = 2 ^ k" using kAlign_pow2 [OF c] by blast
  have "payload_offset c align off + sz + (2 ^ k - 1) < 2 ^ word_bits c"
    using f e word_room [OF c] one_le_power [of "2 :: nat" k] k(2) by linarith
  note r = round_up_spec [OF k(1) this]
  show "payload_offset c align off + sz \<le> needed" unfolding needed_def k(2) by (rule r)
  show "needed mod kAlign c = 0" unfolding needed_def k(2) by (rule r)
  show "needed \<le> blk_size b" unfolding needed_def k(2)
    using b f k(2) by (intro r(3)) (simp_all add: block_ok_def)
  show "blk_size b < 2 ^ 32" by (rule unat32_lt)
  show "blk_size b < 2 ^ word_bits c"
    using e word_room [OF c] one_le_power [of "2 :: nat" k] k(2) by linarith
qed

lemma blk_size_mk_header [simp]: "n < 2 ^ 32 \<Longrightarrow> blk_size (mk_header n po al) = n"
  by (simp add: mk_header_def unat_of_nat32)

lemma mk_header_sel [simp]:
  "bh_allocated (mk_header n po al) = al"
  "po < 2 ^ 32 \<Longrightarrow> unat (bh_payload (mk_header n po al)) = po"
  by (simp_all add: mk_header_def unat_of_nat32)

lemma header_updates [simp]:
  "b\<lparr>bh_allocated := True, bh_payload := of_nat po\<rparr> = mk_header (blk_size b) po True"
  "mk_header (unat (of_nat n :: 32 word)) po al = mk_header n po al"
  by (simp_all add: mk_header_def)

lemma split_block_facts:
  assumes c: "wf_target c" and b: "block_ok c b" "\<not> bh_allocated b"
    and e: "off + blk_size b \<le> kUsable c"
    and f: "payload_offset c align off + sz \<le> blk_size b"
    and po: "kHeader c \<le> payload_offset c align off"
  shows "total_size (split_block c sz align off b) = blk_size b"
    and "\<forall>x \<in> set (split_block c sz align off b). block_ok c x"
    and "\<exists>x r. split_block c sz align off b = x # r \<and> bh_allocated x \<and> (\<forall>y \<in> set r. \<not> bh_allocated y)
           \<and> used_bytes (split_block c sz align off b) = blk_size x
           \<and> unat (bh_payload x) = payload_offset c align off \<and> unat (bh_payload x) + sz \<le> blk_size x"
proof -
  let ?po = "payload_offset c align off"
  define needed where "needed = round_up c (?po + sz) (kAlign c)"
  note s = fit_sizes [OF c b(1) e f po, folded needed_def]
  have k: "kHeader c mod kAlign c = 0" by (rule kHeader_bounds(3) [OF c])
  have bs: "blk_size b mod kAlign c = 0" using b(1) by (simp add: block_ok_def)
  have split: "split_block c sz align off b =
      (if kHeader c + kAlign c \<le> blk_size b - needed
       then [mk_header needed ?po True, mk_header (blk_size b - needed) (kHeader c) False]
       else [mk_header (blk_size b) ?po True])"
    by (simp add: split_block_def Let_def needed_def)
  have dm: "(blk_size b - needed) mod kAlign c = 0"
    using bs s(2,3) by (metis mod_eq_0_iff_dvd dvd_diff_nat)
  have lt: "?po < 2 ^ 32" "needed < 2 ^ 32" using f s by linarith+
  show "total_size (split_block c sz align off b) = blk_size b"
    using s lt by (simp add: split)
  show "\<forall>x \<in> set (split_block c sz align off b). block_ok c x"
    using s lt b po f bs dm by (auto simp: split block_ok_def)
  show "\<exists>x r. split_block c sz align off b = x # r \<and> bh_allocated x \<and> (\<forall>y \<in> set r. \<not> bh_allocated y)
           \<and> used_bytes (split_block c sz align off b) = blk_size x
           \<and> unat (bh_payload x) = ?po \<and> unat (bh_payload x) + sz \<le> blk_size x"
    using s lt f by (auto simp: split)
qed


lemma place_spec:
  assumes c: "wf_target c" and b: "block_ok c b" "\<not> bh_allocated b"
    and t: "tiles (headers p) off (b # bs) (kUsable c)" and pos: "\<forall>x \<in> set bs. 0 < blk_size x"
    and f: "payload_offset c align off + sz \<le> blk_size b"
    and po: "kHeader c \<le> payload_offset c align off"
    and u: "bytes_used p + blk_size b < 2 ^ word_bits c" "bytes_used p \<le> peak_bytes_used p"
  shows "\<exists>p'. place c sz align off p = (storage_addr c + off + payload_offset c align off, p')
      \<and> tiles (headers p') off (split_block c sz align off b @ bs) (kUsable c)
      \<and> (\<forall>x < off. headers p' x = headers p x)
      \<and> bytes_used p' = bytes_used p + used_bytes (split_block c sz align off b)
      \<and> peak_bytes_used p' = max (peak_bytes_used p) (bytes_used p')
      \<and> allocation_failures p' = allocation_failures p"
proof -
  let ?po = "payload_offset c align off"
  define needed where "needed = round_up c (?po + sz) (kAlign c)"
  have e: "off + blk_size b \<le> kUsable c" and h: "headers p off = b"
    and rest: "tiles (headers p) (off + blk_size b) bs (kUsable c)"
    using t tiles_total [OF t] by simp_all
  note s = fit_sizes [OF c b(1) e f po, folded needed_def]
  have room: "storage_addr c + kUsable c < 2 ^ word_bits c" and hb: "kHeader c < 2 ^ 32"
    using c kUsable_le [of c] f po s(4) by (auto simp: wf_target_def)
  have k: "kHeader c + kAlign c < 2 ^ word_bits c"
    using c kHeader_bounds [OF c] kUsable_le [of c] by (auto simp: wf_target_def)
  have z1: "sz_add c ?po sz = ?po + sz" and z2: "sz_sub c (blk_size b) needed = blk_size b - needed"
    and z3: "sz_add c off needed = off + needed" and z4: "sz_add c (kHeader c) (kAlign c) = kHeader c + kAlign c"
    and z5: "sz_add c (storage_addr c) (sz_add c off ?po) = storage_addr c + off + ?po"
    using s e f room k by (simp_all add: sz_add_eq sz_sub_eq)
  have n0: "0 < needed" using s(1) po kHeader_bounds(4) [OF c] by linarith
  have lt: "?po < 2 ^ 32" "needed < 2 ^ 32" "blk_size b - needed < 2 ^ 32" using f s by linarith+
  have n1: "bytes_used p + needed < 2 ^ word_bits c" using u s(2) by linarith
  have tl: "tiles ((headers p)(x := y, off := z)) (off + blk_size b) bs (kUsable c)"
    if "x < off + blk_size b" for x y z
    using that rest pos n0 s(2) by (intro tiles_cong [OF _ pos rest]) auto
  have tl2: "tiles ((headers p)(off := z)) (off + blk_size b) bs (kUsable c)" for z
    using tl [of off z z] n0 s(2) by simp
  let ?a = "storage_addr c + off + ?po"
  have finish: ?thesis
    if pl: "place c sz align off p = (?a, p\<lparr>headers := H, bytes_used := bytes_used p + u,
              peak_bytes_used := max (peak_bytes_used p) (bytes_used p + u)\<rparr>)"
      and "tiles H off (split_block c sz align off b @ bs) (kUsable c)"
      and "\<forall>x < off. H x = headers p x" and "used_bytes (split_block c sz align off b) = u" for H u
    unfolding pl by (rule exI, rule conjI, rule refl) (use that in simp_all)
  note unfold = place_def Let_def z1 needed_def [symmetric] h z2 z3 z4 z5
  show ?thesis
  proof (cases "kHeader c + kAlign c \<le> blk_size b - needed")
    case True
    have ne: "off + needed \<noteq> off" "needed < blk_size b"
      using True n0 kHeader_bounds(4) [OF c] by linarith+
    let ?H = "(headers p)(off + needed := mk_header (blk_size b - needed) (kHeader c) False,
                off := mk_header needed ?po True)"
    have split: "split_block c sz align off b =
        [mk_header needed ?po True, mk_header (blk_size b - needed) (kHeader c) False]"
      using True by (simp only: split_block_def Let_def needed_def if_True)
    have "sz_add c (bytes_used p) needed = bytes_used p + needed" by (rule sz_add_eq [OF n1])
    then have pl: "place c sz align off p = (?a, p\<lparr>headers := ?H, bytes_used := bytes_used p + needed,
              peak_bytes_used := max (peak_bytes_used p) (bytes_used p + needed)\<rparr>)"
      using True ne lt(2) by (simp add: unfold max_def)
    show ?thesis
    proof (rule finish [OF pl])
      show "tiles ?H off (split_block c sz align off b @ bs) (kUsable c)"
        using tl [of "off + needed"] ne lt s(2) by (simp add: split)
    qed (use lt in \<open>simp_all add: split\<close>)
  next
    case False
    let ?H = "(headers p)(off := mk_header (blk_size b) ?po True)"
    have split: "split_block c sz align off b = [mk_header (blk_size b) ?po True]"
      using False by (simp only: split_block_def Let_def needed_def if_False)
    have "sz_add c (bytes_used p) (blk_size b) = bytes_used p + blk_size b" by (rule sz_add_eq [OF u(1)])
    then have pl: "place c sz align off p = (?a, p\<lparr>headers := ?H, bytes_used := bytes_used p + blk_size b,
              peak_bytes_used := max (peak_bytes_used p) (bytes_used p + blk_size b)\<rparr>)"
      using False s(4) by (simp add: unfold max_def)
    show ?thesis
    proof (rule finish [OF pl])
      show "tiles ?H off (split_block c sz align off b @ bs) (kUsable c)"
        using tl2 s(4) by (simp add: split)
    qed (use s(4) in \<open>simp_all add: split\<close>)
  qed
qed

lemma block_pos: "wf_target c \<Longrightarrow> block_ok c b \<Longrightarrow> 0 < blk_size b"
  using kHeader_bounds(4) [of c] by (simp add: block_ok_def)

text \<open>
  The walk over the headers from an offset \<open>off\<close> computes \<open>alloc_spec\<close> on the blocks
  that tile the rest of the arena.
\<close>

lemma alloc_walk_spec:
  assumes c: "wf_target c" and a: "align = 2 ^ j" "j < word_bits c"
  shows "tiles (headers p) off bs (kUsable c) \<Longrightarrow> \<forall>b \<in> set bs. block_ok c b \<Longrightarrow>
     bytes_used p + (total_size bs - used_bytes bs) \<le> kUsable c \<Longrightarrow> bytes_used p \<le> peak_bytes_used p \<Longrightarrow>
     (case alloc_spec c sz align off bs of
        None \<Rightarrow> alloc_walk c sz align off p = Some (None, count_failure c p)
      | Some (ptr, bs') \<Rightarrow> \<exists>p'. alloc_walk c sz align off p = Some (Some ptr, p')
          \<and> tiles (headers p') off bs' (kUsable c) \<and> (\<forall>x < off. headers p' x = headers p x)
          \<and> bytes_used p' + used_bytes bs = bytes_used p + used_bytes bs'
          \<and> peak_bytes_used p' = max (peak_bytes_used p) (bytes_used p')
          \<and> allocation_failures p' = allocation_failures p)"
proof (induction bs arbitrary: off)
  case Nil
  then show ?case by (simp add: alloc_walk.simps)
next
  case (Cons b bs)
  have h: "headers p off = b" and rest: "tiles (headers p) (off + blk_size b) bs (kUsable c)"
    and ok: "block_ok c b" using Cons.prems by simp_all
  have e: "off + blk_size b \<le> kUsable c" using tiles_total [OF Cons.prems(1)] by simp
  have pos: "0 < blk_size b" by (rule block_pos [OF c ok])
  have W: "kUsable c < 2 ^ word_bits c" using c kUsable_le [of c] by (auto simp: wf_target_def)
  have po: "kHeader c \<le> payload_offset c align off"
    using e ok by (subst payload_offset_eq [OF c a]) (simp_all add: block_ok_def)
  have step: "sz_add c off (blk_size b) = off + blk_size b" using e W by (simp add: sz_add_eq)
  have fit: "fits c sz align off (blk_size b) \<longleftrightarrow> payload_offset c align off + sz \<le> blk_size b"
    using e W by (intro fits_iff) linarith
  show ?case
  proof (cases "\<not> bh_allocated b \<and> payload_offset c align off + sz \<le> blk_size b")
    case True
    have "bytes_used p + blk_size b < 2 ^ word_bits c"
      using Cons.prems(3) True W used_bytes_le [of bs] by simp
    have "\<forall>x \<in> set bs. 0 < blk_size x" using Cons.prems(2) block_pos [OF c] by simp
    from place_spec [OF c ok _ Cons.prems(1) this _ po \<open>bytes_used p + blk_size b < _\<close> Cons.prems(4)] True
    obtain p' where p': "place c sz align off p = (storage_addr c + off + payload_offset c align off, p')"
      "tiles (headers p') off (split_block c sz align off b @ bs) (kUsable c)"
      "\<forall>x < off. headers p' x = headers p x"
      "bytes_used p' = bytes_used p + used_bytes (split_block c sz align off b)"
      "peak_bytes_used p' = max (peak_bytes_used p) (bytes_used p')"
      "allocation_failures p' = allocation_failures p"
      by blast
    then show ?thesis
      using True e pos fit by (subst (2) alloc_walk.simps) (simp add: h)
  next
    case False
    have walk: "alloc_walk c sz align off p = alloc_walk c sz align (off + blk_size b) p"
      using False e pos fit by (subst alloc_walk.simps) (auto simp: h step)
    have "bytes_used p + (total_size bs - used_bytes bs) \<le> kUsable c"
      using Cons.prems(3) used_bytes_le [of bs] by (simp split: if_splits)
    from Cons.IH [OF rest _ this Cons.prems(4)] Cons.prems(2)
    show ?thesis using False h pos
      by (auto simp: walk split: option.splits)
  qed
qed


section \<open>Live allocations\<close>

text \<open>
  The allocated blocks as (payload address, first address of the block, address after it).
\<close>

fun live :: "target \<Rightarrow> nat \<Rightarrow> block_header list \<Rightarrow> (nat \<times> nat \<times> nat) set" where
  "live c off [] = {}"
| "live c off (b # bs) =
     (if bh_allocated b
      then {(storage_addr c + off + unat (bh_payload b), storage_addr c + off,
             storage_addr c + off + blk_size b)}
      else {}) \<union> live c (off + blk_size b) bs"

lemma live_append: "live c off (bs @ cs) = live c off bs \<union> live c (off + total_size bs) cs"
  by (induction bs arbitrary: off) (simp_all add: add.assoc Un_assoc)

lemma live_free: "\<forall>y \<in> set bs. \<not> bh_allocated y \<Longrightarrow> live c off bs = {}"
  by (induction bs arbitrary: off) auto

lemma live_bounds:
  "(a, lo, hi) \<in> live c off bs \<Longrightarrow> \<forall>b \<in> set bs. block_ok c b \<Longrightarrow>
   storage_addr c + off \<le> lo \<and> lo + kHeader c \<le> a \<and> a \<le> hi \<and>
   hi \<le> storage_addr c + off + total_size bs"
proof (induction bs arbitrary: off)
  case Nil
  then show ?case by simp
next
  case (Cons b bs)
  show ?case
  proof (cases "(a, lo, hi) \<in> live c (off + blk_size b) bs")
    case True
    with Cons show ?thesis by fastforce
  next
    case False
    with Cons.prems show ?thesis by (auto simp: block_ok_def split: if_splits)
  qed
qed

lemma live_disjoint:
  "(a, lo, hi) \<in> live c off bs \<Longrightarrow> (a', lo', hi') \<in> live c off bs \<Longrightarrow>
   \<forall>b \<in> set bs. block_ok c b \<Longrightarrow> (a, lo, hi) = (a', lo', hi') \<or> hi \<le> lo' \<or> hi' \<le> lo"
proof (induction bs arbitrary: off)
  case Nil
  then show ?case by simp
next
  case (Cons b bs)
  have ok: "\<forall>x \<in> set bs. block_ok c x" using Cons.prems(3) by simp
  let ?tail = "live c (off + blk_size b) bs"
  have bound: "storage_addr c + off + blk_size b \<le> l" if "(x, l, h) \<in> ?tail" for x l h
    using live_bounds [OF that ok] by simp
  have first: "h = storage_addr c + off + blk_size b \<and> l = storage_addr c + off
      \<and> x = storage_addr c + off + unat (bh_payload b)"
    if "(x, l, h) \<in> live c off (b # bs)" "(x, l, h) \<notin> ?tail" for x l h
    using that by (auto split: if_splits)
  show ?case
  proof (cases "(a, lo, hi) \<in> ?tail \<longleftrightarrow> (a', lo', hi') \<in> ?tail")
    case True
    then show ?thesis using Cons.IH [OF _ _ ok] first Cons.prems(1,2) by blast
  next
    case False
    then show ?thesis using bound first Cons.prems(1,2) by blast
  qed
qed

section \<open>The contract of allocate\<close>

lemma alloc_spec_Some:
  "alloc_spec c sz align off bs = Some (a, bs') \<Longrightarrow>
   \<exists>pre b post. bs = pre @ b # post \<and> \<not> bh_allocated b \<and>
     payload_offset c align (off + total_size pre) + sz \<le> blk_size b \<and>
     a = storage_addr c + (off + total_size pre) + payload_offset c align (off + total_size pre) \<and>
     bs' = pre @ split_block c sz align (off + total_size pre) b @ post"
proof (induction bs arbitrary: off bs')
  case Nil
  then show ?case by simp
next
  case (Cons b bs)
  show ?case
  proof (cases "\<not> bh_allocated b \<and> payload_offset c align off + sz \<le> blk_size b")
    case True
    with Cons.prems have "b # bs = [] @ b # bs \<and> \<not> bh_allocated b \<and>
       payload_offset c align (off + total_size []) + sz \<le> blk_size b \<and>
       a = storage_addr c + (off + total_size []) + payload_offset c align (off + total_size []) \<and>
       bs' = [] @ split_block c sz align (off + total_size []) b @ bs" by auto
    then show ?thesis by blast
  next
    case False
    with Cons.prems obtain bs1 where s: "alloc_spec c sz align (off + blk_size b) bs = Some (a, bs1)"
      and bs': "bs' = b # bs1" by auto
    from Cons.IH [OF s] obtain pre x post where
      "bs = pre @ x # post" "\<not> bh_allocated x"
      "payload_offset c align (off + blk_size b + total_size pre) + sz \<le> blk_size x"
      "a = storage_addr c + (off + blk_size b + total_size pre)
             + payload_offset c align (off + blk_size b + total_size pre)"
      "bs1 = pre @ split_block c sz align (off + blk_size b + total_size pre) x @ post" by blast
    then show ?thesis
      using bs' by (intro exI [of _ "b # pre"] exI [of _ x] exI [of _ post]) (simp add: add.assoc)
  qed
qed

lemma alloc_spec_None:
  "alloc_spec c sz align off bs = None \<longleftrightarrow>
   (\<forall>pre b post. bs = pre @ b # post \<longrightarrow> \<not> bh_allocated b \<longrightarrow>
      blk_size b < payload_offset c align (off + total_size pre) + sz)"
proof (induction bs arbitrary: off)
  case Nil
  then show ?case by simp
next
  case (Cons b bs)
  let ?P = "\<lambda>pre x. \<not> bh_allocated x \<longrightarrow> blk_size x < payload_offset c align (off + total_size pre) + sz"
  have "(\<forall>pre x post. b # bs = pre @ x # post \<longrightarrow> ?P pre x) \<longleftrightarrow>
      ?P [] b \<and> (\<forall>pre x post. bs = pre @ x # post \<longrightarrow> ?P (b # pre) x)"
    by (auto simp only: Cons_eq_append_conv)
  then show ?case using Cons.IH [of "off + blk_size b"] by (auto simp: add.assoc)
qed

lemma coalesced_replace:
  "coalesced (pre @ b # post) \<Longrightarrow> \<not> bh_allocated b \<Longrightarrow> bh_allocated x \<Longrightarrow>
   r = [] \<or> (\<exists>y. r = [y]) \<Longrightarrow> coalesced (pre @ (x # r) @ post)"
proof (induction pre rule: coalesced.induct)
  case (1 a a' as)
  then show ?case by simp
qed (cases post; auto)+


section \<open>Coalescing merges the runs of free blocks\<close>

function merge_free :: "block_header list \<Rightarrow> block_header list" where
  "merge_free [] = []"
| "merge_free [a] = [a]"
| "merge_free (a # b # bs) =
     (if \<not> bh_allocated a \<and> \<not> bh_allocated b
      then merge_free (a\<lparr>bh_size := of_nat (blk_size a + blk_size b)\<rparr> # bs)
      else a # merge_free (b # bs))"
  by pat_completeness auto
termination
  by (relation "measure length") auto

lemma merge_free_nonempty [simp]: "merge_free (b # bs) \<noteq> []"
  by (induction "b # bs" arbitrary: b bs rule: merge_free.induct) auto

lemma merge_free_head: "bh_allocated b \<Longrightarrow> merge_free (b # bs) = b # merge_free bs"
  by (cases bs) auto

lemma merge_free_coalesced: "coalesced (merge_free bs)"
proof (induction bs rule: merge_free.induct)
  case (3 a b bs)
  show ?case
  proof (cases "\<not> bh_allocated a \<and> \<not> bh_allocated b")
    case True
    then show ?thesis using "3.IH"(1) by simp
  next
    case False
    then have IH: "coalesced (merge_free (b # bs))" by (rule "3.IH"(2))
    show ?thesis
    proof (cases "bh_allocated a")
      case True
      then show ?thesis using False IH by (cases "merge_free (b # bs)") auto
    next
      case f: False
      with False have "bh_allocated b" by simp
      then show ?thesis using f IH by (simp add: merge_free_head)
    qed
  qed
qed auto

lemma merge_free_facts:
  assumes c: "wf_target c"
  shows "\<forall>b \<in> set bs. block_ok c b \<Longrightarrow> off + total_size bs \<le> kUsable c \<Longrightarrow>
     (\<forall>b \<in> set (merge_free bs). block_ok c b) \<and> total_size (merge_free bs) = total_size bs \<and>
     used_bytes (merge_free bs) = used_bytes bs \<and> live c off (merge_free bs) = live c off bs"
proof (induction bs arbitrary: off rule: merge_free.induct)
  case (3 a b bs)
  show ?case
  proof (cases "\<not> bh_allocated a \<and> \<not> bh_allocated b")
    case True
    define m where "m = a\<lparr>bh_size := of_nat (blk_size a + blk_size b)\<rparr>"
    have "kUsable c < 2 ^ 32" using c unfolding wf_target_def by blast
    with "3.prems"(2) have "blk_size a + blk_size b < 2 ^ 32" by simp
    then have m: "blk_size m = blk_size a + blk_size b" "\<not> bh_allocated m"
      using True by (simp_all add: m_def unat_of_nat32 del: of_nat_add)
    have "block_ok c a" "block_ok c b" using "3.prems"(1) by simp_all
    then have "block_ok c m"
      unfolding block_ok_def m(1) using m(2) mod_add_zero by (simp only: simp_thms) linarith
    then have ok: "\<forall>x \<in> set (m # bs). block_ok c x" using "3.prems"(1) by simp
    have tot: "total_size (m # bs) = total_size (a # b # bs)" by (simp only: list.map sum_list.Cons m(1) add.assoc)
    have eq: "merge_free (a # b # bs) = merge_free (m # bs)"
      using True by (simp add: m_def del: of_nat_add)
    have u: "used_bytes (m # bs) = used_bytes (a # b # bs)" using m(2) True by simp
    have l: "live c off (m # bs) = live c off (a # b # bs)"
      using m(2) True by (simp only: live.simps m(1) add.assoc if_False simp_thms Un_empty_left)
    have "off + total_size (m # bs) \<le> kUsable c" unfolding tot by (rule "3.prems"(2))
    from "3.IH"(1) [OF True, folded m_def, OF ok this]
    show ?thesis unfolding eq tot u l .
  next
    case False
    have "merge_free (a # b # bs) = a # merge_free (b # bs)" by (simp only: merge_free.simps False if_False)
    then show ?thesis
      using "3.IH"(2) [OF False, of "off + blk_size a"] "3.prems"
      by (simp add: add.assoc del: merge_free.simps)
  qed
qed simp_all

lemma coalesce_from_spec:
  assumes c: "wf_target c"
  shows "tiles (headers p) off bs (kUsable c) \<Longrightarrow> \<forall>b \<in> set bs. block_ok c b \<Longrightarrow>
     \<exists>p'. coalesce_from c off p = Some p' \<and> tiles (headers p') off (merge_free bs) (kUsable c) \<and>
       (\<forall>x < off. headers p' x = headers p x) \<and> bytes_used p' = bytes_used p \<and>
       peak_bytes_used p' = peak_bytes_used p \<and> allocation_failures p' = allocation_failures p"
proof (induction bs arbitrary: off p rule: merge_free.induct)
  case 1
  then show ?case by (simp add: coalesce_from.simps)
next
  case (2 a)
  have W: "kUsable c < 2 ^ word_bits c" using c kUsable_le [of c] by (auto simp: wf_target_def)
  have "0 < blk_size a" using "2.prems" block_pos [OF c] by simp
  then have "coalesce_from c off p = Some p"
    using "2.prems" W by (auto simp: coalesce_from.simps Let_def sz_add_eq)
  then show ?case using "2.prems" by simp
next
  case (3 a b bs)
  have W: "kUsable c < 2 ^ word_bits c" and M: "kUsable c < 2 ^ 32"
    using c kUsable_le [of c] by (auto simp: wf_target_def)
  have e: "off + blk_size a + blk_size b \<le> kUsable c"
    using tiles_total [OF "3.prems"(1)] by simp
  have pos: "0 < blk_size a" "0 < blk_size b" "\<forall>x \<in> set bs. 0 < blk_size x"
    using "3.prems"(2) block_pos [OF c] by simp_all
  have h: "headers p off = a" "headers p (off + blk_size a) = b"
    and rest: "tiles (headers p) (off + blk_size a + blk_size b) bs (kUsable c)"
    using "3.prems"(1) by simp_all
  have z: "sz_add c off (blk_size a) = off + blk_size a"
    "sz_add c (blk_size a) (blk_size b) = blk_size a + blk_size b"
    using e W by (simp_all add: sz_add_eq)
  show ?case
  proof (cases "\<not> bh_allocated a \<and> \<not> bh_allocated b")
    case True
    let ?m = "a\<lparr>bh_size := of_nat (blk_size a + blk_size b)\<rparr>"
    let ?p = "p\<lparr>headers := (headers p)(off := ?m)\<rparr>"
    have m: "blk_size ?m = blk_size a + blk_size b"
      using e M by (simp add: unat_of_nat32 del: of_nat_add)
    have step: "coalesce_from c off p = coalesce_from c off ?p"
      using True e pos by (subst coalesce_from.simps) (simp add: h z Let_def del: of_nat_add)
    have "tiles (headers ?p) (off + blk_size a + blk_size b) bs (kUsable c)"
      using pos(1) by (intro tiles_cong [OF _ pos(3) rest]) auto
    then have "tiles (headers ?p) off (?m # bs) (kUsable c)" using m by (simp add: add.assoc)
    moreover have "block_ok c ?m"
      using "3.prems"(2) True m by (simp add: block_ok_def mod_add_zero del: of_nat_add)
    moreover have "merge_free (a # b # bs) = merge_free (?m # bs)"
      using True by (simp del: of_nat_add)
    moreover have "\<forall>x < off. headers ?p x = headers p x" by simp
    moreover have "\<forall>x \<in> set (?m # bs). block_ok c x"
      using calculation(2) "3.prems"(2) by (simp del: of_nat_add)
    ultimately show ?thesis
      using "3.IH"(1) [OF True, of ?p off] step
      by (simp del: fun_upd_apply of_nat_add merge_free.simps)
  next
    case False
    have "off + blk_size a < kUsable c" using e pos by simp
    then have step: "coalesce_from c off p = coalesce_from c (off + blk_size a) p"
      using False e pos by (subst coalesce_from.simps) (auto simp: h z Let_def)
    then show ?thesis
      using "3.IH"(2) [OF False, of p "off + blk_size a"] "3.prems" False pos(1) h by auto
  qed
qed


section \<open>Deallocation\<close>

lemma dealloc_walk_spec:
  assumes c: "wf_target c"
  shows "tiles (headers p) 0 (pre @ bs) (kUsable c) \<Longrightarrow> \<forall>b \<in> set (pre @ bs). block_ok c b \<Longrightarrow>
     bytes_used p = used_bytes (pre @ bs) \<Longrightarrow>
     (\<exists>x b y. bs = x @ b # y \<and> bh_allocated b \<and>
        storage_addr c + total_size (pre @ x) + unat (bh_payload b) = ptr \<and>
        (\<exists>p'. dealloc_walk c ptr (total_size pre) p = Some (p', []) \<and>
           tiles (headers p') 0 (merge_free (pre @ x @ b\<lparr>bh_allocated := False\<rparr> # y)) (kUsable c) \<and>
           bytes_used p' = bytes_used p - blk_size b \<and> peak_bytes_used p' = peak_bytes_used p \<and>
           allocation_failures p' = allocation_failures p))
     \<or> ((\<forall>lo hi. (ptr, lo, hi) \<notin> live c (total_size pre) bs) \<and>
        dealloc_walk c ptr (total_size pre) p = Some (p, [Internal_error]))"
proof (induction bs arbitrary: pre)
  case Nil
  have "total_size pre = kUsable c" using tiles_total [OF Nil.prems(1)] by simp
  then show ?case by (simp add: dealloc_walk.simps)
next
  case (Cons b bs)
  let ?off = "total_size pre"
  have W: "storage_addr c + kUsable c < 2 ^ word_bits c"
    using c kUsable_le [of c] by (auto simp: wf_target_def)
  have e: "?off + blk_size b \<le> kUsable c" using tiles_total [OF Cons.prems(1)] by simp
  have h: "headers p ?off = b" using Cons.prems(1) by (simp add: tiles_append)
  have pos: "0 < blk_size b" and ok: "block_ok c b" using Cons.prems(2) block_pos [OF c] by simp_all
  have step: "sz_add c ?off (blk_size b) = ?off + blk_size b" using e W by (simp add: sz_add_eq)
  show ?case
  proof (cases "bh_allocated b \<and> storage_addr c + (?off + unat (bh_payload b)) = ptr")
    case True
    let ?b = "b\<lparr>bh_allocated := False\<rparr>"
    let ?p = "p\<lparr>headers := (headers p)(?off := ?b), bytes_used := bytes_used p - blk_size b\<rparr>"
    have z: "sz_add c (storage_addr c) (sz_add c ?off (unat (bh_payload b))) = ptr"
      using True e W ok by (auto simp: sz_add_eq block_ok_def)
    have "used_bytes (pre @ b # bs) \<le> kUsable c"
      using used_bytes_le [of "pre @ b # bs"] tiles_total [OF Cons.prems(1)] by simp
    then have s: "sz_sub c (bytes_used p) (blk_size b) = bytes_used p - blk_size b"
      using Cons.prems(3) True W by (intro sz_sub_eq) simp_all
    have "\<forall>x \<in> set (pre @ b # bs). 0 < blk_size x" using Cons.prems(2) block_pos [OF c] by simp
    then have t: "tiles (headers ?p) 0 (pre @ ?b # bs) (kUsable c)"
      using tiles_update [OF Cons.prems(1), of ?b] by simp
    have "block_ok c ?b" using ok by (simp add: block_ok_def)
    then have "\<forall>x \<in> set (pre @ ?b # bs). block_ok c x" using Cons.prems(2) by simp
    from coalesce_from_spec [OF c t this] obtain p' where p':
      "coalesce c ?p = Some p'" "tiles (headers p') 0 (merge_free (pre @ ?b # bs)) (kUsable c)"
      "bytes_used p' = bytes_used p - blk_size b" "peak_bytes_used p' = peak_bytes_used p"
      "allocation_failures p' = allocation_failures p" by (auto simp: coalesce_def)
    have "dealloc_walk c ptr ?off p = Some (p', [])"
      using True e pos by (subst dealloc_walk.simps) (simp add: h z s Let_def p'(1))
    then show ?thesis
      using True p' by (intro disjI1 exI [of _ "[]"] exI [of _ b] exI [of _ bs]) (auto simp: add.assoc)
  next
    case False
    have z: "sz_add c (storage_addr c) (sz_add c ?off (unat (bh_payload b)))
        = storage_addr c + (?off + unat (bh_payload b))" if "bh_allocated b"
      using that e W ok by (auto simp: sz_add_eq block_ok_def)
    have walk: "dealloc_walk c ptr ?off p = dealloc_walk c ptr (total_size (pre @ [b])) p"
      using False e pos z by (subst dealloc_walk.simps) (auto simp: h step Let_def)
    have nl: "(ptr, lo, hi) \<in> live c ?off (b # bs) \<Longrightarrow> (ptr, lo, hi) \<in> live c (total_size (pre @ [b])) bs"
      for lo hi using False by (auto simp: add.assoc split: if_splits)
    note IH = Cons.IH [of "pre @ [b]", unfolded append.assoc append.simps, OF Cons.prems]
    show ?thesis
      using IH
    proof (elim disjE exE conjE, goal_cases)
      case (1 x b' y p')
      then show ?case
        using walk by (intro disjI1 exI [of _ "b # x"] exI [of _ b'] exI [of _ y]) simp_all
    next
      case 2
      have "\<forall>lo hi. (ptr, lo, hi) \<notin> live c ?off (b # bs)"
        by (intro allI notI, drule nl) (rule 2(1) [rule_format, THEN notE])
      with 2(2) show ?case unfolding walk by (intro disjI2 conjI)
    qed
  qed
qed

end
