(* ===== verification/Frame_Pool_Props.thy ===== *)
theory Frame_Pool_Props
  imports Frame_Pool_Spec
begin

text \<open>
  The properties of the frame pool over \<open>allocate\<close> and \<open>deallocate\<close>, from the
  refinement lemmas of \<open>Frame_Pool_Spec\<close>.
\<close>

section \<open>Preservation\<close>

lemma split_block_shape:
  "\<exists>x r. split_block c sz align off b = x # r \<and> bh_allocated x \<and>
     (r = [] \<or> (\<exists>y. r = [y] \<and> \<not> bh_allocated y))"
  by (simp add: split_block_def Let_def)

lemma kUsable_pos: "wf_target c \<Longrightarrow> 0 < kUsable c"
proof -
  assume c: "wf_target c"
  have "0 < kAlign c" using kAlign_pow2 [OF c] by auto
  moreover have "kAlign c \<le> pool_bytes c" using c by (simp add: wf_target_def)
  ultimately have "pool_bytes c mod kAlign c < pool_bytes c"
    by (meson mod_less_divisor less_le_trans)
  then show ?thesis by (simp add: kUsable_def)
qed

lemma pool_rep_total: "pool_rep c p bs \<Longrightarrow> total_size bs = kUsable c"
  using tiles_total [of "headers p" 0 bs "kUsable c"] by (simp add: pool_rep_def)

lemma pool_rep_used: "pool_rep c p bs \<Longrightarrow> bytes_used p = used_bytes bs \<and> used_bytes bs \<le> kUsable c"
  using used_bytes_le [of bs] pool_rep_total [of c p bs] by (simp add: pool_rep_def)

lemma pool_rep_count_failure: "pool_rep c p bs \<Longrightarrow> pool_rep c (count_failure c p) bs"
  by (simp add: pool_rep_def count_failure_def)

text \<open>The alignment a request is served with.\<close>

definition effective_align :: "target \<Rightarrow> nat \<Rightarrow> nat" where
  "effective_align c align = (if align < kAlign c then kAlign c else align)"

lemma allocate_walk:
  assumes c: "wf_target c" and p: "pool_rep c p bs"
    and a: "effective_align c align = 2 ^ j" "j < word_bits c"
  shows "case alloc_spec c sz (effective_align c align) 0 bs of
      None \<Rightarrow> allocate c sz align p = Some (None, count_failure c p)
    | Some (ptr, bs') \<Rightarrow> \<exists>p'. allocate c sz align p = Some (Some ptr, p')
        \<and> tiles (headers p') 0 bs' (kUsable c) \<and> bytes_used p' = used_bytes bs'
        \<and> peak_bytes_used p' = max (peak_bytes_used p) (bytes_used p')
        \<and> allocation_failures p' = allocation_failures p"
proof -
  have "(2 :: nat) ^ j < 2 ^ word_bits c" using a(2) by simp
  then have "is_power_of_two c (effective_align c align)"
    using a by (subst is_power_of_two_iff) auto
  then have eq: "allocate c sz align p = alloc_walk c sz (effective_align c align) 0 p"
    by (simp only: allocate_def Let_def effective_align_def simp_thms if_False)
  have "bytes_used p + (total_size bs - used_bytes bs) \<le> kUsable c"
    using pool_rep_used [OF p] pool_rep_total [OF p] by simp
  from alloc_walk_spec [OF c a, of p 0 bs sz, OF _ _ this] p
  show ?thesis unfolding eq by (auto simp: pool_rep_def split: option.splits)
qed

lemma pool_rep_alloc:
  assumes c: "wf_target c" and p: "pool_rep c p bs"
    and a: "align = 2 ^ j" "j < word_bits c"
    and s: "alloc_spec c sz align 0 bs = Some (ptr, bs')"
    and p': "tiles (headers p') 0 bs' (kUsable c)" "bytes_used p' = used_bytes bs'"
      "peak_bytes_used p' = max (peak_bytes_used p) (bytes_used p')"
  shows "pool_rep c p' bs'" and "\<exists>lo hi. live c 0 bs' = insert (ptr, lo, hi) (live c 0 bs) \<and>
      ptr mod align = 0 \<and> ptr + sz \<le> hi \<and> (ptr, lo, hi) \<notin> live c 0 bs"
proof -
  obtain pre b post where bs: "bs = pre @ b # post" "\<not> bh_allocated b"
    and f: "payload_offset c align (total_size pre) + sz \<le> blk_size b"
    and ptr: "ptr = storage_addr c + total_size pre + payload_offset c align (total_size pre)"
    and bs': "bs' = pre @ split_block c sz align (total_size pre) b @ post"
    using alloc_spec_Some [OF s] by auto
  let ?off = "total_size pre"
  have ok: "\<forall>x \<in> set bs. block_ok c x" and okb: "block_ok c b" using p bs by (auto simp: pool_rep_def)
  have e: "?off + blk_size b \<le> kUsable c" using pool_rep_total [OF p] bs by simp
  have hb: "?off + kHeader c \<le> kUsable c" using e okb by (simp add: block_ok_def)
  have poff: "payload_offset c align ?off
      = kHeader c + align_padding c (storage_addr c + ?off + kHeader c) align"
    by (rule payload_offset_eq [OF c a hb])
  then have po: "kHeader c \<le> payload_offset c align ?off" by simp
  note sf = split_block_facts [OF c okb bs(2) e f po]
  from sf(3) obtain x r where x: "split_block c sz align ?off b = x # r" "bh_allocated x"
      "\<forall>y \<in> set r. \<not> bh_allocated y" "unat (bh_payload x) = payload_offset c align ?off"
      "unat (bh_payload x) + sz \<le> blk_size x" by blast
  have "coalesced (pre @ (x # r) @ post)"
    using p bs x(2) split_block_shape [of c sz align ?off b] x(1)
    by (intro coalesced_replace [of pre b]) (auto simp: pool_rep_def)
  then show "pool_rep c p' bs'"
    using p' ok bs sf(2) by (auto simp: pool_rep_def bs' x(1) [symmetric])
  let ?lo = "storage_addr c + ?off" and ?hi = "storage_addr c + ?off + blk_size x"
  have tot: "total_size (x # r) = blk_size b" using sf(1) by (simp only: x(1))
  have "live c 0 bs' = live c 0 pre \<union> (live c ?off (x # r) \<union> live c (?off + blk_size b) post)"
    unfolding bs' x(1) live_append [of c 0 pre] add_0 live_append [of c ?off "x # r"] tot ..
  moreover have "live c ?off (x # r) = {(ptr, ?lo, ?hi)}"
    using x(2-4) by (simp add: live_free ptr)
  moreover have "live c 0 bs = live c 0 pre \<union> live c (?off + blk_size b) post"
    using bs(2) by (simp add: bs(1) live_append)
  ultimately have "live c 0 bs' = insert (ptr, ?lo, ?hi) (live c 0 bs)" by simp
  moreover have "(storage_addr c + ?off + kHeader c
      + align_padding c (storage_addr c + ?off + kHeader c) align) mod align = 0"
    unfolding a(1) by (rule align_padding_spec(1) [OF a(2)])
  then have "ptr mod align = 0" unfolding ptr poff by (simp only: add.assoc)
  moreover have "ptr + sz \<le> ?hi" using x(4,5) by (simp add: ptr)
  moreover have "(ptr, ?lo, ?hi) \<notin> live c 0 bs"
  proof
    assume "(ptr, ?lo, ?hi) \<in> live c 0 bs"
    then have "(ptr, ?lo, ?hi) \<in> live c 0 pre \<or> (ptr, ?lo, ?hi) \<in> live c (?off + blk_size b) post"
      using bs by (simp add: live_append)
    then show False
      using live_bounds [of ptr ?lo ?hi c 0 pre] live_bounds [of ptr ?lo ?hi c "?off + blk_size b" post]
        ok bs kHeader_bounds(4) [OF c] block_pos [OF c okb] by auto
  qed
  ultimately show "\<exists>lo hi. live c 0 bs' = insert (ptr, lo, hi) (live c 0 bs) \<and>
      ptr mod align = 0 \<and> ptr + sz \<le> hi \<and> (ptr, lo, hi) \<notin> live c 0 bs" by (intro exI conjI)
qed

section \<open>Properties\<close>

lemma allocate_spec:
  assumes "wf_target c" and "pool_rep c p bs" and "align < 2 ^ word_bits c"
  shows "\<exists>r p' bs'. allocate c sz align p = Some (r, p') \<and> pool_rep c p' bs' \<and>
    (case r of
       None \<Rightarrow> bs' = bs \<and> p' = count_failure c p
     | Some a \<Rightarrow> \<exists>lo hi. live c 0 bs' = insert (a, lo, hi) (live c 0 bs) \<and>
         a mod effective_align c align = 0 \<and> lo + kHeader c \<le> a \<and> a + sz \<le> hi \<and>
         storage_addr c \<le> lo \<and> hi \<le> storage_addr c + kUsable c \<and>
         (\<forall>(a', lo', hi') \<in> live c 0 bs. hi \<le> lo' \<or> hi' \<le> lo))"
proof (cases "is_power_of_two c (effective_align c align)")
  case False
  then have "allocate c sz align p = Some (None, count_failure c p)"
    by (simp add: allocate_def Let_def effective_align_def)
  then show ?thesis using pool_rep_count_failure [OF assms(2)] by auto
next
  case True
  have "effective_align c align < 2 ^ word_bits c"
    using assms(3) kAlign_pow2 [OF assms(1)] by (auto simp: effective_align_def)
  with True obtain j where a: "effective_align c align = 2 ^ j" "j < word_bits c"
    by (auto simp: is_power_of_two_iff)
  note walk = allocate_walk [OF assms(1,2) a, of sz]
  show ?thesis
  proof (cases "alloc_spec c sz (effective_align c align) 0 bs")
    case None
    then show ?thesis using walk pool_rep_count_failure [OF assms(2)] by auto
  next
    case (Some x)
    then obtain ptr bs' where s: "alloc_spec c sz (effective_align c align) 0 bs = Some (ptr, bs')"
      by (cases x) auto
    from walk obtain p' where p': "allocate c sz align p = Some (Some ptr, p')"
      "tiles (headers p') 0 bs' (kUsable c)" "bytes_used p' = used_bytes bs'"
      "peak_bytes_used p' = max (peak_bytes_used p) (bytes_used p')" by (auto simp: s)
    note rep = pool_rep_alloc [OF assms(1,2) a s p'(2-4)]
    from rep(2) obtain lo hi where l: "live c 0 bs' = insert (ptr, lo, hi) (live c 0 bs)"
      "ptr mod effective_align c align = 0" "ptr + sz \<le> hi" "(ptr, lo, hi) \<notin> live c 0 bs"
      by (elim exE conjE) (rule that)
    have ok: "\<forall>b \<in> set bs'. block_ok c b" using rep(1) by (simp add: pool_rep_def)
    have mem: "(ptr, lo, hi) \<in> live c 0 bs'" using l(1) by simp
    have disj: "\<forall>(a', lo', hi') \<in> live c 0 bs. hi \<le> lo' \<or> hi' \<le> lo"
    proof (intro ballI, clarify)
      fix a' lo' hi' assume "(a', lo', hi') \<in> live c 0 bs" "\<not> hi' \<le> lo"
      then show "hi \<le> lo'"
        using live_disjoint [OF mem _ ok, of a' lo' hi'] l(1,4) by auto
    qed
    have bounds: "storage_addr c \<le> lo" "lo + kHeader c \<le> ptr" "hi \<le> storage_addr c + kUsable c"
      using live_bounds [OF mem ok] pool_rep_total [OF rep(1)] by simp_all
    show ?thesis
      by (intro exI [of _ "Some ptr"] exI [of _ p'] exI [of _ bs'] conjI, rule p'(1), rule rep(1),
          unfold option.case, intro exI conjI)
        (rule l(1-3) bounds disj)+
  qed
qed

text \<open>C9. \<open>allocate\<close> always returns and keeps the pool well formed. A null
  result leaves the blocks as they were and counts one failure. Otherwise the new allocation is
  the only change to the set of live allocations, its payload is aligned as requested, lies
  after its header and inside the arena, has the requested size, and its block does not meet
  the block of any other live allocation.\<close>

theorem allocate_contract:
  assumes "wf_target c" and "pool_rep c p bs" and "align < 2 ^ word_bits c"
  shows "\<exists>r p' bs'. allocate c sz align p = Some (r, p') \<and> pool_rep c p' bs' \<and>
    (case r of
       None \<Rightarrow> bs' = bs \<and> p' = count_failure c p
     | Some a \<Rightarrow> \<exists>lo hi. live c 0 bs' = insert (a, lo, hi) (live c 0 bs) \<and>
         a mod effective_align c align = 0 \<and> lo + kHeader c \<le> a \<and> a + sz \<le> hi \<and>
         storage_addr c \<le> lo \<and> hi \<le> storage_addr c + kUsable c \<and>
         (\<forall>(a', lo', hi') \<in> live c 0 bs. hi \<le> lo' \<or> hi' \<le> lo))"
  by (rule allocate_spec [OF assms])

text \<open>\<open>allocate\<close> returns null exactly when the requested
  alignment is not a power of two or no free block can hold the header, the padding and the
  requested bytes: first fit never overlooks a block.\<close>

theorem allocate_fails_only_when_full:
  assumes "wf_target c" and "pool_rep c p bs" and "align < 2 ^ word_bits c"
  shows "(\<exists>p'. allocate c sz align p = Some (None, p')) \<longleftrightarrow>
    \<not> is_power_of_two c (effective_align c align) \<or>
    (\<forall>pre b post. bs = pre @ b # post \<longrightarrow> \<not> bh_allocated b \<longrightarrow>
       blk_size b < payload_offset c (effective_align c align) (total_size pre) + sz)"
proof (cases "is_power_of_two c (effective_align c align)")
  case False
  then show ?thesis by (simp add: allocate_def Let_def effective_align_def)
next
  case True
  have "effective_align c align < 2 ^ word_bits c"
    using assms(3) kAlign_pow2 [OF assms(1)] by (auto simp: effective_align_def)
  with True obtain j where a: "effective_align c align = 2 ^ j" "j < word_bits c"
    by (auto simp: is_power_of_two_iff)
  have "(\<exists>p'. allocate c sz align p = Some (None, p')) \<longleftrightarrow>
      alloc_spec c sz (effective_align c align) 0 bs = None"
    using allocate_walk [OF assms(1,2) a, of sz] by (auto split: option.splits)
  then show ?thesis using True by (simp add: alloc_spec_None)
qed

section \<open>Freeing\<close>

lemma live_ptr_unique:
  assumes "(a, lo, hi) \<in> live c off bs" "(a, lo', hi') \<in> live c off bs"
    and "\<forall>b \<in> set bs. block_ok c b" and "wf_target c"
  shows "lo' = lo \<and> hi' = hi"
proof -
  have "0 < kHeader c" by (rule kHeader_bounds(4) [OF assms(4)])
  moreover have "lo + kHeader c \<le> a \<and> a \<le> hi" "lo' + kHeader c \<le> a \<and> a \<le> hi'"
    using live_bounds [OF assms(1,3)] live_bounds [OF assms(2,3)] by blast+
  ultimately have "\<not> hi \<le> lo'" "\<not> hi' \<le> lo" by linarith+
  then show ?thesis using live_disjoint [OF assms(1,2,3)] by auto
qed

lemma live_mem:
  assumes "bh_allocated b" and "off = total_size x"
  shows "(storage_addr c + off + unat (bh_payload b), storage_addr c + off,
          storage_addr c + off + blk_size b) \<in> live c 0 (x @ b # y)"
  using assms by (simp add: live_append)

text \<open>What clearing one block's flag does to the set of live allocations.\<close>

lemma live_clear:
  assumes c: "wf_target c" and ok: "\<forall>z \<in> set (x @ b # y). block_ok c z" and b: "bh_allocated b"
  defines "lo \<equiv> storage_addr c + total_size x"
  shows "live c 0 (x @ b\<lparr>bh_allocated := False\<rparr> # y)
           = live c 0 (x @ b # y) - {(lo + unat (bh_payload b), lo, lo + blk_size b)}"
proof -
  let ?t = "(lo + unat (bh_payload b), lo, lo + blk_size b)"
  let ?y = "live c (total_size x + blk_size b) y"
  have pos: "0 < blk_size b" using ok block_pos [OF c] by simp
  have "?t \<notin> live c 0 x"
  proof
    assume "?t \<in> live c 0 x"
    then have "lo + blk_size b \<le> lo"
      using live_bounds [of _ _ _ c 0 x] ok by (fastforce simp: lo_def)
    with pos show False by simp
  qed
  moreover have "?t \<notin> ?y"
  proof
    assume "?t \<in> ?y"
    then have "lo + blk_size b \<le> lo"
      using live_bounds [of _ _ _ c "total_size x + blk_size b" y] ok by (fastforce simp: lo_def)
    with pos show False by simp
  qed
  moreover have "live c 0 (x @ b # y) = insert ?t (live c 0 x \<union> ?y)"
    using b by (simp add: live_append lo_def)
  moreover have "live c 0 (x @ b\<lparr>bh_allocated := False\<rparr> # y) = live c 0 x \<union> ?y"
    by (simp add: live_append)
  ultimately show ?thesis by simp
qed

lemma dealloc_cases:
  assumes c: "wf_target c" and p: "pool_rep c p bs"
  shows "(\<exists>x b y p'. bs = x @ b # y \<and> bh_allocated b \<and>
            ptr = storage_addr c + total_size x + unat (bh_payload b) \<and>
            deallocate c (Some ptr) p = Some (p', []) \<and>
            pool_rep c p' (merge_free (x @ b\<lparr>bh_allocated := False\<rparr> # y)) \<and>
            bytes_used p' + blk_size b = bytes_used p)
       \<or> (\<forall>lo hi. (ptr, lo, hi) \<notin> live c 0 bs) \<and>
          deallocate c (Some ptr) p = Some (p, [Internal_error])"
proof -
  have t: "tiles (headers p) 0 ([] @ bs) (kUsable c)" and ok: "\<forall>b \<in> set ([] @ bs). block_ok c b"
    and u: "bytes_used p = used_bytes ([] @ bs)" and pk: "bytes_used p \<le> peak_bytes_used p"
    using p by (simp_all add: pool_rep_def)
  from dealloc_walk_spec [OF c t ok u, of ptr]
  show ?thesis
  proof (elim disjE exE conjE, goal_cases)
    case (1 x b y p')
    let ?b = "b\<lparr>bh_allocated := False\<rparr>"
    have ok': "\<forall>z \<in> set (x @ ?b # y). block_ok c z"
      using ok 1(1) by (auto simp: block_ok_def)
    have tot: "0 + total_size (x @ ?b # y) \<le> kUsable c"
      using pool_rep_total [OF p] 1(1) by simp
    have "used_bytes (x @ ?b # y) + blk_size b = bytes_used p"
      using u 1(1,2) by simp
    then have "pool_rep c p' (merge_free (x @ ?b # y)) \<and> bytes_used p' + blk_size b = bytes_used p"
      using merge_free_facts [OF c ok' tot] merge_free_coalesced 1 pk by (simp add: pool_rep_def) linarith
    then show ?case using 1
      by (intro disjI1 exI [of _ x] exI [of _ b] exI [of _ y] exI [of _ p']) (simp add: deallocate_def)
  next
    case 2
    then show ?case by (simp add: deallocate_def)
  qed
qed

lemma deallocate_spec:
  assumes "wf_target c" and "pool_rep c p bs" and "(a, lo, hi) \<in> live c 0 bs"
  shows "\<exists>p' bs'. deallocate c (Some a) p = Some (p', []) \<and> pool_rep c p' bs' \<and>
    live c 0 bs' = live c 0 bs - {(a, lo, hi)} \<and> bytes_used p' + (hi - lo) = bytes_used p"
proof -
  from dealloc_cases [OF assms(1,2), of a] assms(3) obtain x b y p' where
    bs: "bs = x @ b # y" "bh_allocated b" and a: "a = storage_addr c + total_size x + unat (bh_payload b)"
    and d: "deallocate c (Some a) p = Some (p', [])"
    and p': "pool_rep c p' (merge_free (x @ b\<lparr>bh_allocated := False\<rparr> # y))"
      "bytes_used p' + blk_size b = bytes_used p" by blast
  let ?bs = "x @ b\<lparr>bh_allocated := False\<rparr> # y" and ?lo = "storage_addr c + total_size x"
  have ok: "\<forall>z \<in> set bs. block_ok c z" using assms(2) by (simp add: pool_rep_def)
  have "(a, ?lo, ?lo + blk_size b) \<in> live c 0 bs"
    unfolding bs(1) a by (rule live_mem [OF bs(2) refl])
  then have eq: "?lo = lo" "?lo + blk_size b = hi"
    using live_ptr_unique [OF assms(3) _ ok assms(1)] by blast+
  have ok': "\<forall>z \<in> set ?bs. block_ok c z" using ok bs by (auto simp: block_ok_def)
  have tot: "0 + total_size ?bs \<le> kUsable c" using pool_rep_total [OF assms(2)] bs by simp
  have "live c 0 (merge_free ?bs) = live c 0 ?bs"
    using merge_free_facts [OF assms(1) ok' tot] by blast
  also have "\<dots> = live c 0 bs - {(a, lo, hi)}"
    using live_clear [OF assms(1) ok [unfolded bs(1)] bs(2)] eq a by (simp add: bs(1))
  finally show ?thesis
    using d p' eq by (intro exI [of _ p'] exI [of _ "merge_free ?bs"]) (simp del: merge_free.simps)
qed

text \<open>C10. Freeing the address of a live allocation always returns, reports
  nothing, removes exactly that allocation from the live ones, gives back its bytes, and leaves
  the pool well formed: in particular no two adjacent blocks are free.\<close>

theorem deallocate_contract:
  assumes "wf_target c" and "pool_rep c p bs" and "(a, lo, hi) \<in> live c 0 bs"
  shows "\<exists>p' bs'. deallocate c (Some a) p = Some (p', []) \<and> pool_rep c p' bs' \<and>
    live c 0 bs' = live c 0 bs - {(a, lo, hi)} \<and> bytes_used p' + (hi - lo) = bytes_used p"
  by (rule deallocate_spec [OF assms])

text \<open>A double free or an address the pool never handed out is
  reported as \<open>internal_error\<close> and changes nothing.\<close>

theorem deallocate_foreign_pointer:
  assumes "wf_target c" and "pool_rep c p bs" and "\<forall>lo hi. (a, lo, hi) \<notin> live c 0 bs"
  shows "deallocate c (Some a) p = Some (p, [Internal_error])"
  using dealloc_cases [OF assms(1,2), of a]
proof (elim disjE exE conjE, goal_cases)
  case (1 x b y p')
  then show ?case using assms(3) live_mem [of b "total_size x" x c y] by blast
qed simp

text \<open>Once no allocation is live, the arena is a single free block of the
  whole usable capacity and no byte counts as used: nothing is lost to fragmentation.\<close>

lemma full_recovery:
  assumes "wf_target c" and "pool_rep c p bs" and "live c 0 bs = {}"
  shows "\<exists>b. bs = [b] \<and> \<not> bh_allocated b \<and> blk_size b = kUsable c \<and> headers p 0 = b \<and>
    bytes_used p = 0 \<and> bytes_free c p = kUsable c"
proof -
  have free: "live c off bs = {} \<Longrightarrow> \<forall>b \<in> set bs. \<not> bh_allocated b" for off
    by (induction bs arbitrary: off) (auto split: if_splits)
  have nf: "\<forall>b \<in> set bs. \<not> bh_allocated b" by (rule free [OF assms(3)])
  have "bs \<noteq> []" using pool_rep_total [OF assms(2)] kUsable_pos [OF assms(1)] by auto
  moreover have "coalesced bs" using assms(2) by (simp add: pool_rep_def)
  ultimately obtain b where bs: "bs = [b]" using nf by (cases bs rule: coalesced.cases) auto
  have W: "kUsable c < 2 ^ word_bits c"
    using assms(1) kUsable_le [of c] by (auto simp: wf_target_def)
  have "bytes_used p = 0" using pool_rep_used [OF assms(2)] bs nf by simp
  then show ?thesis
    using bs nf pool_rep_total [OF assms(2)] assms(2) W
    by (auto simp: pool_rep_def bytes_free_def sz_sub_eq)
qed

section \<open>The layout is determined by the live allocations\<close>

definition shape :: "block_header list \<Rightarrow> (nat \<times> bool) list" where
  "shape bs = map (\<lambda>b. (blk_size b, bh_allocated b)) bs"

lemma live_lo_ge:
  assumes "wf_target c" and "\<forall>b \<in> set bs. block_ok c b" and "t \<in> live c off bs"
  shows "storage_addr c + off \<le> fst (snd t) \<and> fst (snd t) < snd (snd t)"
proof -
  obtain a lo hi where t: "t = (a, lo, hi)" by (cases t)
  then show ?thesis
    using live_bounds [OF assms(3) [unfolded t] assms(2)] kHeader_bounds(4) [OF assms(1)] by simp
qed

lemma free_head_size:
  assumes c: "wf_target c"
    and b: "coalesced (b # bs)" "\<not> bh_allocated b" "\<forall>x \<in> set (b # bs). block_ok c x"
    and d: "coalesced (d # ds)" "\<not> bh_allocated d" "\<forall>x \<in> set (d # ds). block_ok c x"
    and l: "live c off (b # bs) = live c off (d # ds)" and t: "total_size (b # bs) = total_size (d # ds)"
  shows "blk_size d \<le> blk_size b"
proof (cases bs)
  case Nil
  then show ?thesis using t by simp
next
  case (Cons b2 bs2)
  then have a: "bh_allocated b2" using b by simp
  let ?t = "(storage_addr c + (off + blk_size b) + unat (bh_payload b2), storage_addr c + (off + blk_size b),
     storage_addr c + (off + blk_size b) + blk_size b2)"
  have "?t \<in> live c off (b # bs)" using Cons a b(2) by simp
  then have "?t \<in> live c off (d # ds)" by (simp only: l)
  then have "?t \<in> live c (off + blk_size d) ds" using d(2) by simp
  from live_lo_ge [OF c _ this] d(3) show ?thesis by simp
qed

lemma alloc_head_tail:
  assumes c: "wf_target c" and b: "bh_allocated b" "\<forall>x \<in> set (b # bs). block_ok c x"
  shows "live c (off + blk_size b) bs = {t \<in> live c off (b # bs). storage_addr c + off < fst (snd t)}"
proof -
  have "0 < blk_size b" using b block_pos [OF c] by simp
  then have "t \<in> live c (off + blk_size b) bs \<Longrightarrow> storage_addr c + off < fst (snd t)" for t
    using live_lo_ge [OF c _, of bs t "off + blk_size b"] b(2) by simp
  then show ?thesis using b(1) by auto
qed

lemma alloc_head_same:
  assumes c: "wf_target c" and b: "bh_allocated b" "\<forall>x \<in> set (b # bs). block_ok c x"
    and d: "\<forall>x \<in> set (d # ds). block_ok c x" and l: "live c off (b # bs) = live c off (d # ds)"
  shows "bh_allocated d \<and> blk_size d = blk_size b"
proof -
  have pos: "0 < blk_size d" using d block_pos [OF c] by simp
  let ?t = "(storage_addr c + off + unat (bh_payload b), storage_addr c + off, storage_addr c + off + blk_size b)"
  have "?t \<in> live c off (b # bs)" using b(1) by simp
  then have "?t \<in> live c off (d # ds)" by (simp only: l)
  moreover have "?t \<notin> live c (off + blk_size d) ds"
    using live_lo_ge [OF c _, of ds ?t "off + blk_size d"] d pos by auto
  ultimately show ?thesis by (auto split: if_splits)
qed

lemma shape_determined:
  "wf_target c \<Longrightarrow> coalesced bs \<Longrightarrow> coalesced ds \<Longrightarrow>
   \<forall>x \<in> set bs. block_ok c x \<Longrightarrow> \<forall>x \<in> set ds. block_ok c x \<Longrightarrow>
   total_size bs = total_size ds \<Longrightarrow> live c off bs = live c off ds \<Longrightarrow> shape bs = shape ds"
proof (induction bs arbitrary: ds off)
  case Nil
  have "ds = []"
  proof (cases ds)
    case (Cons d es)
    then show ?thesis using block_pos [OF Nil.prems(1), of d] Nil.prems(5,6) by simp
  qed
  then show ?case by simp
next
  case (Cons b bs)
  have "0 < total_size (b # bs)" using Cons.prems(1,4) block_pos [of c b] by simp
  then have "0 < total_size ds" by (simp only: Cons.prems(6))
  then have "ds \<noteq> []" by auto
  then obtain d es where ds: "ds = d # es" by (cases ds) auto
  have co1: "coalesced bs" using Cons.prems(2) by (cases bs) simp_all
  have co2: "coalesced es" using Cons.prems(3) unfolding ds by (cases es) simp_all
  note same1 = alloc_head_same [OF Cons.prems(1) _ Cons.prems(4), of d es off]
  note same2 = alloc_head_same [OF Cons.prems(1) _ Cons.prems(5) [unfolded ds], of b bs off]
  have head: "bh_allocated d = bh_allocated b" "blk_size d = blk_size b"
  proof -
    show a: "bh_allocated d = bh_allocated b"
      using same1 same2 Cons.prems(4,5,7) ds by blast
    show "blk_size d = blk_size b"
    proof (cases "bh_allocated b")
      case True
      then show ?thesis using same1 Cons.prems(5,7) ds by blast
    next
      case False
      show ?thesis
        using free_head_size [OF Cons.prems(1,2) False Cons.prems(4) _ _ _ Cons.prems(7) [unfolded ds]]
          free_head_size [OF Cons.prems(1) _ _ _ Cons.prems(2) False Cons.prems(4), of d es off]
          Cons.prems a False by (simp add: ds del: live.simps coalesced.simps)
    qed
  qed
  have "live c (off + blk_size b) bs = live c (off + blk_size b) es"
  proof (cases "bh_allocated b")
    case True
    have "live c (off + blk_size d) es = {t \<in> live c off (d # es). storage_addr c + off < fst (snd t)}"
      by (rule alloc_head_tail [OF Cons.prems(1)]) (use True head Cons.prems(5) ds in simp_all)
    moreover have "live c (off + blk_size b) bs = {t \<in> live c off (b # bs). storage_addr c + off < fst (snd t)}"
      by (rule alloc_head_tail [OF Cons.prems(1) True Cons.prems(4)])
    ultimately show ?thesis by (simp only: head(2) Cons.prems(7) ds)
  next
    case False
    then show ?thesis using Cons.prems(7) head by (simp add: ds)
  qed
  moreover have "total_size bs = total_size es" using Cons.prems(6) head(2) by (simp add: ds)
  ultimately have "shape bs = shape es"
    using Cons.IH [OF Cons.prems(1) co1 co2, of "off + blk_size b"] Cons.prems(4,5) ds by simp
  then show ?case using head by (simp add: shape_def ds)
qed

text \<open>Freeing what was just allocated brings back the layout.\<close>

lemma alloc_dealloc_restores:
  assumes "wf_target c" and "pool_rep c p bs" and "align < 2 ^ word_bits c"
    and "allocate c sz align p = Some (Some a, p1)"
  shows "\<exists>p2 bs2. deallocate c (Some a) p1 = Some (p2, []) \<and> pool_rep c p2 bs2 \<and>
    shape bs2 = shape bs \<and> live c 0 bs2 = live c 0 bs \<and> bytes_used p2 = bytes_used p"
proof -
  have "is_power_of_two c (effective_align c align)"
    using assms(4) by (auto simp: allocate_def Let_def effective_align_def split: if_splits)
  moreover have "effective_align c align < 2 ^ word_bits c"
    using assms(3) kAlign_pow2 [OF assms(1)] by (auto simp: effective_align_def)
  ultimately obtain j where j: "effective_align c align = 2 ^ j" "j < word_bits c"
    by (auto simp: is_power_of_two_iff)
  obtain bs1 where s: "alloc_spec c sz (effective_align c align) 0 bs = Some (a, bs1)"
    and p1: "tiles (headers p1) 0 bs1 (kUsable c)" "bytes_used p1 = used_bytes bs1"
      "peak_bytes_used p1 = max (peak_bytes_used p) (bytes_used p1)"
    using allocate_walk [OF assms(1,2) j, of sz] assms(4) by (auto split: option.splits)
  note rep = pool_rep_alloc [OF assms(1,2) j s p1]
  from rep(2) obtain lo hi where l: "live c 0 bs1 = insert (a, lo, hi) (live c 0 bs)"
    "a mod effective_align c align = 0" "a + sz \<le> hi" "(a, lo, hi) \<notin> live c 0 bs"
    by (elim exE conjE) (rule that)
  have "(a, lo, hi) \<in> live c 0 bs1" by (simp only: l(1) insertI1)
  from deallocate_spec [OF assms(1) rep(1) this] obtain p2 bs2 where
    d: "deallocate c (Some a) p1 = Some (p2, [])" "pool_rep c p2 bs2"
      "live c 0 bs2 = live c 0 bs1 - {(a, lo, hi)}" "bytes_used p2 + (hi - lo) = bytes_used p1"
    by (elim exE conjE) (rule that)
  have live: "live c 0 bs2 = live c 0 bs" unfolding d(3) l(1) using l(4) by simp
  have shape: "shape bs2 = shape bs"
    using d(2) assms(2) pool_rep_total [OF d(2)] pool_rep_total [OF assms(2)] live
    by (intro shape_determined [OF assms(1), of bs2 bs 0]) (auto simp: pool_rep_def)
  have used: "used_bytes xs = sum_list (map fst (filter snd (shape xs)))" for xs
    by (induction xs) (simp_all add: shape_def)
  have "bytes_used p2 = bytes_used p"
    using pool_rep_used [OF d(2)] pool_rep_used [OF assms(2)] used [of bs] used [of bs2] shape by simp
  then show ?thesis using d(1,2) shape live by (intro exI [of _ p2] exI [of _ bs2]) simp
qed

text \<open>C27. Allocating and freeing right away restores the pool: the same
  sequence of block sizes and flags, the same live allocations, the same count of used bytes.
  The layout carries no trace of the order of past allocations.\<close>

theorem alloc_dealloc_roundtrip:
  assumes "wf_target c" and "pool_rep c p bs" and "align < 2 ^ word_bits c"
    and "allocate c sz align p = Some (Some a, p1)"
  shows "\<exists>p2 bs2. deallocate c (Some a) p1 = Some (p2, []) \<and> pool_rep c p2 bs2 \<and>
    shape bs2 = shape bs \<and> live c 0 bs2 = live c 0 bs \<and> bytes_used p2 = bytes_used p"
  by (rule alloc_dealloc_restores [OF assms])

section \<open>The initial pool\<close>

text \<open>The constructor makes the arena one free block of the whole usable
  capacity, whatever the storage held before: the pool is well formed, nothing is live, no byte
  counts as used and no failure is counted.\<close>

theorem pool_starts_whole:
  assumes "wf_target c"
  shows "\<exists>b. pool_rep c (pool_init c junk) [b] \<and> \<not> bh_allocated b \<and> blk_size b = kUsable c \<and>
    live c 0 [b] = {} \<and> bytes_free c (pool_init c junk) = kUsable c \<and>
    allocation_failures (pool_init c junk) = 0"
proof -
  let ?b = "mk_header (kUsable c) (kHeader c) False"
  have u: "kUsable c < 2 ^ 32" "kHeader c \<le> kUsable c" "kUsable c mod kAlign c = 0"
    "kUsable c < 2 ^ word_bits c"
  proof -
    show lt: "kUsable c < 2 ^ 32" using assms by (simp add: wf_target_def)
    have "(2 :: nat) ^ 32 \<le> 2 ^ word_bits c"
      using assms unfolding wf_target_def by (intro power_increasing) simp_all
    with lt show "kUsable c < 2 ^ word_bits c" by (rule less_le_trans)
    have "0 < kAlign c" using kAlign_pow2 [OF assms] by auto
    then have "pool_bytes c mod kAlign c < kAlign c" by (rule mod_less_divisor)
    moreover have "kHeader c + kAlign c \<le> pool_bytes c" using assms by (simp add: wf_target_def)
    ultimately show "kHeader c \<le> kUsable c" unfolding kUsable_def by linarith
    show "kUsable c mod kAlign c = 0" by (simp add: kUsable_def minus_mod_eq_mult_div)
  qed
  have sz: "blk_size ?b = kUsable c" using u(1) by (simp add: mk_header_def unat_of_nat)
  have na: "\<not> bh_allocated ?b" by (simp add: mk_header_def)
  have "pool_rep c (pool_init c junk) [?b]"
    using u sz na by (simp add: pool_rep_def pool_init_def pool_reset_def block_ok_def used_bytes_def)
  moreover have "live c 0 [?b] = {}" using na by (simp add: live_free)
  moreover have "bytes_free c (pool_init c junk) = kUsable c"
    using u(4) by (simp add: bytes_free_def pool_init_def pool_reset_def sz_sub_eq)
  ultimately show ?thesis using sz na
    by (intro exI [of _ ?b]) (simp add: pool_init_def pool_reset_def)
qed

end
