(* ===== verification/Task.thy ===== *)
theory Task
  imports Frame_Pool_Props
begin

text \<open>
  \<open>task.h\<close>: \<open>Task<void>\<close>, its promise's allocation functions and \<open>TaskAwaiter\<close>.
  A \<open>Task\<close> object is named by a number (its address); \<open>tasks\<close> maps it to its
  \<open>handle_\<close>, the address of the frame it owns. Destroying a frame runs compiler-generated
  code and the destructors of user objects in it, which may reenter any \<open>Task\<close>: it is the
  argument \<open>destroy\<close> of the operations, an arbitrary transformer of the whole state, and
  the order in which the operations update the objects around the call is kept.
  The address of a coroutine handle is the address \<open>operator new\<close> returned for its frame.
\<close>

section \<open>The state shared by all components\<close>

record core =
  hook_log :: "error list"           \<comment> \<open>the calls of \<open>SIMPLEAWAIT_ON_ERROR\<close>\<close>
  tasks :: "nat \<Rightarrow> nat option"        \<comment> \<open>the \<open>Task<void>\<close> objects\<close>
  fpool :: pool                      \<comment> \<open>\<open>detail::frame_pool()\<close>, global\_frame\_pool.h\<close>

definition on_error :: "error \<Rightarrow> 'a core_scheme \<Rightarrow> 'a core_scheme" where
  "on_error e s = s\<lparr>hook_log := hook_log s @ [e]\<rparr>"

definition set_task :: "nat \<Rightarrow> nat option \<Rightarrow> 'a core_scheme \<Rightarrow> 'a core_scheme" where
  "set_task t h s = s\<lparr>tasks := (tasks s)(t := h)\<rparr>"

lemma core_fields [simp]:
  "hook_log (on_error e s) = hook_log s @ [e]" "tasks (on_error e s) = tasks s"
  "fpool (on_error e s) = fpool s" "core.more (on_error e s) = core.more s"
  "hook_log (set_task t h s) = hook_log s" "tasks (set_task t h s) = (tasks s)(t := h)"
  "fpool (set_task t h s) = fpool s" "core.more (set_task t h s) = core.more s"
  by (simp_all add: on_error_def set_task_def)

section \<open>Task objects\<close>

definition task_bool :: "nat \<Rightarrow> 'a core_scheme \<Rightarrow> bool" where
  "task_bool t s \<longleftrightarrow> tasks s t \<noteq> None"

definition task_default :: "nat \<Rightarrow> 'a core_scheme \<Rightarrow> 'a core_scheme" where
  "task_default t s = set_task t None s"

text \<open>\<open>Task(Task&& other)\<close>: \<open>t\<close> is the object being constructed.\<close>

definition task_move :: "nat \<Rightarrow> nat \<Rightarrow> 'a core_scheme \<Rightarrow> 'a core_scheme" where
  "task_move t other s = (let s1 = set_task t (tasks s other) s in set_task other None s1)"

definition task_assign ::
    "(nat \<Rightarrow> 'a core_scheme \<Rightarrow> 'a core_scheme) \<Rightarrow> nat \<Rightarrow> nat \<Rightarrow> 'a core_scheme \<Rightarrow> 'a core_scheme" where
  "task_assign destroy this other s =
     (if this \<noteq> other then
        let previous = tasks s this;
            s1 = set_task this (tasks s other) s;
            s2 = set_task other None s1
        in (case previous of None \<Rightarrow> s2 | Some h \<Rightarrow> destroy h s2)
      else s)"

definition task_reset ::
    "(nat \<Rightarrow> 'a core_scheme \<Rightarrow> 'a core_scheme) \<Rightarrow> nat \<Rightarrow> 'a core_scheme \<Rightarrow> 'a core_scheme" where
  "task_reset destroy this s =
     (case tasks s this of
        None \<Rightarrow> s
      | Some h \<Rightarrow> let s1 = set_task this None s in destroy h s1)"

text \<open>\<open>~Task()\<close>.\<close>

definition task_destructor ::
    "(nat \<Rightarrow> 'a core_scheme \<Rightarrow> 'a core_scheme) \<Rightarrow> nat \<Rightarrow> 'a core_scheme \<Rightarrow> 'a core_scheme" where
  "task_destructor destroy this s = task_reset destroy this s"

definition take_frame :: "nat \<Rightarrow> 'a core_scheme \<Rightarrow> nat option \<times> 'a core_scheme" where
  "take_frame t s = (let frame = tasks s t; s1 = set_task t None s in (frame, s1))"

section \<open>Awaiting a task\<close>

record task_awaiter =
  aw_child :: "nat option"
  aw_was_empty :: bool

definition awaiter_make :: "nat option \<Rightarrow> task_awaiter" where
  "awaiter_make child = \<lparr>aw_child = child, aw_was_empty = (child = None)\<rparr>"

text \<open>\<open>TaskAwaiter(TaskAwaiter&&)\<close>: the new awaiter and the moved-from one.\<close>

definition awaiter_move :: "task_awaiter \<Rightarrow> task_awaiter \<times> task_awaiter" where
  "awaiter_move other = (other, other\<lparr>aw_child := None\<rparr>)"

definition awaiter_destructor ::
    "(nat \<Rightarrow> 'a core_scheme \<Rightarrow> 'a core_scheme) \<Rightarrow> task_awaiter \<Rightarrow> 'a core_scheme \<Rightarrow> 'a core_scheme" where
  "awaiter_destructor destroy a s = (case aw_child a of None \<Rightarrow> s | Some h \<Rightarrow> destroy h s)"

definition task_co_await :: "nat \<Rightarrow> 'a core_scheme \<Rightarrow> task_awaiter \<times> 'a core_scheme" where
  "task_co_await this s =
     (let child = tasks s this; s1 = set_task this None s in (awaiter_make child, s1))"

definition awaiter_ready :: "task_awaiter \<Rightarrow> bool" where
  "awaiter_ready a = aw_was_empty a"

text \<open>\<open>await_suspend\<close>; \<open>start_child\<close> is the scheduler's entry point.\<close>

definition awaiter_suspend ::
    "(nat option \<Rightarrow> nat option \<Rightarrow> 'a core_scheme \<Rightarrow> bool \<times> 'a core_scheme) \<Rightarrow> nat option \<Rightarrow>
     task_awaiter \<Rightarrow> 'a core_scheme \<Rightarrow> bool \<times> task_awaiter \<times> 'a core_scheme" where
  "awaiter_suspend start_child awaiting a s =
     (let child = aw_child a;
          a1 = a\<lparr>aw_child := None\<rparr>
      in case start_child child awaiting s of (suspend, s1) \<Rightarrow> (suspend, a1, s1))"

definition awaiter_resume :: "task_awaiter \<Rightarrow> 'a core_scheme \<Rightarrow> 'a core_scheme" where
  "awaiter_resume a s = (if aw_was_empty a then on_error Task_awaited_twice s else s)"

section \<open>Frames come from the pool\<close>

definition frame_alloc :: "target \<Rightarrow> nat \<Rightarrow> 'a core_scheme \<Rightarrow> (nat option \<times> 'a core_scheme) option" where
  "frame_alloc c sz s =
     (case allocate c sz (kAlign c) (fpool s) of
        None \<Rightarrow> None
      | Some (p, pool') \<Rightarrow>
          let s1 = s\<lparr>fpool := pool'\<rparr>
          in Some (p, if p = None then on_error Frame_pool_exhausted s1 else s1))"

definition frame_delete :: "target \<Rightarrow> nat option \<Rightarrow> 'a core_scheme \<Rightarrow> 'a core_scheme option" where
  "frame_delete c p s =
     (case deallocate c p (fpool s) of
        None \<Rightarrow> None
      | Some (pool', es) \<Rightarrow> Some (s\<lparr>fpool := pool', hook_log := hook_log s @ es\<rparr>))"

definition unhandled_exception :: "'a core_scheme \<Rightarrow> 'a core_scheme" where
  "unhandled_exception s = on_error Unhandled_exception s"

text \<open>
  Calling a coroutine function whose frame needs \<open>sz\<close> bytes, with the returned \<open>Task\<close>
  constructed at \<open>t\<close>: \<open>get_return_object\<close> on success,
  \<open>get_return_object_on_allocation_failure\<close> when the pool is exhausted.
\<close>

definition coroutine_call :: "target \<Rightarrow> nat \<Rightarrow> nat \<Rightarrow> 'a core_scheme \<Rightarrow> 'a core_scheme option" where
  "coroutine_call c sz t s =
     (case frame_alloc c sz s of
        None \<Rightarrow> None
      | Some (p, s1) \<Rightarrow> Some (case p of None \<Rightarrow> task_default t s1 | Some h \<Rightarrow> set_task t (Some h) s1))"

section \<open>Ownership\<close>

text \<open>No frame is owned by two \<open>Task\<close> objects.\<close>

definition sole_owners :: "'a core_scheme \<Rightarrow> bool" where
  "sole_owners s \<longleftrightarrow> (\<forall>t t' h. tasks s t = Some h \<and> tasks s t' = Some h \<longrightarrow> t = t')"

definition owned :: "'a core_scheme \<Rightarrow> nat set" where
  "owned s = {h. \<exists>t. tasks s t = Some h}"

lemma sole_owners_release: "sole_owners s \<Longrightarrow> sole_owners (set_task t None s)"
  by (auto simp: sole_owners_def)

lemma release_not_owned: "sole_owners s \<Longrightarrow> tasks s t = Some h \<Longrightarrow> h \<notin> owned (set_task t None s)"
  by (auto simp: sole_owners_def owned_def)

lemma sole_owners_transfer:
  "sole_owners s \<Longrightarrow> sole_owners (set_task other None (set_task t (tasks s other) s))"
  by (auto simp: sole_owners_def split: if_splits)

text \<open>C16. Move assignment between distinct tasks hands the source's frame
  over, empties the source, and destroys the frame owned before exactly when there was one,
  in a state where no \<open>Task\<close> object owns it any more, so code run by its destruction cannot
  destroy it a second time. Frames never become shared.\<close>

theorem task_assign_ownership:
  assumes "sole_owners s" and "this \<noteq> other"
  shows "\<exists>s2. task_assign destroy this other s =
      (case tasks s this of None \<Rightarrow> s2 | Some h \<Rightarrow> destroy h s2) \<and>
    tasks s2 this = tasks s other \<and> tasks s2 other = None \<and> sole_owners s2 \<and>
    (\<forall>h. tasks s this = Some h \<longrightarrow> h \<notin> owned s2) \<and>
    owned s2 = owned s - {h. tasks s this = Some h}"
proof -
  let ?s2 = "set_task other None (set_task this (tasks s other) s)"
  have "task_assign destroy this other s = (case tasks s this of None \<Rightarrow> ?s2 | Some h \<Rightarrow> destroy h ?s2)"
    using assms(2) by (simp add: task_assign_def Let_def)
  moreover have "sole_owners ?s2" by (rule sole_owners_transfer [OF assms(1)])
  moreover have "owned ?s2 = owned s - {h. tasks s this = Some h}"
  proof (rule set_eqI)
    fix h
    have "tasks ?s2 (if t = other then this else t) = Some h"
      if "tasks s t = Some h" "tasks s this \<noteq> Some h" for t
      using that assms(2) by auto
    then show "h \<in> owned ?s2 \<longleftrightarrow> h \<in> owned s - {h. tasks s this = Some h}"
      using assms by (auto simp: owned_def sole_owners_def simp del: core_fields split: if_splits)
        (auto simp: sole_owners_def split: if_splits)
  qed
  ultimately show ?thesis using assms(2) by (intro exI [of _ ?s2]) auto
qed

text \<open>Destroying a task that owns a frame destroys that frame in a state
  where the task is already empty and no task owns the frame: a reset or a destructor of the
  same task reentered from the frame's destruction finds nothing to destroy.\<close>

theorem task_destroyed_once:
  assumes "sole_owners s" and "tasks s t = Some h"
  shows "\<exists>s1. task_destructor destroy t s = destroy h s1 \<and> tasks s1 = (tasks s)(t := None) \<and>
    h \<notin> owned s1 \<and> task_reset destroy' t s1 = s1 \<and> task_destructor destroy' t s1 = s1"
  using assms release_not_owned [OF assms]
  by (intro exI [of _ "set_task t None s"]) (simp add: task_destructor_def task_reset_def Let_def)

section \<open>Frames and the pool\<close>

text \<open>Every task's frame is a live allocation of the pool.\<close>

definition frames_live :: "target \<Rightarrow> block_header list \<Rightarrow> 'a core_scheme \<Rightarrow> bool" where
  "frames_live c bs s \<longleftrightarrow> (\<forall>t h. tasks s t = Some h \<longrightarrow> (\<exists>lo hi. (h, lo, hi) \<in> live c 0 bs))"

lemma align_fits: "wf_target c \<Longrightarrow> kAlign c < 2 ^ word_bits c"
  using kAlign_pow2 [of c] by auto

text \<open>C28. Calling a coroutine function always returns. Either the new
  \<open>Task\<close> owns a frame that is a fresh live allocation of the pool, big enough and aligned,
  and nothing is reported; or the pool is unchanged, the \<open>Task\<close> is empty and
  \<open>frame_pool_exhausted\<close> is reported once. No other \<open>Task\<close> changes, frames stay live
  and no frame gets a second owner.\<close>

theorem coroutine_call_contract:
  assumes "wf_target c" and "pool_rep c (fpool s) bs" and "tasks s t = None"
    and "sole_owners s" and "frames_live c bs s"
  shows "\<exists>s' bs'. coroutine_call c sz t s = Some s' \<and> pool_rep c (fpool s') bs' \<and>
    sole_owners s' \<and> frames_live c bs' s' \<and> (\<forall>u. u \<noteq> t \<longrightarrow> tasks s' u = tasks s u) \<and>
    (case tasks s' t of
       None \<Rightarrow> bs' = bs \<and> hook_log s' = hook_log s @ [Frame_pool_exhausted]
     | Some h \<Rightarrow> hook_log s' = hook_log s \<and> h mod kAlign c = 0 \<and> h \<notin> owned s \<and>
         (\<exists>lo hi. live c 0 bs' = insert (h, lo, hi) (live c 0 bs) \<and> lo + kHeader c \<le> h \<and> h + sz \<le> hi))"
proof -
  have ea: "effective_align c (kAlign c) = kAlign c" by (simp add: effective_align_def)
  from allocate_spec [OF assms(1,2) align_fits [OF assms(1)], of sz, unfolded ea]
  obtain r p' bs' where a: "allocate c sz (kAlign c) (fpool s) = Some (r, p')" and rep: "pool_rep c p' bs'"
    and r: "case r of None \<Rightarrow> bs' = bs \<and> p' = count_failure c (fpool s)
      | Some a \<Rightarrow> \<exists>lo hi. live c 0 bs' = insert (a, lo, hi) (live c 0 bs) \<and>
         a mod kAlign c = 0 \<and> lo + kHeader c \<le> a \<and> a + sz \<le> hi \<and>
         storage_addr c \<le> lo \<and> hi \<le> storage_addr c + kUsable c \<and>
         (\<forall>(a', lo', hi') \<in> live c 0 bs. hi \<le> lo' \<or> hi' \<le> lo)"
    by (elim exE conjE) (rule that)
  show ?thesis
  proof (cases r)
    case None
    let ?s = "task_default t (on_error Frame_pool_exhausted (s\<lparr>fpool := p'\<rparr>))"
    have "coroutine_call c sz t s = Some ?s"
      using a None by (simp add: coroutine_call_def frame_alloc_def)
    moreover have "tasks ?s = tasks s" using assms(3) by (auto simp: task_default_def fun_eq_iff)
    ultimately show ?thesis
      using None r rep assms(3-5)
      by (intro exI [of _ ?s] exI [of _ bs]) (simp add: sole_owners_def frames_live_def task_default_def)
  next
    case (Some h)
    let ?s = "set_task t (Some h) (s\<lparr>fpool := p'\<rparr>)"
    obtain lo hi where h: "live c 0 bs' = insert (h, lo, hi) (live c 0 bs)" "h mod kAlign c = 0"
      "lo + kHeader c \<le> h" "h + sz \<le> hi" "\<forall>(a', lo', hi') \<in> live c 0 bs. hi \<le> lo' \<or> hi' \<le> lo"
      using r Some by auto
    have call: "coroutine_call c sz t s = Some ?s"
      using a Some by (simp add: coroutine_call_def frame_alloc_def)
    have fresh: "h \<notin> owned s"
    proof
      assume "h \<in> owned s"
      then obtain u where "tasks s u = Some h" by (auto simp: owned_def)
      with assms(5) have "\<exists>lo hi. (h, lo, hi) \<in> live c 0 bs" by (simp add: frames_live_def)
      then obtain lo' hi' where l: "(h, lo', hi') \<in> live c 0 bs" by (elim exE) (rule that)
      then have d: "hi \<le> lo' \<or> hi' \<le> lo" using h(5) by auto
      have ok: "\<forall>b \<in> set bs. block_ok c b" using assms(2) by (simp add: pool_rep_def)
      from live_bounds [OF l ok] have "lo' + kHeader c \<le> h" "h \<le> hi'" by auto
      with d h(3,4) kHeader_bounds(4) [OF assms(1)] show False by auto
    qed
    have "sole_owners ?s" using assms(4) fresh by (auto simp: sole_owners_def owned_def)
    moreover have "frames_live c bs' ?s"
      unfolding frames_live_def
    proof (intro allI impI)
      fix u g assume u: "tasks ?s u = Some g"
      show "\<exists>lo hi. (g, lo, hi) \<in> live c 0 bs'"
      proof (cases "u = t")
        case True
        with u have "(g, lo, hi) \<in> live c 0 bs'" by (simp add: h(1))
        then show ?thesis by blast
      next
        case False
        with u assms(5) have "\<exists>lo hi. (g, lo, hi) \<in> live c 0 bs" by (simp add: frames_live_def)
        then show ?thesis unfolding h(1) by blast
      qed
    qed
    ultimately show ?thesis
      using call rep h fresh by (intro exI [of _ ?s] exI [of _ bs']) auto
  qed
qed

text \<open>C29. \<open>co_await\<close> of a \<open>Task\<close> moves its frame into the awaiter;
  suspending hands that frame to the scheduler, after which neither the awaiter's destructor nor
  a second \<open>co_await\<close> can touch it: the second one neither suspends nor starts anything and
  reports \<open>task_awaited_twice\<close>. An awaiter that never suspends destroys the frame itself.\<close>

theorem awaiter_hands_over_once:
  assumes "tasks s t = Some h"
  shows "\<exists>a s1. task_co_await t s = (a, s1) \<and> tasks s1 = (tasks s)(t := None) \<and>
    \<not> awaiter_ready a \<and> awaiter_destructor destroy a s1 = destroy h s1 \<and>
    (case awaiter_suspend start_child awaiting a s1 of (b, a', s2) \<Rightarrow>
       (b, s2) = start_child (Some h) awaiting s1 \<and> awaiter_destructor destroy a' s2 = s2 \<and>
       awaiter_resume a' s2 = s2) \<and>
    (case task_co_await t s1 of (a2, s3) \<Rightarrow> s3 = s1 \<and> awaiter_ready a2 \<and>
       awaiter_resume a2 s3 = on_error Task_awaited_twice s3 \<and> awaiter_destructor destroy a2 s3 = s3)"
proof -
  let ?s1 = "set_task t None s"
  have "set_task t None ?s1 = ?s1" by (simp add: set_task_def)
  then show ?thesis
    using assms
    by (simp add: task_co_await_def awaiter_make_def awaiter_ready_def awaiter_destructor_def
        awaiter_suspend_def awaiter_resume_def Let_def split: prod.split)
qed

end
