(* ===== verification/Scheduler_State.thy ===== *)
theory Scheduler_State
  imports Intrusive_List Time_Math Task
begin

text \<open>
  The state of \<open>class Scheduler\<close> (scheduler.h), its ready FIFO and the \<open>WaitQueue\<close> that
  shares the slots' \<open>next\<close> link. A \<open>Slot*\<close> is the index of the slot, \<open>nullptr\<close> is
  \<open>None\<close>, a coroutine handle is the address of its frame. The slots are a function of the
  index of which the scheduler uses the indices below \<open>max_tasks\<close>
  (\<open>SIMPLEAWAIT_MAX_TASKS\<close>). The diagnostics counter \<open>peak_count_\<close> is compiled in.
  Every operation works on any extension of the record \<open>sched\<close>, so the theories of the
  synchronisation objects add their own state to it.
\<close>

section \<open>Slots and scheduler fields\<close>

datatype task_state =
  Free | Ready | Running | Waiting_timer | Waiting_child | Waiting_local | Suspended | Completed

record slot =
  handle :: "nat option"
  next_link :: "nat option"
  parent :: "nat option"
  deadline_us :: tick_t
  generation :: "32 word"
  state :: task_state

record sched = core +
  max_tasks :: nat
  slots :: "nat \<Rightarrow> slot"
  ready_head :: "nat option"
  ready_tail :: "nat option"
  ready_count :: nat
  active_count :: nat
  peak_count :: nat
  current :: "nat option"
  in_poll :: bool
  shutting_down :: bool
  now_us :: tick_t
  nearest_deadline :: tick_t

record task_id =
  tid_slot :: "16 word"
  tid_generation :: "32 word"

text \<open>\<open>TaskHandle\<close>: whether its scheduler pointer is set, and its identity.\<close>

record task_handle =
  h_sched :: bool
  h_id :: task_id

definition invalid_handle :: task_handle where
  "invalid_handle = \<lparr>h_sched = False, h_id = \<lparr>tid_slot = 0, tid_generation = 0\<rparr>\<rparr>"

definition slot_init :: slot where
  "slot_init = \<lparr>handle = None, next_link = None, parent = None, deadline_us = 0,
     generation = 0, state = Free\<rparr>"

text \<open>The default member initialisers of a scheduler with \<open>n\<close> slots.\<close>

definition sched_init :: "pool \<Rightarrow> nat \<Rightarrow> sched" where
  "sched_init pl n = \<lparr>hook_log = [], tasks = (\<lambda>_. None), fpool = pl, max_tasks = n, slots = (\<lambda>_. slot_init), ready_head = None, ready_tail = None,
     ready_count = 0, active_count = 0, peak_count = 0, current = None, in_poll = False,
     shutting_down = False, now_us = 0, nearest_deadline = - 1\<rparr>"

definition upd_slot :: "nat \<Rightarrow> (slot \<Rightarrow> slot) \<Rightarrow> 'a sched_scheme \<Rightarrow> 'a sched_scheme" where
  "upd_slot i f s = s\<lparr>slots := (slots s)(i := f (slots s i))\<rparr>"

abbreviation "set_handle i x \<equiv> upd_slot i (handle_update (\<lambda>_. x))"
abbreviation "set_next i x \<equiv> upd_slot i (next_link_update (\<lambda>_. x))"
abbreviation "set_parent i x \<equiv> upd_slot i (parent_update (\<lambda>_. x))"
abbreviation "set_deadline i x \<equiv> upd_slot i (deadline_us_update (\<lambda>_. x))"
abbreviation "set_generation i x \<equiv> upd_slot i (generation_update (\<lambda>_. x))"
abbreviation "set_state i x \<equiv> upd_slot i (state_update (\<lambda>_. x))"


text \<open>\<open>index_of\<close>: the slot index narrowed to \<open>TaskSlot\<close> (uint16_t).\<close>

definition index_of :: "nat \<Rightarrow> 16 word" where
  "index_of i = of_nat i"

lemma slots_upd_slot [simp]: "slots (upd_slot i f s) = (slots s)(i := f (slots s i))"
  by (simp add: upd_slot_def)

lemma upd_slot_fields [simp]:
  "max_tasks (upd_slot i f s) = max_tasks s"
  "ready_head (upd_slot i f s) = ready_head s"
  "ready_tail (upd_slot i f s) = ready_tail s"
  "ready_count (upd_slot i f s) = ready_count s"
  "active_count (upd_slot i f s) = active_count s"
  "peak_count (upd_slot i f s) = peak_count s"
  "current (upd_slot i f s) = current s"
  "in_poll (upd_slot i f s) = in_poll s"
  "shutting_down (upd_slot i f s) = shutting_down s"
  "now_us (upd_slot i f s) = now_us s"
  "nearest_deadline (upd_slot i f s) = nearest_deadline s"
  "hook_log (upd_slot i f s) = hook_log s"
  "tasks (upd_slot i f s) = tasks s"
  "fpool (upd_slot i f s) = fpool s"
  "sched.more (upd_slot i f s) = sched.more s"
  by (simp_all add: upd_slot_def)

lemma on_error_fields [simp]:
  "slots (on_error e s) = slots s"
  "max_tasks (on_error e s) = max_tasks s"
  "ready_head (on_error e s) = ready_head s"
  "ready_tail (on_error e s) = ready_tail s"
  "ready_count (on_error e s) = ready_count s"
  "active_count (on_error e s) = active_count s"
  "peak_count (on_error e s) = peak_count s"
  "current (on_error e s) = current s"
  "in_poll (on_error e s) = in_poll s"
  "shutting_down (on_error e s) = shutting_down s"
  "now_us (on_error e s) = now_us s"
  "nearest_deadline (on_error e s) = nearest_deadline s"
  "sched.more (on_error e s) = sched.more s"
  by (simp_all add: on_error_def)

lemma set_task_fields [simp]:
  "slots (set_task t h s) = slots s"
  "max_tasks (set_task t h s) = max_tasks s"
  "ready_head (set_task t h s) = ready_head s"
  "ready_tail (set_task t h s) = ready_tail s"
  "ready_count (set_task t h s) = ready_count s"
  "active_count (set_task t h s) = active_count s"
  "peak_count (set_task t h s) = peak_count s"
  "current (set_task t h s) = current s"
  "in_poll (set_task t h s) = in_poll s"
  "shutting_down (set_task t h s) = shutting_down s"
  "now_us (set_task t h s) = now_us s"
  "nearest_deadline (set_task t h s) = nearest_deadline s"
  "sched.more (set_task t h s) = sched.more s"
  by (simp_all add: set_task_def)

section \<open>Views of the slot fields\<close>

text \<open>One function of the slot index per field: the form in which invariants speak of slots.\<close>

definition handles :: "(nat \<Rightarrow> slot) \<Rightarrow> nat \<Rightarrow> nat option" where
  "handles f i = handle (f i)"

definition nexts :: "(nat \<Rightarrow> slot) \<Rightarrow> nat \<Rightarrow> nat option" where
  "nexts f i = next_link (f i)"

definition parents :: "(nat \<Rightarrow> slot) \<Rightarrow> nat \<Rightarrow> nat option" where
  "parents f i = parent (f i)"

definition deadlines :: "(nat \<Rightarrow> slot) \<Rightarrow> nat \<Rightarrow> tick_t" where
  "deadlines f i = deadline_us (f i)"

definition gens :: "(nat \<Rightarrow> slot) \<Rightarrow> nat \<Rightarrow> 32 word" where
  "gens f i = generation (f i)"

definition states :: "(nat \<Rightarrow> slot) \<Rightarrow> nat \<Rightarrow> task_state" where
  "states f i = state (f i)"

lemmas view_defs = handles_def nexts_def parents_def deadlines_def gens_def states_def

abbreviation "handle_of s \<equiv> handles (slots s)"
abbreviation "next_of s \<equiv> nexts (slots s)"
abbreviation "parent_of s \<equiv> parents (slots s)"
abbreviation "deadline_of s \<equiv> deadlines (slots s)"
abbreviation "gen_of s \<equiv> gens (slots s)"
abbreviation "st_of s \<equiv> states (slots s)"

lemma fold_views [simp]:
  "handle (slots s i) = handle_of s i"
  "next_link (slots s i) = next_of s i"
  "parent (slots s i) = parent_of s i"
  "deadline_us (slots s i) = deadline_of s i"
  "generation (slots s i) = gen_of s i"
  "state (slots s i) = st_of s i"
  by (simp_all add: view_defs)

lemma views_upd [simp]:
  "handles (f(i := x)) = (handles f)(i := handle x)"
  "nexts (f(i := x)) = (nexts f)(i := next_link x)"
  "parents (f(i := x)) = (parents f)(i := parent x)"
  "deadlines (f(i := x)) = (deadlines f)(i := deadline_us x)"
  "gens (f(i := x)) = (gens f)(i := generation x)"
  "states (f(i := x)) = (states f)(i := state x)"
  by (simp_all add: fun_eq_iff view_defs)

section \<open>The ready FIFO\<close>

definition ready_push :: "nat \<Rightarrow> 'a sched_scheme \<Rightarrow> 'a sched_scheme" where
  "ready_push i s =
     (let s1 = set_next i None s;
          s2 = (case ready_tail s1 of
                  None \<Rightarrow> s1\<lparr>ready_head := Some i\<rparr>
                | Some t \<Rightarrow> set_next t (Some i) s1);
          s3 = s2\<lparr>ready_tail := Some i\<rparr>
      in s3\<lparr>ready_count := ready_count s3 + 1\<rparr>)"

definition ready_pop :: "'a sched_scheme \<Rightarrow> nat option \<times> 'a sched_scheme" where
  "ready_pop s =
     (case ready_head s of
        None \<Rightarrow> (None, s)
      | Some i \<Rightarrow>
          let s1 = s\<lparr>ready_head := next_link (slots s i)\<rparr>;
              s2 = (if ready_head s1 = None then s1\<lparr>ready_tail := None\<rparr> else s1);
              s3 = set_next i None s2
          in (Some i, s3\<lparr>ready_count := ready_count s3 - 1\<rparr>))"

lemma ready_push_views [simp]:
  "handle_of (ready_push i s) = handle_of s"
  "parent_of (ready_push i s) = parent_of s"
  "deadline_of (ready_push i s) = deadline_of s"
  "gen_of (ready_push i s) = gen_of s"
  "st_of (ready_push i s) = st_of s"
  by (auto simp: ready_push_def Let_def fun_eq_iff split: option.split)

lemma ready_push_next:
  "next_of (ready_push i s) = (case ready_tail s of
     None \<Rightarrow> (next_of s)(i := None) | Some l \<Rightarrow> (next_of s)(i := None, l := Some i))"
  by (auto simp: ready_push_def Let_def split: option.split)

lemma ready_push_fields [simp]:
  "max_tasks (ready_push i s) = max_tasks s"
  "ready_head (ready_push i s) = (if ready_tail s = None then Some i else ready_head s)"
  "ready_tail (ready_push i s) = Some i"
  "ready_count (ready_push i s) = ready_count s + 1"
  "active_count (ready_push i s) = active_count s"
  "peak_count (ready_push i s) = peak_count s"
  "current (ready_push i s) = current s"
  "in_poll (ready_push i s) = in_poll s"
  "shutting_down (ready_push i s) = shutting_down s"
  "now_us (ready_push i s) = now_us s"
  "nearest_deadline (ready_push i s) = nearest_deadline s"
  "hook_log (ready_push i s) = hook_log s"
  "tasks (ready_push i s) = tasks s"
  "fpool (ready_push i s) = fpool s"
  "sched.more (ready_push i s) = sched.more s"
  by (simp_all add: ready_push_def Let_def split: option.split)

lemma ready_pop_views [simp]:
  "handle_of (snd (ready_pop s)) = handle_of s"
  "parent_of (snd (ready_pop s)) = parent_of s"
  "deadline_of (snd (ready_pop s)) = deadline_of s"
  "gen_of (snd (ready_pop s)) = gen_of s"
  "st_of (snd (ready_pop s)) = st_of s"
  by (auto simp: ready_pop_def Let_def fun_eq_iff split: option.split)

lemma ready_pop_next:
  "ready_head s = Some i \<Longrightarrow> next_of (snd (ready_pop s)) = (next_of s)(i := None)"
  by (simp add: ready_pop_def Let_def)

lemma ready_pop_fields [simp]:
  "max_tasks (snd (ready_pop s)) = max_tasks s"
  "active_count (snd (ready_pop s)) = active_count s"
  "peak_count (snd (ready_pop s)) = peak_count s"
  "current (snd (ready_pop s)) = current s"
  "in_poll (snd (ready_pop s)) = in_poll s"
  "shutting_down (snd (ready_pop s)) = shutting_down s"
  "now_us (snd (ready_pop s)) = now_us s"
  "nearest_deadline (snd (ready_pop s)) = nearest_deadline s"
  "hook_log (snd (ready_pop s)) = hook_log s"
  "tasks (snd (ready_pop s)) = tasks s"
  "fpool (snd (ready_pop s)) = fpool s"
  "sched.more (snd (ready_pop s)) = sched.more s"
  "fst (ready_pop s) = ready_head s"
  "ready_count (snd (ready_pop s)) = (if ready_head s = None then ready_count s else ready_count s - 1)"
  by (simp_all add: ready_pop_def Let_def split: option.split)

interpretation rq: intrusive_queue next_of ready_head ready_tail ready_push ready_pop
  by unfold_locales (auto simp: ready_push_next ready_pop_next ready_pop_def Let_def)

section \<open>Wait queues\<close>

text \<open>\<open>class WaitQueue\<close>: two pointers; the links are the slots' own.\<close>

record wait_queue =
  wq_head :: "nat option"
  wq_tail :: "nat option"

definition wq_init :: wait_queue where
  "wq_init = \<lparr>wq_head = None, wq_tail = None\<rparr>"

definition wq_empty :: "wait_queue \<Rightarrow> bool" where
  "wq_empty q \<longleftrightarrow> wq_head q = None"

definition wq_push_back :: "nat \<Rightarrow> wait_queue \<times> 'a sched_scheme \<Rightarrow> wait_queue \<times> 'a sched_scheme" where
  "wq_push_back i qs =
     (let q = fst qs; s1 = set_next i None (snd qs)
      in case wq_tail q of
           None \<Rightarrow> (q\<lparr>wq_head := Some i, wq_tail := Some i\<rparr>, s1)
         | Some t \<Rightarrow> (q\<lparr>wq_tail := Some i\<rparr>, set_next t (Some i) s1))"

definition wq_pop_front :: "wait_queue \<times> 'a sched_scheme \<Rightarrow> nat option \<times> wait_queue \<times> 'a sched_scheme" where
  "wq_pop_front qs =
     (let q = fst qs; s = snd qs
      in case wq_head q of
           None \<Rightarrow> (None, q, s)
         | Some i \<Rightarrow>
             let q1 = q\<lparr>wq_head := next_link (slots s i)\<rparr>;
                 q2 = (if wq_head q1 = None then q1\<lparr>wq_tail := None\<rparr> else q1)
             in (Some i, q2, set_next i None s))"

interpretation wq: intrusive_queue "\<lambda>qs. next_of (snd qs)" "\<lambda>qs. wq_head (fst qs)"
    "\<lambda>qs. wq_tail (fst qs)" wq_push_back wq_pop_front
  by unfold_locales (auto simp: wq_push_back_def wq_pop_front_def Let_def split: option.split)

end
