(* ===== verification/Scheduler_Ops.thy ===== *)
theory Scheduler_Ops
  imports Scheduler_State
begin

text \<open>
  The operations of \<open>class Scheduler\<close> and its free functions (scheduler.h), in the order of
  the file, and the awaitables of delay.h that call them. The coroutine machinery (resuming,
  asking for completion, destroying a frame) runs compiler-generated and user code: it is a
  record of functions on the whole state that the operations take as an argument.
\<close>

section \<open>The coroutine interface\<close>

record 'w coro =
  co_resume :: "nat \<Rightarrow> 'w \<Rightarrow> 'w"
  co_done :: "nat \<Rightarrow> 'w \<Rightarrow> bool"
  co_destroy :: "nat \<Rightarrow> 'w \<Rightarrow> 'w"

text \<open>The same calls on a handle; a null handle has no frame to run.\<close>

definition handle_resume :: "'w coro \<Rightarrow> nat option \<Rightarrow> 'w \<Rightarrow> 'w" where
  "handle_resume co h w = (case h of None \<Rightarrow> w | Some f \<Rightarrow> co_resume co f w)"

definition handle_done :: "'w coro \<Rightarrow> nat option \<Rightarrow> 'w \<Rightarrow> bool" where
  "handle_done co h w = (case h of None \<Rightarrow> False | Some f \<Rightarrow> co_done co f w)"

definition handle_destroy :: "'w coro \<Rightarrow> nat option \<Rightarrow> 'w \<Rightarrow> 'w" where
  "handle_destroy co h w = (case h of None \<Rightarrow> w | Some f \<Rightarrow> co_destroy co f w)"

section \<open>Identity queries\<close>

definition task_id_valid :: "'a sched_scheme \<Rightarrow> task_id \<Rightarrow> bool" where
  "task_id_valid s i =
     (if unat (tid_slot i) \<ge> max_tasks s then False
      else let sl = slots s (unat (tid_slot i))
           in generation sl = tid_generation i \<and> state sl \<noteq> Free)"

definition task_id_done :: "'a sched_scheme \<Rightarrow> task_id \<Rightarrow> bool" where
  "task_id_done s i =
     (if unat (tid_slot i) \<ge> max_tasks s then False
      else let sl = slots s (unat (tid_slot i))
           in generation sl = tid_generation i \<and> state sl = Completed)"

definition th_valid :: "'a sched_scheme \<Rightarrow> task_handle \<Rightarrow> bool" where
  "th_valid s h \<longleftrightarrow> h_sched h \<and> task_id_valid s (h_id h)"

definition th_done :: "'a sched_scheme \<Rightarrow> task_handle \<Rightarrow> bool" where
  "th_done s h \<longleftrightarrow> h_sched h \<and> task_id_done s (h_id h)"

definition mk_task_handle :: "nat \<Rightarrow> 'a sched_scheme \<Rightarrow> task_handle" where
  "mk_task_handle i s = \<lparr>h_sched = True,
     h_id = \<lparr>tid_slot = index_of i, tid_generation = generation (slots s i)\<rparr>\<rparr>"

definition current_task :: "'a sched_scheme \<Rightarrow> task_handle" where
  "current_task s = (case current s of None \<Rightarrow> invalid_handle | Some i \<Rightarrow> mk_task_handle i s)"

definition has_ready_tasks :: "'a sched_scheme \<Rightarrow> bool" where
  "has_ready_tasks s \<longleftrightarrow> ready_count s > 0"

definition has_pending_tasks :: "'a sched_scheme \<Rightarrow> bool" where
  "has_pending_tasks s \<longleftrightarrow> active_count s > 0"

section \<open>Slots\<close>

definition max_generation :: "32 word" where
  "max_generation = - 1"

text \<open>The two scans of \<open>acquire_slot\<close>: free slots first, then completed ones.\<close>

definition acquire_slot :: "'a sched_scheme \<Rightarrow> nat option \<times> 'a sched_scheme" where
  "acquire_slot s =
     (case find (\<lambda>i. state (slots s i) = Free \<and> generation (slots s i) \<noteq> max_generation) [0..<max_tasks s] of
        Some i \<Rightarrow> (Some i, set_generation i (generation (slots s i) + 1) s)
      | None \<Rightarrow>
          (case find (\<lambda>i. state (slots s i) = Completed \<and> generation (slots s i) \<noteq> max_generation) [0..<max_tasks s] of
             Some i \<Rightarrow> (Some i, set_generation i (generation (slots s i) + 1) s)
           | None \<Rightarrow> (None, s)))"

text \<open>\<open>++active_count_\<close> and the diagnostics high-water mark.\<close>

definition count_active :: "'a sched_scheme \<Rightarrow> 'a sched_scheme" where
  "count_active s =
     (let s1 = s\<lparr>active_count := active_count s + 1\<rparr>
      in if active_count s1 > peak_count s1 then s1\<lparr>peak_count := active_count s1\<rparr> else s1)"

definition schedule :: "nat \<Rightarrow> 'a sched_scheme \<Rightarrow> task_handle \<times> 'a sched_scheme" where
  "schedule task s =
     (if shutting_down s then (invalid_handle, s)
      else if \<not> task_bool task s then (invalid_handle, on_error Invalid_task s)
      else case acquire_slot s of
        (None, s1) \<Rightarrow> (invalid_handle, on_error Task_limit s1)
      | (Some i, s1) \<Rightarrow>
          (case take_frame task s1 of (frame, s2) \<Rightarrow>
             let s3 = set_handle i frame s2;
                 s4 = set_state i Ready s3;
                 s5 = set_next i None s4;
                 s6 = set_parent i None s5;
                 s7 = ready_push i s6;
                 s8 = count_active s7
             in (mk_task_handle i s8, s8)))"

section \<open>Suspending the current task\<close>

definition yield_current :: "'a sched_scheme \<Rightarrow> 'a sched_scheme" where
  "yield_current s =
     (case current s of
        None \<Rightarrow> s
      | Some i \<Rightarrow> ready_push i (set_state i Ready s))"

definition arm_current_timer :: "tick_t \<Rightarrow> 'a sched_scheme \<Rightarrow> 'a sched_scheme" where
  "arm_current_timer duration s =
     (case current s of
        None \<Rightarrow> s
      | Some i \<Rightarrow>
          if duration = 0 then yield_current s
          else
            (case compute_deadline (now_us s) duration 0 (hook_log s) of
               (ok, deadline, log) \<Rightarrow>
                 let s1 = s\<lparr>hook_log := log\<rparr>
                 in if ok then
                      let s2 = set_deadline i deadline s1;
                          s3 = set_state i Waiting_timer s2
                      in if deadline < nearest_deadline s3 then s3\<lparr>nearest_deadline := deadline\<rparr> else s3
                    else yield_current s1))"

text \<open>
  \<open>start_child_await\<close>: \<open>child\<close> is destroyed on both failure paths before the error hook runs.
\<close>

definition start_child_await ::
    "'a sched_scheme coro \<Rightarrow> nat option \<Rightarrow> nat option \<Rightarrow> 'a sched_scheme \<Rightarrow> bool \<times> 'a sched_scheme" where
  "start_child_await co child awaiting s =
     (case current s of
        None \<Rightarrow> (False, on_error Invalid_task (handle_destroy co child s))
      | Some p \<Rightarrow>
          if state (slots s p) \<noteq> Running \<or> handle (slots s p) \<noteq> awaiting
          then (False, on_error Invalid_task (handle_destroy co child s))
          else (case acquire_slot s of
              (None, s1) \<Rightarrow>
                let s2 = handle_destroy co child s1;
                    s3 = set_state p Ready s2;
                    s4 = ready_push p s3
                in (True, on_error Task_limit s4)
            | (Some i, s1) \<Rightarrow>
                let s2 = set_handle i child s1;
                    s3 = set_state i Ready s2;
                    s4 = set_next i None s3;
                    s5 = set_parent i (Some p) s4;
                    s6 = ready_push i s5;
                    s7 = count_active s6;
                    s8 = set_state p Waiting_child s7
                in (True, s8)))"

definition wait_on ::
    "nat option \<Rightarrow> wait_queue \<Rightarrow> 'a sched_scheme \<Rightarrow> bool \<times> wait_queue \<times> 'a sched_scheme" where
  "wait_on awaiting q s =
     (case current s of
        None \<Rightarrow> (False, q, on_error Invalid_task s)
      | Some i \<Rightarrow>
          if state (slots s i) = Running \<and> handle (slots s i) = awaiting
          then (case wq_push_back i (q, set_state i Waiting_local s) of (q', s') \<Rightarrow> (True, q', s'))
          else (False, q, on_error Invalid_task s))"

text \<open>\<open>while (Slot* s = q.pop_front())\<close>: \<open>None\<close> is a loop that does not end.\<close>

partial_function (option) wake_all ::
    "wait_queue \<Rightarrow> 'a sched_scheme \<Rightarrow> (wait_queue \<times> 'a sched_scheme) option" where
  "wake_all q s =
     (case wq_pop_front (q, s) of
        (None, q', s') \<Rightarrow> Some (q', s')
      | (Some i, q', s') \<Rightarrow> wake_all q' (ready_push i (set_state i Ready s')))"

definition running_is :: "nat option \<Rightarrow> 'a sched_scheme \<Rightarrow> bool \<times> 'a sched_scheme" where
  "running_is awaiting s =
     (let ok = (case current s of
                  None \<Rightarrow> False
                | Some i \<Rightarrow> state (slots s i) = Running \<and> handle (slots s i) = awaiting)
      in (ok, if ok then s else on_error Invalid_task s))"

text \<open>\<open>park_running\<close>: dereferences \<open>current_\<close>, which \<open>running_is\<close> has checked.\<close>

definition park_running :: "'a sched_scheme \<Rightarrow> nat option \<times> 'a sched_scheme" where
  "park_running s =
     (case current s of
        None \<Rightarrow> (None, s)
      | Some i \<Rightarrow> (Some i, set_state i Waiting_local s))"

definition wake_slot :: "nat option \<Rightarrow> 'a sched_scheme \<Rightarrow> 'a sched_scheme" where
  "wake_slot p s = (case p of None \<Rightarrow> s | Some i \<Rightarrow> ready_push i (set_state i Ready s))"

section \<open>Timers\<close>

text \<open>The inner scan of \<open>process_due_timers\<close>: the strict comparison keeps the first slot on ties.\<close>

definition soonest_step :: "'a sched_scheme \<Rightarrow> nat \<Rightarrow> nat option \<Rightarrow> nat option" where
  "soonest_step s i best =
     (if state (slots s i) = Waiting_timer \<and> deadline_us (slots s i) \<le> now_us s \<and>
         (case best of None \<Rightarrow> True | Some b \<Rightarrow> deadline_us (slots s i) < deadline_us (slots s b))
      then Some i else best)"

definition soonest_due :: "'a sched_scheme \<Rightarrow> nat option" where
  "soonest_due s = fold (soonest_step s) [0..<max_tasks s] None"

definition recompute_nearest_deadline :: "'a sched_scheme \<Rightarrow> 'a sched_scheme" where
  "recompute_nearest_deadline s = s\<lparr>nearest_deadline :=
     fold (\<lambda>i nearest. if state (slots s i) = Waiting_timer \<and> deadline_us (slots s i) < nearest
                       then deadline_us (slots s i) else nearest) [0..<max_tasks s] (- 1)\<rparr>"

lemma soonest_fold:
  "fold (soonest_step s) is b = Some i \<Longrightarrow> b = Some i \<or> (i \<in> set is \<and> st_of s i = Waiting_timer \<and> deadline_of s i \<le> now_us s)"
  by (induction "is" arbitrary: b) (fastforce simp: soonest_step_def split: if_splits option.splits)+

lemma soonest_due_Some:
  "soonest_due s = Some i \<Longrightarrow> i < max_tasks s \<and> st_of s i = Waiting_timer \<and> deadline_of s i \<le> now_us s"
  using soonest_fold [of s "[0..<max_tasks s]" None i] by (simp add: soonest_due_def)

text \<open>The \<open>for (;;)\<close> loop ends: every round takes one slot out of \<open>Waiting_timer\<close>.\<close>

function wake_due :: "'a sched_scheme \<Rightarrow> 'a sched_scheme" where
  "wake_due s =
     (case soonest_due s of
        None \<Rightarrow> s
      | Some i \<Rightarrow> wake_due (ready_push i (set_state i Ready s)))"
  by pat_completeness auto
termination
proof (relation "measure (\<lambda>s. count_below (max_tasks s) (\<lambda>i. st_of s i = Waiting_timer))")
  fix s :: "'a sched_scheme" and i
  assume "soonest_due s = Some i"
  from soonest_due_Some [OF this]
  have "Suc (count_below (max_tasks s) (\<lambda>j. (if j = i then Ready else st_of s j) = Waiting_timer))
      = count_below (max_tasks s) (\<lambda>j. st_of s j = Waiting_timer)"
    by (intro count_below_remove [of i]) auto
  then show "(ready_push i (set_state i Ready s), s)
      \<in> measure (\<lambda>s. count_below (max_tasks s) (\<lambda>i. st_of s i = Waiting_timer))"
    by (simp add: fun_upd_apply)
qed simp

declare wake_due.simps [simp del]

definition process_due_timers :: "'a sched_scheme \<Rightarrow> 'a sched_scheme" where
  "process_due_timers s =
     (if now_us s < nearest_deadline s then s
      else recompute_nearest_deadline (wake_due s))"

section \<open>The pass\<close>

text \<open>One task of the pass, after it was popped and found ready.\<close>

definition run_task :: "'a sched_scheme coro \<Rightarrow> nat \<Rightarrow> 'a sched_scheme \<Rightarrow> 'a sched_scheme" where
  "run_task co i s =
     (let s1 = set_state i Running s;
          s2 = s1\<lparr>current := Some i\<rparr>;
          s3 = handle_resume co (handle (slots s2 i)) s2;
          s4 = s3\<lparr>current := None\<rparr>
      in if handle_done co (handle (slots s4 i)) s4 then
           let p = parent (slots s4 i);
               s5 = handle_destroy co (handle (slots s4 i)) s4;
               s6 = set_handle i None s5;
               s7 = set_parent i None s6;
               s8 = set_state i Completed s7;
               s9 = s8\<lparr>active_count := active_count s8 - 1\<rparr>
           in (case p of
                 None \<Rightarrow> s9
               | Some q \<Rightarrow> if state (slots s9 q) = Waiting_child
                           then ready_push q (set_state q Ready s9) else s9)
         else if state (slots s4 i) = Running then set_state i Suspended s4
         else s4)"

fun run_budget :: "'a sched_scheme coro \<Rightarrow> nat \<Rightarrow> 'a sched_scheme \<Rightarrow> 'a sched_scheme" where
  "run_budget co 0 s = s"
| "run_budget co (Suc n) s =
     (case ready_pop s of
        (None, s1) \<Rightarrow> s1
      | (Some i, s1) \<Rightarrow>
          run_budget co n (if state (slots s1 i) \<noteq> Ready then s1 else run_task co i s1))"

definition run_pass :: "'a sched_scheme coro \<Rightarrow> 'a sched_scheme \<Rightarrow> 'a sched_scheme" where
  "run_pass co s = run_budget co (ready_count s) s"

text \<open>
  \<open>run_poll_pass()\<close>: \<open>clock\<close> is the value \<open>platform_now_us()\<close> returns and
  \<open>external\<close> is \<open>detail::poll_external_signals()\<close>, defined in threadsafeflag.h.
\<close>

definition run_poll_pass ::
    "'a sched_scheme coro \<Rightarrow> ('a sched_scheme \<Rightarrow> 'a sched_scheme) \<Rightarrow> tick_t \<Rightarrow> 'a sched_scheme \<Rightarrow>
     bool \<times> 'a sched_scheme" where
  "run_poll_pass co external clock s =
     (if shutting_down s then (False, s)
      else if in_poll s then (False, on_error Scheduler_reentry s)
      else
        let s1 = s\<lparr>in_poll := True\<rparr>;
            s2 = s1\<lparr>now_us := clock\<rparr>;
            s3 = external s2;
            s4 = process_due_timers s3;
            s5 = run_pass co s4;
            s6 = s5\<lparr>in_poll := False\<rparr>
        in (True, s6))"

definition poll ::
    "'a sched_scheme coro \<Rightarrow> ('a sched_scheme \<Rightarrow> 'a sched_scheme) \<Rightarrow> tick_t \<Rightarrow> 'a sched_scheme \<Rightarrow>
     'a sched_scheme" where
  "poll co external clock s = snd (run_poll_pass co external clock s)"

text \<open>\<open>wait_for_work()\<close>: the arguments of the platform wait, when it is called.\<close>

definition wait_for_work :: "('a sched_scheme \<Rightarrow> bool) \<Rightarrow> 'a sched_scheme \<Rightarrow> (tick_t \<times> bool) option" where
  "wait_for_work has_external s =
     (if ready_count s = 0 then Some (nearest_deadline s, has_external s) else None)"

definition poll_and_wait ::
    "'a sched_scheme coro \<Rightarrow> ('a sched_scheme \<Rightarrow> 'a sched_scheme) \<Rightarrow> ('a sched_scheme \<Rightarrow> bool) \<Rightarrow>
     tick_t \<Rightarrow> 'a sched_scheme \<Rightarrow> (tick_t \<times> bool) option \<times> 'a sched_scheme" where
  "poll_and_wait co external has_external clock s =
     (case run_poll_pass co external clock s of
        (completed, s1) \<Rightarrow> (if completed then wait_for_work has_external s1 else None, s1))"

section \<open>Teardown\<close>

text \<open>\<open>~Scheduler()\<close>.\<close>

definition teardown_slot :: "'a sched_scheme coro \<Rightarrow> nat \<Rightarrow> 'a sched_scheme \<Rightarrow> 'a sched_scheme" where
  "teardown_slot co i s =
     (if handle (slots s i) \<noteq> None \<and> state (slots s i) \<noteq> Completed then
        let frame = handle (slots s i);
            s1 = set_handle i None s;
            s2 = set_state i Completed s1
        in handle_destroy co frame s2
      else s)"

definition sched_destructor :: "'a sched_scheme coro \<Rightarrow> 'a sched_scheme \<Rightarrow> 'a sched_scheme" where
  "sched_destructor co s =
     fold (teardown_slot co) [0..<max_tasks s] (s\<lparr>shutting_down := True\<rparr>)"

section \<open>Free functions and awaitables\<close>

definition create_task :: "nat \<Rightarrow> 'a sched_scheme \<Rightarrow> task_handle \<times> 'a sched_scheme" where
  "create_task task s = schedule task s"

definition spawn :: "nat \<Rightarrow> 'a sched_scheme \<Rightarrow> 'a sched_scheme" where
  "spawn task s = snd (schedule task s)"

definition force_slot_generation :: "16 word \<Rightarrow> 32 word \<Rightarrow> 'a sched_scheme \<Rightarrow> 'a sched_scheme" where
  "force_slot_generation i g s = set_generation (unat i) g s"

definition start_child ::
    "'a sched_scheme coro \<Rightarrow> nat option \<Rightarrow> nat option \<Rightarrow> 'a sched_scheme \<Rightarrow> bool \<times> 'a sched_scheme" where
  "start_child co child awaiting s = start_child_await co child awaiting s"

text \<open>delay.h: the awaitables' \<open>await_suspend\<close>; none of them is ever ready at once.\<close>

definition yield_suspend :: "nat option \<Rightarrow> 'a sched_scheme \<Rightarrow> 'a sched_scheme" where
  "yield_suspend awaiting s = yield_current s"

definition delay_suspend :: "tick_t \<Rightarrow> nat option \<Rightarrow> 'a sched_scheme \<Rightarrow> 'a sched_scheme" where
  "delay_suspend duration awaiting s = arm_current_timer duration s"

definition delay_us :: "64 word \<Rightarrow> tick_t" where
  "delay_us microseconds = microseconds"

definition delay_ms :: "32 word \<Rightarrow> tick_t" where
  "delay_ms milliseconds = ms_to_us milliseconds"

definition delay :: "32 word \<Rightarrow> tick_t" where
  "delay milliseconds = delay_ms milliseconds"

end
