(* ===== verification/Scheduler_Inv.thy ===== *)
theory Scheduler_Inv
  imports Scheduler_Ops
begin

text \<open>
  The invariant of the scheduler (scheduler.h) and its preservation by the primitive steps
  the operations are made of: putting a slot on the ready FIFO, parking the running slot,
  adopting a frame into an acquired slot, starting and completing a task. The relation
  \<open>evolves\<close> says what any code that runs between two scheduler steps may change.
\<close>

section \<open>The invariant\<close>

text \<open>A slot in one of these states owns a frame and counts as an active task.\<close>

definition is_active :: "task_state \<Rightarrow> bool" where
  "is_active x \<longleftrightarrow> x \<noteq> Free \<and> x \<noteq> Completed"

lemma is_active_simps [simp]:
  "\<not> is_active Free" "\<not> is_active Completed" "is_active Ready" "is_active Running"
  "is_active Waiting_timer" "is_active Waiting_child" "is_active Waiting_local" "is_active Suspended"
  by (simp_all add: is_active_def)

text \<open>The ready FIFO read from the head pointer along the links.\<close>

definition ready_list :: "'a sched_scheme \<Rightarrow> nat list" where
  "ready_list s = walk (ready_count s) (next_of s) (ready_head s)"

definition ready_rep :: "'a sched_scheme \<Rightarrow> nat list \<Rightarrow> bool" where
  "ready_rep s rs \<longleftrightarrow> fifo (next_of s) (ready_head s) (ready_tail s) rs \<and> ready_count s = length rs"

lemma ready_rep_list: "ready_rep s rs \<Longrightarrow> ready_list s = rs"
  by (auto simp: ready_rep_def ready_list_def dest: fifo_walk)

text \<open>The FIFO is well formed and holds exactly the slots in state \<open>Ready\<close>.\<close>

definition ready_ok :: "'a sched_scheme \<Rightarrow> bool" where
  "ready_ok s \<longleftrightarrow> ready_rep s (ready_list s) \<and>
     (\<forall>i. i \<in> set (ready_list s) \<longleftrightarrow> i < max_tasks s \<and> st_of s i = Ready)"

definition count_ok :: "'a sched_scheme \<Rightarrow> bool" where
  "count_ok s \<longleftrightarrow> active_count s = count_below (max_tasks s) (\<lambda>i. is_active (st_of s i)) \<and>
     active_count s \<le> peak_count s \<and> peak_count s \<le> max_tasks s"

text \<open>A slot holds a frame exactly while it is active.\<close>

definition frame_ok :: "'a sched_scheme \<Rightarrow> bool" where
  "frame_ok s \<longleftrightarrow> (\<forall>i < max_tasks s. is_active (st_of s i) \<longleftrightarrow> handle_of s i \<noteq> None)"

definition current_ok :: "'a sched_scheme \<Rightarrow> bool" where
  "current_ok s \<longleftrightarrow> (\<forall>i. current s = Some i \<longrightarrow> i < max_tasks s \<and> is_active (st_of s i))"

text \<open>The parent of an active child waits for it, and for no other child.\<close>

definition links_ok :: "'a sched_scheme \<Rightarrow> bool" where
  "links_ok s \<longleftrightarrow>
     (\<forall>c p. c < max_tasks s \<and> is_active (st_of s c) \<and> parent_of s c = Some p \<longrightarrow>
        p < max_tasks s \<and> st_of s p = Waiting_child) \<and>
     (\<forall>c d p. c < max_tasks s \<and> d < max_tasks s \<and> is_active (st_of s c) \<and> is_active (st_of s d) \<and>
        parent_of s c = Some p \<and> parent_of s d = Some p \<longrightarrow> c = d)"

lemma links_okI:
  assumes "\<And>c p. c < max_tasks s \<Longrightarrow> is_active (st_of s c) \<Longrightarrow> parent_of s c = Some p \<Longrightarrow>
      p < max_tasks s \<and> st_of s p = Waiting_child"
    and "\<And>c d p. c < max_tasks s \<Longrightarrow> is_active (st_of s c) \<Longrightarrow> parent_of s c = Some p \<Longrightarrow>
      d < max_tasks s \<Longrightarrow> is_active (st_of s d) \<Longrightarrow> parent_of s d = Some p \<Longrightarrow> c = d"
  shows "links_ok s"
  unfolding links_ok_def using assms by metis

lemma links_okD:
  assumes "links_ok s" "c < max_tasks s" "is_active (st_of s c)" "parent_of s c = Some p"
  shows "p < max_tasks s" "st_of s p = Waiting_child"
    "d < max_tasks s \<Longrightarrow> is_active (st_of s d) \<Longrightarrow> parent_of s d = Some p \<Longrightarrow> c = d"
  using assms unfolding links_ok_def by metis+

text \<open>A task waiting for a child has an active one: it is never stranded.\<close>

definition cover_ok :: "'a sched_scheme \<Rightarrow> bool" where
  "cover_ok s \<longleftrightarrow> (\<forall>i < max_tasks s. st_of s i = Waiting_child \<longrightarrow>
     (\<exists>c < max_tasks s. is_active (st_of s c) \<and> parent_of s c = Some i))"

text \<open>The cached deadline is the least deadline of the waiting timers, or \<open>UINT64_MAX\<close>.\<close>

definition timer_ok :: "'a sched_scheme \<Rightarrow> bool" where
  "timer_ok s \<longleftrightarrow>
     (\<forall>i < max_tasks s. st_of s i = Waiting_timer \<longrightarrow> nearest_deadline s \<le> deadline_of s i) \<and>
     (nearest_deadline s = - 1 \<or>
       (\<exists>i < max_tasks s. st_of s i = Waiting_timer \<and> deadline_of s i = nearest_deadline s))"

definition sched_base :: "'a sched_scheme \<Rightarrow> bool" where
  "sched_base s \<longleftrightarrow> max_tasks s \<le> 2 ^ 16 \<and> ready_ok s \<and> count_ok s \<and> frame_ok s \<and>
     current_ok s \<and> links_ok s"

definition sched_inv :: "'a sched_scheme \<Rightarrow> bool" where
  "sched_inv s \<longleftrightarrow> sched_base s \<and> cover_ok s \<and> timer_ok s"

text \<open>No task is being resumed.\<close>

definition idle :: "'a sched_scheme \<Rightarrow> bool" where
  "idle s \<longleftrightarrow> current s = None \<and> (\<forall>i < max_tasks s. st_of s i \<noteq> Running)"

lemmas inv_defs = ready_ok_def count_ok_def frame_ok_def current_ok_def links_ok_def cover_ok_def
  timer_ok_def

lemma sched_baseD:
  assumes "sched_base s"
  shows "max_tasks s \<le> 2 ^ 16" "ready_ok s" "count_ok s" "frame_ok s" "current_ok s" "links_ok s"
  using assms by (simp_all add: sched_base_def)

lemma sched_invD:
  assumes "sched_inv s"
  shows "sched_base s" "cover_ok s" "timer_ok s"
    "max_tasks s \<le> 2 ^ 16" "ready_ok s" "count_ok s" "frame_ok s" "current_ok s" "links_ok s"
  using assms by (simp_all add: sched_inv_def sched_base_def)

lemma ready_okD:
  assumes "ready_ok s"
  shows "fifo (next_of s) (ready_head s) (ready_tail s) (ready_list s)"
    "ready_count s = length (ready_list s)" "distinct (ready_list s)"
    "i \<in> set (ready_list s) \<longleftrightarrow> i < max_tasks s \<and> st_of s i = Ready"
proof -
  show f: "fifo (next_of s) (ready_head s) (ready_tail s) (ready_list s)"
    and "ready_count s = length (ready_list s)"
    using assms by (simp_all add: ready_ok_def ready_rep_def)
  show "distinct (ready_list s)" by (rule fifo_distinct [OF f])
  show "i \<in> set (ready_list s) \<longleftrightarrow> i < max_tasks s \<and> st_of s i = Ready"
    using assms by (simp add: ready_ok_def)
qed

lemma ready_okI:
  assumes "ready_rep s rs" and "\<And>i. i \<in> set rs \<longleftrightarrow> i < max_tasks s \<and> st_of s i = Ready"
  shows "ready_ok s" "ready_list s = rs"
  using assms ready_rep_list [OF assms(1)] by (auto simp: ready_ok_def)

section \<open>Steps on the ready FIFO\<close>

definition make_ready :: "nat \<Rightarrow> 'a sched_scheme \<Rightarrow> 'a sched_scheme" where
  "make_ready i s = ready_push i (set_state i Ready s)"

lemma ready_push_rep:
  assumes "ready_rep s rs" and "i \<notin> set rs"
  shows "ready_rep (ready_push i s) (rs @ [i])"
  using rq.push_fifo [of s rs i] assms by (simp add: ready_rep_def)

lemma ready_rep_cong:
  assumes "next_of s' = next_of s" "ready_head s' = ready_head s" "ready_tail s' = ready_tail s"
    "ready_count s' = ready_count s"
  shows "ready_rep s' rs = ready_rep s rs"
  using assms by (simp add: ready_rep_def)

lemma ready_list_cong:
  assumes "next_of s' = next_of s" "ready_head s' = ready_head s" "ready_count s' = ready_count s"
  shows "ready_list s' = ready_list s"
  using assms by (simp add: ready_list_def)

lemma make_ready_fifo:
  assumes "ready_ok s" and "i < max_tasks s" and "st_of s i \<noteq> Ready"
  shows "ready_ok (make_ready i s)" and "ready_list (make_ready i s) = ready_list s @ [i]"
proof -
  have n: "next_of (set_state i Ready s) = next_of s" by (auto simp: fun_eq_iff)
  have "i \<notin> set (ready_list s)" using assms by (simp add: ready_okD(4))
  then have rep: "ready_rep (make_ready i s) (ready_list s @ [i])"
    using assms(1) n unfolding make_ready_def
    by (intro ready_push_rep) (simp_all add: ready_rep_cong ready_okD ready_rep_def)
  have mem: "j \<in> set (ready_list s @ [i]) \<longleftrightarrow>
      j < max_tasks (make_ready i s) \<and> st_of (make_ready i s) j = Ready" for j
    using assms by (auto simp: make_ready_def ready_okD(4))
  show "ready_ok (make_ready i s)" "ready_list (make_ready i s) = ready_list s @ [i]"
    using ready_okI [OF rep mem] by simp_all
qed

lemma ready_pop_fifo:
  assumes "ready_ok s" and "ready_list s = i # rs"
  shows "ready_head s = Some i" and "ready_rep (snd (ready_pop s)) rs"
    and "i < max_tasks s" "st_of s i = Ready" "i \<notin> set rs"
proof -
  have f: "fifo (next_of s) (ready_head s) (ready_tail s) (i # rs)"
    using ready_okD(1) [OF assms(1)] assms(2) by simp
  then show h: "ready_head s = Some i" by (simp add: fifo_def)
  from rq.pop_fifo(2) [OF f] ready_okD(2) [OF assms(1)] assms(2) h
  show "ready_rep (snd (ready_pop s)) rs" by (simp add: ready_rep_def)
  from ready_okD(3,4) [OF assms(1)] assms(2)
  show "i < max_tasks s" "st_of s i = Ready" "i \<notin> set rs" by force+
qed

text \<open>Steps that leave the links and the set of ready slots alone leave the FIFO alone.\<close>

lemma ready_ok_keep:
  assumes "ready_ok s"
    and "next_of s' = next_of s" "ready_head s' = ready_head s" "ready_tail s' = ready_tail s"
    "ready_count s' = ready_count s" "max_tasks s' = max_tasks s"
    and "\<And>i. i < max_tasks s \<Longrightarrow> st_of s' i = Ready \<longleftrightarrow> st_of s i = Ready"
  shows "ready_ok s'" "ready_list s' = ready_list s"
proof -
  have "ready_rep s' (ready_list s)" using assms by (simp add: ready_ok_def ready_rep_def)
  moreover have "i \<in> set (ready_list s) \<longleftrightarrow> i < max_tasks s' \<and> st_of s' i = Ready" for i
    using ready_okD(4) [OF assms(1), of i] assms(6,7) by auto
  ultimately show "ready_ok s'" "ready_list s' = ready_list s" by (rule ready_okI)+
qed

section \<open>Steps that keep the set of active tasks\<close>

lemma count_ok_keep:
  assumes "count_ok s" and "max_tasks s' = max_tasks s" "active_count s' = active_count s"
    "peak_count s' = peak_count s"
    and "\<And>i. i < max_tasks s \<Longrightarrow> is_active (st_of s' i) = is_active (st_of s i)"
  shows "count_ok s'"
  using assms count_below_cong [of "max_tasks s" "\<lambda>i. is_active (st_of s' i)" "\<lambda>i. is_active (st_of s i)"]
  by (simp add: count_ok_def)

lemma base_keep:
  assumes base: "sched_base s" and ready: "ready_ok s'"
    and fields: "max_tasks s' = max_tasks s" "active_count s' = active_count s"
      "peak_count s' = peak_count s" "current s' = current s"
    and views: "handle_of s' = handle_of s" "parent_of s' = parent_of s"
    and act: "\<And>i. i < max_tasks s \<Longrightarrow> is_active (st_of s' i) = is_active (st_of s i)"
    and par: "\<And>c p. c < max_tasks s \<Longrightarrow> is_active (st_of s c) \<Longrightarrow> parent_of s c = Some p \<Longrightarrow>
      st_of s p = Waiting_child \<Longrightarrow> st_of s' p = Waiting_child"
  shows "sched_base s'"
proof -
  have "count_ok s'" by (rule count_ok_keep [OF sched_baseD(3) [OF base]]) (use fields act in auto)
  moreover have "frame_ok s'" using sched_baseD(4) [OF base] fields views act by (simp add: frame_ok_def)
  moreover have "current_ok s'" using sched_baseD(5) [OF base] fields act by (auto simp: current_ok_def)
  moreover have "links_ok s'"
    using sched_baseD(6) [OF base] fields views act par unfolding links_ok_def by metis
  ultimately show ?thesis using base ready fields by (simp add: sched_base_def)
qed

lemma cover_keep:
  assumes "cover_ok s" and "max_tasks s' = max_tasks s" and "parent_of s' = parent_of s"
    and "\<And>i. i < max_tasks s \<Longrightarrow> is_active (st_of s i) \<Longrightarrow> is_active (st_of s' i)"
    and "\<And>i. i < max_tasks s \<Longrightarrow> st_of s' i = Waiting_child \<Longrightarrow> st_of s i = Waiting_child"
  shows "cover_ok s'"
  using assms unfolding cover_ok_def by metis

lemma timer_keep:
  assumes "timer_ok s" and "max_tasks s' = max_tasks s" "nearest_deadline s' = nearest_deadline s"
    and "\<And>i. i < max_tasks s \<Longrightarrow> st_of s' i = Waiting_timer \<longleftrightarrow> st_of s i = Waiting_timer"
    and "\<And>i. i < max_tasks s \<Longrightarrow> st_of s i = Waiting_timer \<Longrightarrow> deadline_of s' i = deadline_of s i"
  shows "timer_ok s'"
  using assms unfolding timer_ok_def by metis

lemma make_ready_views [simp]:
  "handle_of (make_ready i s) = handle_of s" "parent_of (make_ready i s) = parent_of s"
  "deadline_of (make_ready i s) = deadline_of s" "gen_of (make_ready i s) = gen_of s"
  "st_of (make_ready i s) = (st_of s)(i := Ready)"
  by (auto simp: make_ready_def fun_eq_iff)

lemma make_ready_fields [simp]:
  "max_tasks (make_ready i s) = max_tasks s" "active_count (make_ready i s) = active_count s"
  "peak_count (make_ready i s) = peak_count s" "current (make_ready i s) = current s"
  "in_poll (make_ready i s) = in_poll s" "shutting_down (make_ready i s) = shutting_down s"
  "now_us (make_ready i s) = now_us s" "nearest_deadline (make_ready i s) = nearest_deadline s"
  "hook_log (make_ready i s) = hook_log s" "tasks (make_ready i s) = tasks s"
  "fpool (make_ready i s) = fpool s" "sched.more (make_ready i s) = sched.more s"
  by (simp_all add: make_ready_def)

text \<open>Waking a task keeps the base invariant when no active child is linked to it.\<close>

lemma make_ready_base:
  assumes "sched_base s" and "i < max_tasks s" and "is_active (st_of s i)" "st_of s i \<noteq> Ready"
    and "\<And>c. c < max_tasks s \<Longrightarrow> is_active (st_of s c) \<Longrightarrow> parent_of s c \<noteq> Some i"
  shows "sched_base (make_ready i s)"
  by (rule base_keep [OF assms(1) make_ready_fifo(1) [OF sched_baseD(2) [OF assms(1)] assms(2,4)]])
    (use assms(3,5) in auto)

lemma no_child:
  assumes "links_ok s" and "st_of s i \<noteq> Waiting_child" "c < max_tasks s" "is_active (st_of s c)"
  shows "parent_of s c \<noteq> Some i"
  using assms unfolding links_ok_def by metis

lemma make_ready_inv:
  assumes "sched_inv s" and "i < max_tasks s"
    and "st_of s i = Running \<or> st_of s i = Waiting_local \<or> st_of s i = Suspended"
  shows "sched_inv (make_ready i s)"
proof -
  have a: "is_active (st_of s i)" "st_of s i \<noteq> Ready" "st_of s i \<noteq> Waiting_child" "st_of s i \<noteq> Waiting_timer"
    using assms(3) by auto
  have "sched_base (make_ready i s)"
    by (rule make_ready_base [OF sched_invD(1) [OF assms(1)] assms(2) a(1,2)])
      (rule no_child [OF sched_invD(9) [OF assms(1)] a(3)])
  moreover have "cover_ok (make_ready i s)"
    by (rule cover_keep [OF sched_invD(2) [OF assms(1)]]) (use a in \<open>auto split: if_splits\<close>)
  moreover have "timer_ok (make_ready i s)"
    by (rule timer_keep [OF sched_invD(3) [OF assms(1)]]) (use a in auto)
  ultimately show ?thesis by (simp add: sched_inv_def)
qed

text \<open>The running task parks in a state without a timer or a child.\<close>

lemma set_state_views [simp]:
  "handle_of (set_state i x s) = handle_of s" "parent_of (set_state i x s) = parent_of s"
  "deadline_of (set_state i x s) = deadline_of s" "gen_of (set_state i x s) = gen_of s"
  "next_of (set_state i x s) = next_of s" "st_of (set_state i x s) = (st_of s)(i := x)"
  by (auto simp: fun_eq_iff)

lemma set_state_base:
  assumes "sched_base s" and "st_of s i = Running" and "is_active x" "x \<noteq> Ready"
  shows "sched_base (set_state i x s)"
proof (rule base_keep [OF assms(1)])
  show "ready_ok (set_state i x s)"
    by (rule ready_ok_keep [OF sched_baseD(2) [OF assms(1)]]) (use assms in auto)
qed (use assms in auto)

lemma park_inv:
  assumes "sched_inv s" and "st_of s i = Running"
    and "is_active x" "x \<noteq> Ready" "x \<noteq> Waiting_timer" "x \<noteq> Waiting_child"
  shows "sched_inv (set_state i x s)"
proof -
  have "cover_ok (set_state i x s)"
    by (rule cover_keep [OF sched_invD(2) [OF assms(1)]]) (use assms in \<open>auto split: if_splits\<close>)
  moreover have "timer_ok (set_state i x s)"
    by (rule timer_keep [OF sched_invD(3) [OF assms(1)]]) (use assms in auto)
  ultimately show ?thesis
    using set_state_base [OF sched_invD(1) [OF assms(1)] assms(2-4)] by (simp add: sched_inv_def)
qed

section \<open>What code running between two scheduler steps may change\<close>

text \<open>
  One slot: its generation never decreases; an active slot stays active and keeps its frame,
  its parent and its generation; no slot starts to run, and only the current task stops
  running; a task waiting for a timer or for a child goes on waiting; an unused slot changes
  state only with a new generation.
\<close>

definition slot_step :: "bool \<Rightarrow> slot \<Rightarrow> slot \<Rightarrow> bool" where
  "slot_step cur a b \<longleftrightarrow> generation a \<le> generation b \<and>
     (is_active (state a) \<longrightarrow> is_active (state b) \<and> handle b = handle a \<and> parent b = parent a \<and>
        generation b = generation a) \<and>
     (state b = Running \<longrightarrow> state a = Running) \<and>
     (state a = Running \<and> \<not> cur \<longrightarrow> state b = Running) \<and>
     (state a = Waiting_timer \<or> state a = Waiting_child \<longrightarrow>
        state b = state a \<and> deadline_us b = deadline_us a) \<and>
     (\<not> is_active (state a) \<and> generation b = generation a \<longrightarrow> state b = state a)"

lemma slot_step_refl [simp]: "slot_step cur a a"
  by (simp add: slot_step_def)

lemma slot_step_trans: "slot_step cur a b \<Longrightarrow> slot_step cur b c \<Longrightarrow> slot_step cur a c"
  unfolding slot_step_def by (smt (verit) order.trans order.antisym)

lemma slot_step_running: "slot_step cur a b \<Longrightarrow> state b = Running \<Longrightarrow> state a = Running"
  unfolding slot_step_def by blast

definition evolves :: "'a sched_scheme \<Rightarrow> 'a sched_scheme \<Rightarrow> bool" where
  "evolves s s' \<longleftrightarrow> max_tasks s' = max_tasks s \<and> current s' = current s \<and> in_poll s' = in_poll s \<and>
     shutting_down s' = shutting_down s \<and> now_us s' = now_us s \<and>
     (\<exists>es. hook_log s' = hook_log s @ es) \<and> (\<exists>ys. ready_list s' = ready_list s @ ys) \<and>
     (\<forall>i. slot_step (current s = Some i) (slots s i) (slots s' i))"

lemma evolves_refl [simp]: "evolves s s"
  by (simp add: evolves_def)

lemma evolves_trans: "evolves s s' \<Longrightarrow> evolves s' s'' \<Longrightarrow> evolves s s''"
  unfolding evolves_def by (auto intro: slot_step_trans)

lemma evolvesD:
  assumes "evolves s s'"
  shows "max_tasks s' = max_tasks s" "current s' = current s" "in_poll s' = in_poll s"
    "shutting_down s' = shutting_down s" "now_us s' = now_us s"
  using assms by (simp_all add: evolves_def)

lemma evolves_ready: "evolves s s' \<Longrightarrow> \<exists>ys. ready_list s' = ready_list s @ ys"
  by (simp add: evolves_def)

lemma evolves_slot: "evolves s s' \<Longrightarrow> slot_step (current s = Some i) (slots s i) (slots s' i)"
  by (simp add: evolves_def)

text \<open>A step that changes one slot and appends to the ready FIFO.\<close>

lemma evolvesI:
  assumes "max_tasks s' = max_tasks s" "current s' = current s" "in_poll s' = in_poll s"
    "shutting_down s' = shutting_down s" "now_us s' = now_us s"
    and "\<exists>es. hook_log s' = hook_log s @ es" and "\<exists>ys. ready_list s' = ready_list s @ ys"
    and "\<And>i. slot_step (current s = Some i) (slots s i) (slots s' i)"
  shows "evolves s s'"
  using assms by (simp add: evolves_def)

text \<open>An error report changes only the log of the hook.\<close>

lemma ready_list_on_error [simp]: "ready_list (on_error e s) = ready_list s"
  by (simp add: ready_list_def)

lemma on_error_evolves: "evolves s (on_error e s)"
  by (rule evolvesI) simp_all

lemma sched_inv_more:
  assumes "max_tasks s' = max_tasks s" "handle_of s' = handle_of s" "next_of s' = next_of s"
    "parent_of s' = parent_of s" "deadline_of s' = deadline_of s" "st_of s' = st_of s"
    "ready_head s' = ready_head s"
    "ready_tail s' = ready_tail s" "ready_count s' = ready_count s" "active_count s' = active_count s"
    "peak_count s' = peak_count s" "current s' = current s" "nearest_deadline s' = nearest_deadline s"
  shows "sched_inv s' = sched_inv s"
proof -
  have "ready_list s' = ready_list s" using assms by (simp add: ready_list_def)
  then show ?thesis using assms by (simp add: sched_inv_def sched_base_def inv_defs ready_rep_def)
qed

lemma on_error_inv [simp]: "sched_inv (on_error e s) = sched_inv s"
  by (rule sched_inv_more) simp_all

lemma set_task_inv [simp]: "sched_inv (set_task t h s) = sched_inv s"
  by (rule sched_inv_more) simp_all

lemma set_task_evolves: "evolves s (set_task t h s)"
  by (rule evolvesI) (simp_all add: ready_list_def)

section \<open>The operations a running task calls\<close>

lemma make_ready_evolves:
  assumes "ready_ok s" "i < max_tasks s"
    and "st_of s i = Waiting_local \<or> st_of s i = Suspended \<or> (st_of s i = Running \<and> current s = Some i)"
  shows "evolves s (make_ready i s)"
proof (rule evolvesI)
  show "\<exists>ys. ready_list (make_ready i s) = ready_list s @ ys"
    using make_ready_fifo(2) [OF assms(1,2)] assms(3) by auto
  fix j show "slot_step (current s = Some j) (slots s j) (slots (make_ready i s) j)"
    using assms(3) by (auto simp: slot_step_def)
qed simp_all

lemma park_evolves:
  assumes "st_of s i = Running" "current s = Some i" "is_active x"
  shows "evolves s (set_state i x s)"
proof (rule evolvesI)
  show "\<exists>ys. ready_list (set_state i x s) = ready_list s @ ys"
    using ready_list_cong [of "set_state i x s" s] by simp
  fix j show "slot_step (current s = Some j) (slots s j) (slots (set_state i x s) j)"
    using assms by (auto simp: slot_step_def)
qed simp_all

text \<open>A yield of the running task.\<close>

lemma yield_make_ready: "current s = Some i \<Longrightarrow> yield_current s = make_ready i s"
  by (simp add: yield_current_def make_ready_def)

lemma yield_inv:
  assumes "sched_inv s" and "current s = Some i" and "st_of s i = Running"
  shows "sched_inv (yield_current s)" "evolves s (yield_current s)"
proof -
  have "i < max_tasks s" using sched_invD(8) [OF assms(1)] assms(2) by (simp add: current_ok_def)
  then show "sched_inv (yield_current s)" "evolves s (yield_current s)"
    using assms(2,3) make_ready_inv [OF assms(1)] make_ready_evolves [OF sched_invD(5) [OF assms(1)]]
    by (simp_all add: yield_make_ready)
qed

text \<open>Arming a timer lowers the cached deadline exactly when the new one is sooner.\<close>

lemma timer_arm:
  assumes "timer_ok s" "i < max_tasks s" "st_of s i \<noteq> Waiting_timer"
    and "s' = set_state i Waiting_timer (set_deadline i d s)"
  shows "timer_ok (if d < nearest_deadline s' then s'\<lparr>nearest_deadline := d\<rparr> else s')"
proof -
  have st: "st_of s' = (st_of s)(i := Waiting_timer)" and dl: "deadline_of s' = (deadline_of s)(i := d)"
    and m: "max_tasks s' = max_tasks s" and n: "nearest_deadline s' = nearest_deadline s"
    using assms(4) by (auto simp: fun_eq_iff)
  have low: "nearest_deadline s \<le> deadline_of s j" if "j < max_tasks s" "st_of s j = Waiting_timer" for j
    using assms(1) that by (simp add: timer_ok_def)
  show ?thesis
  proof (cases "d < nearest_deadline s")
    case True
    then have "d \<le> deadline_of s j" if "j < max_tasks s" "st_of s j = Waiting_timer" for j
      using low [OF that] by (meson order.trans order.strict_implies_order)
    then show ?thesis using True assms(2) by (auto simp: timer_ok_def st dl m n)
  next
    case False
    have "nearest_deadline s = - 1 \<or>
        (\<exists>j < max_tasks s. j \<noteq> i \<and> st_of s j = Waiting_timer \<and> deadline_of s j = nearest_deadline s)"
      using assms(1,3) unfolding timer_ok_def by metis
    then show ?thesis using False low by (auto simp: timer_ok_def st dl m n not_less)
  qed
qed

lemma arm_base:
  assumes "sched_base s" and "st_of s i = Running"
  shows "sched_base (set_state i Waiting_timer (set_deadline i d s))"
proof -
  have "sched_base (set_deadline i d s)"
  proof (rule base_keep [OF assms(1)])
    show "ready_ok (set_deadline i d s)"
      by (rule ready_ok_keep [OF sched_baseD(2) [OF assms(1)]]) (auto simp: fun_eq_iff)
  qed (auto simp: fun_eq_iff)
  then show ?thesis by (rule set_state_base) (use assms in auto)
qed

lemma nearest_base [simp]: "sched_base (s\<lparr>nearest_deadline := d\<rparr>) = sched_base s"
proof -
  have "ready_list (s\<lparr>nearest_deadline := d\<rparr>) = ready_list s" by (simp add: ready_list_def)
  then show ?thesis by (simp add: sched_base_def inv_defs ready_rep_def)
qed

lemma arm_inv:
  assumes inv: "sched_inv s" and cur: "current s = Some i" and run: "st_of s i = Running"
  shows "sched_inv (arm_current_timer d s)" "evolves s (arm_current_timer d s)"
proof -
  have i: "i < max_tasks s" using sched_invD(8) [OF inv] cur by (simp add: current_ok_def)
  obtain ok dl log where cd: "compute_deadline (now_us s) d 0 (hook_log s) = (ok, dl, log)"
    by (cases "compute_deadline (now_us s) d 0 (hook_log s)") auto
  let ?s1 = "s\<lparr>hook_log := log\<rparr>"
  have pre: "\<exists>es. log = hook_log s @ es"
    using cd by (auto simp: compute_deadline_def Let_def split: if_splits)
  have inv1: "sched_inv ?s1" using inv by (subst sched_inv_more [of _ s]) simp_all
  have ev1: "evolves s ?s1" by (rule evolvesI) (use pre in \<open>simp_all add: ready_list_def\<close>)
  let ?s3 = "set_state i Waiting_timer (set_deadline i dl ?s1)"
  let ?s4 = "if dl < nearest_deadline ?s3 then ?s3\<lparr>nearest_deadline := dl\<rparr> else ?s3"
  have def: "arm_current_timer d s = (if d = 0 then yield_current s else if ok then ?s4 else yield_current ?s1)"
    using cur cd by (simp add: arm_current_timer_def Let_def)
  have y: "sched_inv (yield_current s)" "evolves s (yield_current s)"
    by (rule yield_inv [OF inv cur run])+
  have y1: "sched_inv (yield_current ?s1)" "evolves ?s1 (yield_current ?s1)"
    by (rule yield_inv [OF inv1, where i = i]; use cur run in simp)+
  have base: "sched_base ?s4"
    using arm_base [OF sched_invD(1) [OF inv1], of i dl] run by simp
  have cover: "cover_ok ?s4"
    by (rule cover_keep [OF sched_invD(2) [OF inv1]]) (use run in \<open>auto simp: fun_eq_iff split: if_splits\<close>)
  have timer: "timer_ok ?s4"
    by (rule timer_arm [OF sched_invD(3) [OF inv1] _ _ refl]) (use i run in auto)
  have rl: "ready_list ?s4 = ready_list s"
    by (rule ready_list_cong) (auto simp: fun_eq_iff)
  have ev: "evolves s ?s4"
  proof (rule evolvesI)
    show "\<exists>ys. ready_list ?s4 = ready_list s @ ys" using rl by simp
    show "\<exists>es. hook_log ?s4 = hook_log s @ es" using pre by simp
    fix j show "slot_step (current s = Some j) (slots s j) (slots ?s4 j)"
      using run cur by (auto simp: slot_step_def)
  qed simp_all
  show "sched_inv (arm_current_timer d s)"
    using y(1) y1(1) base cover timer unfolding def by (simp add: sched_inv_def)
  show "evolves s (arm_current_timer d s)"
    using y(2) evolves_trans [OF ev1 y1(2)] ev unfolding def by simp
qed

section \<open>Adopting a frame\<close>

lemma acquire_Some:
  assumes "acquire_slot s = (Some i, s1)"
  shows "i < max_tasks s" "\<not> is_active (st_of s i)" "gen_of s i \<noteq> max_generation"
    "s1 = set_generation i (gen_of s i + 1) s"
  using assms by (auto simp: acquire_slot_def is_active_def dest!: find_upt_Some split: option.splits)

lemma acquire_None:
  assumes "acquire_slot s = (None, s1)"
  shows "s1 = s" "i < max_tasks s \<Longrightarrow> \<not> is_active (st_of s i) \<Longrightarrow> gen_of s i = max_generation"
  using assms by (auto simp: acquire_slot_def is_active_def find_upt_None split: option.splits)

lemma set_generation_views [simp]:
  "handle_of (set_generation i g s) = handle_of s" "parent_of (set_generation i g s) = parent_of s"
  "deadline_of (set_generation i g s) = deadline_of s" "st_of (set_generation i g s) = st_of s"
  "next_of (set_generation i g s) = next_of s" "gen_of (set_generation i g s) = (gen_of s)(i := g)"
  by (auto simp: fun_eq_iff)

lemma set_generation_inv [simp]: "sched_inv (set_generation i g s) = sched_inv s"
  by (rule sched_inv_more) simp_all

lemma generation_succ: "(g :: 32 word) \<noteq> max_generation \<Longrightarrow> g < g + 1"
proof -
  assume "g \<noteq> max_generation"
  then have "unat g \<noteq> unat (- 1 :: 32 word)" unfolding max_generation_def by (metis word_unat_eq_iff)
  then have "unat g + 1 < 2 ^ 32" using unat32_lt [of g] by (simp add: unat32_max)
  then have "unat (g + 1) = unat g + 1" by (simp add: unat_word_ariths(1))
  then show "g < g + 1" by (simp add: word_less_nat_alt)
qed

text \<open>What \<open>schedule\<close> and \<open>start_child_await\<close> do with an acquired slot.\<close>

definition adopt :: "nat \<Rightarrow> nat option \<Rightarrow> nat option \<Rightarrow> 'a sched_scheme \<Rightarrow> 'a sched_scheme" where
  "adopt i h p s = count_active (ready_push i (set_parent i p (set_next i None
     (set_state i Ready (set_handle i h s)))))"

lemma count_active_fields [simp]:
  "slots (count_active s) = slots s" "max_tasks (count_active s) = max_tasks s"
  "ready_head (count_active s) = ready_head s" "ready_tail (count_active s) = ready_tail s"
  "ready_count (count_active s) = ready_count s" "active_count (count_active s) = active_count s + 1"
  "peak_count (count_active s) = max (peak_count s) (active_count s + 1)"
  "current (count_active s) = current s" "in_poll (count_active s) = in_poll s"
  "shutting_down (count_active s) = shutting_down s" "now_us (count_active s) = now_us s"
  "nearest_deadline (count_active s) = nearest_deadline s" "hook_log (count_active s) = hook_log s"
  "tasks (count_active s) = tasks s" "fpool (count_active s) = fpool s"
  "sched.more (count_active s) = sched.more s"
  by (auto simp: count_active_def Let_def)

lemma adopt_views [simp]:
  "handle_of (adopt i h p s) = (handle_of s)(i := h)" "parent_of (adopt i h p s) = (parent_of s)(i := p)"
  "deadline_of (adopt i h p s) = deadline_of s" "gen_of (adopt i h p s) = gen_of s"
  "st_of (adopt i h p s) = (st_of s)(i := Ready)"
  by (auto simp: adopt_def fun_eq_iff)

lemma adopt_fields [simp]:
  "max_tasks (adopt i h p s) = max_tasks s" "active_count (adopt i h p s) = active_count s + 1"
  "peak_count (adopt i h p s) = max (peak_count s) (active_count s + 1)"
  "current (adopt i h p s) = current s" "in_poll (adopt i h p s) = in_poll s"
  "shutting_down (adopt i h p s) = shutting_down s" "now_us (adopt i h p s) = now_us s"
  "nearest_deadline (adopt i h p s) = nearest_deadline s" "hook_log (adopt i h p s) = hook_log s"
  "tasks (adopt i h p s) = tasks s" "fpool (adopt i h p s) = fpool s"
  "sched.more (adopt i h p s) = sched.more s"
  by (simp_all add: adopt_def)

lemma adopt_fifo:
  assumes "ready_ok s" "i < max_tasks s" "\<not> is_active (st_of s i)"
  shows "ready_ok (adopt i h p s)" "ready_list (adopt i h p s) = ready_list s @ [i]"
proof -
  let ?s = "set_parent i p (set_next i None (set_state i Ready (set_handle i h s)))"
  have i: "i \<notin> set (ready_list s)" using assms by (auto simp: ready_okD(4))
  have n: "next_of ?s = (next_of s)(i := None)" by (auto simp: fun_eq_iff)
  have "fifo (next_of ?s) (ready_head s) (ready_tail s) (ready_list s)"
    unfolding n using ready_okD(1) [OF assms(1)] i by (subst fifo_cong [of _ _ "next_of s"]) auto
  then have "ready_rep ?s (ready_list s)" using ready_okD(2) [OF assms(1)] by (simp add: ready_rep_def)
  from ready_push_rep [OF this i] have rep: "ready_rep (adopt i h p s) (ready_list s @ [i])"
    by (simp add: adopt_def ready_rep_def)
  have "j \<in> set (ready_list s @ [i]) \<longleftrightarrow>
      j < max_tasks (adopt i h p s) \<and> st_of (adopt i h p s) j = Ready" for j
    using assms(2) by (auto simp: ready_okD(4) [OF assms(1)])
  from ready_okI [OF rep this]
  show "ready_ok (adopt i h p s)" "ready_list (adopt i h p s) = ready_list s @ [i]" by auto
qed

lemma adopt_count:
  assumes "count_ok s" "i < max_tasks s" "\<not> is_active (st_of s i)"
  shows "count_ok (adopt i h p s)"
proof -
  have c: "count_below (max_tasks s) (\<lambda>j. is_active (((st_of s)(i := Ready)) j))
      = Suc (count_below (max_tasks s) (\<lambda>j. is_active (st_of s j)))"
    by (rule count_below_insert [of i]) (use assms in auto)
  moreover have "count_below (max_tasks s) (\<lambda>j. is_active (((st_of s)(i := Ready)) j)) \<le> max_tasks s"
    by (rule count_below_le)
  ultimately show ?thesis using assms(1) by (simp add: count_ok_def)
qed

lemma adopt_rest:
  assumes "frame_ok s" "current_ok s" "cover_ok s" "timer_ok s" "i < max_tasks s" "\<not> is_active (st_of s i)"
  shows "frame_ok (adopt i (Some f) p s)" "current_ok (adopt i (Some f) p s)"
    "cover_ok (adopt i (Some f) p s)" "timer_ok (adopt i (Some f) p s)"
proof -
  show "frame_ok (adopt i (Some f) p s)" using assms(1) by (simp add: frame_ok_def)
  show "current_ok (adopt i (Some f) p s)" using assms(2,6) by (auto simp: current_ok_def)
  show "timer_ok (adopt i (Some f) p s)"
    by (rule timer_keep [OF assms(4)]) (use assms(6) in auto)
  show "cover_ok (adopt i (Some f) p s)"
    unfolding cover_ok_def
  proof (intro allI impI)
    fix j assume "j < max_tasks (adopt i (Some f) p s)" "st_of (adopt i (Some f) p s) j = Waiting_child"
    then have "j < max_tasks s" "st_of s j = Waiting_child" by (auto split: if_splits)
    with assms(3) obtain c where "c < max_tasks s" "is_active (st_of s c)" "parent_of s c = Some j"
      by (auto simp: cover_ok_def)
    then show "\<exists>c < max_tasks (adopt i (Some f) p s). is_active (st_of (adopt i (Some f) p s) c) \<and>
        parent_of (adopt i (Some f) p s) c = Some j"
      using assms(6) by (intro exI [of _ c]) auto
  qed
qed

lemma adopt_evolves:
  assumes "ready_ok s" "i < max_tasks s" "\<not> is_active (st_of s i)" "gen_of s i \<noteq> max_generation"
    "current_ok s"
  shows "evolves s (adopt i h p (set_generation i (gen_of s i + 1) s))"
proof (rule evolvesI)
  let ?s = "set_generation i (gen_of s i + 1) s"
  have "ready_ok ?s" "ready_list ?s = ready_list s"
    by (rule ready_ok_keep [OF assms(1)]; simp)+
  then show "\<exists>ys. ready_list (adopt i h p ?s) = ready_list s @ ys"
    using adopt_fifo(2) [of ?s i h p] assms(2,3) by simp
  fix j show "slot_step (current s = Some j) (slots s j) (slots (adopt i h p ?s) j)"
  proof (cases "j = i")
    case True
    then show ?thesis using assms(2,3) generation_succ [OF assms(4)]
      by (auto simp: slot_step_def is_active_def)
  qed (simp add: slot_step_def)
qed simp_all

lemma adopt_links_root:
  assumes "links_ok s" "i < max_tasks s" "\<not> is_active (st_of s i)"
  shows "links_ok (adopt i h None s)"
proof (rule links_okI; unfold adopt_views adopt_fields)
  fix c p
  assume "c < max_tasks s" "is_active (((st_of s)(i := Ready)) c)" "((parent_of s)(i := None)) c = Some p"
  then have c: "c < max_tasks s" "is_active (st_of s c)" "parent_of s c = Some p"
    by (auto split: if_splits)
  from links_okD(1,2) [OF assms(1) this] assms(3)
  show "p < max_tasks s \<and> ((st_of s)(i := Ready)) p = Waiting_child" by auto
  fix d
  assume "d < max_tasks s" "is_active (((st_of s)(i := Ready)) d)" "((parent_of s)(i := None)) d = Some p"
  then have "d < max_tasks s" "is_active (st_of s d)" "parent_of s d = Some p"
    by (auto split: if_splits)
  from links_okD(3) [OF assms(1) c this] show "c = d" .
qed

lemma adopt_links_child:
  assumes "links_ok s" "i < max_tasks s" "\<not> is_active (st_of s i)" "q < max_tasks s" "st_of s q = Running"
  shows "links_ok (set_state q Waiting_child (adopt i h (Some q) s))"
proof -
  let ?st = "(st_of s)(i := Ready, q := Waiting_child)" and ?pa = "(parent_of s)(i := Some q)"
  have qi: "q \<noteq> i" using assms by auto
  have old: "c < max_tasks s \<and> is_active (st_of s c) \<and> parent_of s c = Some p"
    if "c \<noteq> i" "c < max_tasks s" "is_active (?st c)" "?pa c = Some p" for c p
    using that assms(5) by (auto split: if_splits)
  have nq: "parent_of s c \<noteq> Some q" if "c < max_tasks s" "is_active (st_of s c)" for c
    by (rule no_child [OF assms(1) _ that]) (use assms(5) in simp)
  show ?thesis
  proof (rule links_okI; unfold set_state_views adopt_views adopt_fields upd_slot_fields)
    fix c p
    assume c: "c < max_tasks s" "is_active (?st c)" "?pa c = Some p"
    show "p < max_tasks s \<and> ?st p = Waiting_child"
    proof (cases "c = i")
      case True
      then show ?thesis using c assms(4) by simp
    next
      case False
      from old [OF this c] have o: "c < max_tasks s" "is_active (st_of s c)" "parent_of s c = Some p"
        by simp_all
      have "p < max_tasks s" "st_of s p = Waiting_child" by (rule links_okD(1,2) [OF assms(1) o])+
      then show ?thesis using assms(3) by auto
    qed
    fix d
    assume d: "d < max_tasks s" "is_active (?st d)" "?pa d = Some p"
    have pc: "p \<noteq> q" if "c \<noteq> i" using old [OF that c] nq [of c] by auto
    have pd: "p \<noteq> q" if "d \<noteq> i" using old [OF that d] nq [of d] by auto
    show "c = d"
    proof (cases "c = i \<or> d = i")
      case True
      then have "p = q" using c(3) d(3) by auto
      then show ?thesis using pc pd by auto
    next
      case False
      with old [OF _ c] old [OF _ d]
      have o: "c < max_tasks s" "is_active (st_of s c)" "parent_of s c = Some p"
        "d < max_tasks s" "is_active (st_of s d)" "parent_of s d = Some p" by simp_all
      show ?thesis by (rule links_okD(3) [OF assms(1) o])
    qed
  qed
qed

lemma set_task_upd_slot: "set_task t h (upd_slot i f s) = upd_slot i f (set_task t h s)"
  by (rule sched.equality) simp_all

text \<open>\<open>schedule\<close> in one step: refused, or the frame is adopted into the acquired slot.\<close>

lemma schedule_cases:
  "schedule task s =
     (if shutting_down s then (invalid_handle, s)
      else case tasks s task of
        None \<Rightarrow> (invalid_handle, on_error Invalid_task s)
      | Some f \<Rightarrow> (case acquire_slot s of
          (None, s1) \<Rightarrow> (invalid_handle, on_error Task_limit s)
        | (Some i, s1) \<Rightarrow>
            (let s' = adopt i (Some f) None (set_task task None s1) in (mk_task_handle i s', s'))))"
proof -
  obtain r s1 where a: "acquire_slot s = (r, s1)" by (cases "acquire_slot s") auto
  have t: "tasks s1 = tasks s"
    using a by (auto simp: acquire_slot_def split: option.splits)
  show ?thesis
  proof (cases r)
    case None
    then show ?thesis using a acquire_None(1) [of s s1] t
      by (simp add: schedule_def task_bool_def split: option.split)
  next
    case (Some i)
    then show ?thesis using a t
      by (auto simp: schedule_def task_bool_def take_frame_def Let_def adopt_def split: option.split)
  qed
qed

lemma schedule_inv:
  assumes inv: "sched_inv s"
  shows "sched_inv (snd (schedule task s))" "evolves s (snd (schedule task s))"
proof -
  have "sched_inv (snd (schedule task s)) \<and> evolves s (snd (schedule task s))"
  proof (cases "shutting_down s \<or> tasks s task = None \<or> (\<exists>s1. acquire_slot s = (None, s1))")
    case True
    then show ?thesis using inv on_error_evolves
      by (auto simp: schedule_cases split: option.split)
  next
    case False
    then obtain f i s1 where f: "tasks s task = Some f" and a: "acquire_slot s = (Some i, s1)"
      by (cases "acquire_slot s") (auto split: option.splits)
    note aq = acquire_Some [OF a]
    let ?u = "set_task task None s" let ?t = "set_generation i (gen_of s i + 1) ?u"
    have eq: "snd (schedule task s) = adopt i (Some f) None ?t"
      using False f a aq(4) by (simp add: schedule_cases Let_def set_task_upd_slot)
    have invu: "sched_inv ?u" and invt: "sched_inv ?t" using inv by simp_all
    have it: "i < max_tasks ?t" "\<not> is_active (st_of ?t i)" using aq by simp_all
    have "sched_inv (adopt i (Some f) None ?t)"
      using adopt_rest [OF sched_invD(7,8,2,3) [OF invt] it] adopt_fifo [OF sched_invD(5) [OF invt] it]
        adopt_count [OF sched_invD(6) [OF invt] it] adopt_links_root [OF sched_invD(9) [OF invt] it]
        sched_invD(4) [OF inv] by (simp add: sched_inv_def sched_base_def)
    moreover have "evolves ?u (adopt i (Some f) None ?t)"
      using adopt_evolves [OF sched_invD(5) [OF invu], of i] sched_invD(8) [OF invu] aq by simp
    ultimately show ?thesis unfolding eq using evolves_trans [OF set_task_evolves] by blast
  qed
  then show "sched_inv (snd (schedule task s))" "evolves s (snd (schedule task s))" by auto
qed

end
