(* ===== verification/Scheduler_Api.thy ===== *)
theory Scheduler_Api
  imports Scheduler_Inv
begin

text \<open>
  The operations of the scheduler that the awaitables call while a task runs (scheduler.h):
  awaiting a child, parking on a wait queue, waking. Each keeps the invariant, changes only
  what \<open>evolves\<close> allows, and has the effect its comment promises on every branch.
\<close>

section \<open>Code that leaves the running task running\<close>

definition quiet :: "'a sched_scheme \<Rightarrow> 'a sched_scheme \<Rightarrow> bool" where
  "quiet s s' \<longleftrightarrow> evolves s s' \<and> (\<forall>i. st_of s i = Running \<longrightarrow> st_of s' i = Running)"

lemma quiet_evolves: "quiet s s' \<Longrightarrow> evolves s s'"
  by (simp add: quiet_def)

lemma quiet_refl [simp]: "quiet s s"
  by (simp add: quiet_def)

lemma quiet_trans: "quiet s s' \<Longrightarrow> quiet s' s'' \<Longrightarrow> quiet s s''"
  using evolves_trans [of s s' s''] by (simp add: quiet_def)

lemma quiet_on_error: "quiet s (on_error e s)"
  by (simp add: quiet_def on_error_evolves)

lemma quiet_slot:
  assumes "quiet s s'" "is_active (st_of s i)"
  shows "is_active (st_of s' i)" "handle_of s' i = handle_of s i" "parent_of s' i = parent_of s i"
    "gen_of s' i = gen_of s i"
  using evolves_slot [OF quiet_evolves [OF assms(1)], of i] assms(2)
  unfolding slot_step_def fold_views by blast+

section \<open>Awaiting a child\<close>

lemma acquire_slot_shape:
  "(\<exists>i. acquire_slot s = (Some i, set_generation i (gen_of s i + 1) s)) \<or> acquire_slot s = (None, s)"
proof (cases "acquire_slot s")
  case (Pair r t)
  show ?thesis
  proof (cases r)
    case None
    with Pair acquire_None(1) [of s t] show ?thesis by simp
  next
    case (Some i)
    with Pair acquire_Some(4) [of s i t] show ?thesis by simp
  qed
qed

lemma start_child_cases:
  "start_child_await co child awaiting s =
     (if \<exists>p. current s = Some p \<and> st_of s p = Running \<and> handle_of s p = awaiting
      then (case acquire_slot s of
          (None, s1) \<Rightarrow> (True, on_error Task_limit (make_ready (the (current s)) (handle_destroy co child s)))
        | (Some i, s1) \<Rightarrow> (True, set_state (the (current s)) Waiting_child (adopt i child (current s) s1)))
      else (False, on_error Invalid_task (handle_destroy co child s)))"
  using acquire_slot_shape [of s]
  by (auto simp: start_child_await_def Let_def adopt_def make_ready_def split: option.split)

lemma adopt_child_inv:
  fixes f :: nat
  assumes inv: "sched_inv s" and p: "current s = Some p" "st_of s p = Running"
    and a: "acquire_slot s = (Some i, s1)"
  defines "s' \<equiv> set_state p Waiting_child (adopt i (Some f) (Some p) s1)"
  shows "sched_inv s'" "evolves s s'"
proof -
  note aq = acquire_Some [OF a]
  have inv1: "sched_inv s1" using inv aq(4) by simp
  have i: "i < max_tasks s1" "\<not> is_active (st_of s1 i)" using aq by simp_all
  have pm: "p < max_tasks s" using sched_invD(8) [OF inv] p by (simp add: current_ok_def)
  have pi: "p \<noteq> i" using p(2) aq(2) by auto
  let ?t = "adopt i (Some f) (Some p) s1"
  have t: "frame_ok ?t" "current_ok ?t" "cover_ok ?t" "timer_ok ?t" "ready_ok ?t" "count_ok ?t"
    using adopt_rest [OF sched_invD(7,8,2,3) [OF inv1] i] adopt_fifo [OF sched_invD(5) [OF inv1] i]
      adopt_count [OF sched_invD(6) [OF inv1] i] by auto
  have st: "st_of s' = (st_of s)(i := Ready, p := Waiting_child)" and par: "parent_of s' = (parent_of s)(i := Some p)"
    and m: "max_tasks s' = max_tasks s"
    using aq(4) pi by (auto simp: s'_def fun_eq_iff)
  have "links_ok s'" unfolding s'_def
    by (rule adopt_links_child [OF sched_invD(9) [OF inv1] i]) (use pm p(2) aq(4) in simp_all)
  moreover have "ready_ok s'" unfolding s'_def
    by (rule ready_ok_keep(1) [OF t(5)]) (use p(2) pi aq(4) in \<open>auto\<close>)
  moreover have "count_ok s'" unfolding s'_def
    by (rule count_ok_keep [OF t(6)]) (use p(2) aq(4) in \<open>auto\<close>)
  moreover have "frame_ok s'" using t(1) p(2) pi aq(4) by (auto simp: frame_ok_def s'_def)
  moreover have "current_ok s'" using t(2) p by (auto simp: current_ok_def s'_def)
  moreover have "timer_ok s'" unfolding s'_def
    by (rule timer_keep [OF t(4)]) (use p(2) pi aq(4) in auto)
  moreover have "cover_ok s'" unfolding cover_ok_def m
  proof (intro allI impI)
    fix j assume j: "j < max_tasks s" "st_of s' j = Waiting_child"
    show "\<exists>c < max_tasks s. is_active (st_of s' c) \<and> parent_of s' c = Some j"
    proof (cases "j = p")
      case True
      then show ?thesis using i aq(1) pi by (intro exI [of _ i]) (simp add: st par)
    next
      case False
      with j have "st_of s j = Waiting_child" by (auto simp: st split: if_splits)
      with sched_invD(2) [OF inv] j obtain c
        where c: "c < max_tasks s" "is_active (st_of s c)" "parent_of s c = Some j"
        by (auto simp: cover_ok_def)
      then have "c \<noteq> i" using aq(2) by auto
      with c show ?thesis by (intro exI [of _ c]) (simp add: st par)
    qed
  qed
  ultimately show "sched_inv s'"
    using sched_invD(4) [OF inv] by (simp add: sched_inv_def sched_base_def m)
  have "evolves s ?t" unfolding aq(4)
    by (rule adopt_evolves [OF sched_invD(5) [OF inv] aq(1-3) sched_invD(8) [OF inv]])
  moreover have "evolves ?t s'" unfolding s'_def
    by (rule park_evolves) (use p pi aq(4) in auto)
  ultimately show "evolves s s'" by (rule evolves_trans)
qed

lemma start_child_inv:
  assumes inv: "sched_inv s"
    and destroy: "sched_inv (co_destroy co f s)" "quiet s (co_destroy co f s)"
  shows "sched_inv (snd (start_child_await co (Some f) awaiting s))"
    "evolves s (snd (start_child_await co (Some f) awaiting s))"
proof -
  let ?r = "snd (start_child_await co (Some f) awaiting s)"
  let ?d = "co_destroy co f s"
  have "sched_inv ?r \<and> evolves s ?r"
  proof (cases "\<exists>p. current s = Some p \<and> st_of s p = Running \<and> handle_of s p = awaiting")
    case False
    then have "?r = on_error Invalid_task ?d"
      unfolding start_child_cases if_not_P [OF False] by (simp add: handle_destroy_def)
    then show ?thesis
      using destroy evolves_trans [OF quiet_evolves [OF destroy(2)] on_error_evolves] by simp
  next
    case True
    then obtain p where p: "current s = Some p" "st_of s p = Running" "handle_of s p = awaiting" by blast
    show ?thesis
    proof (cases "fst (acquire_slot s)")
      case None
      then have r: "?r = on_error Task_limit (make_ready p ?d)"
        using acquire_slot_shape [of s] p by (auto simp: start_child_cases handle_destroy_def)
      have run: "st_of ?d p = Running" using destroy(2) p(2) by (simp add: quiet_def)
      have pd: "p < max_tasks ?d" "current ?d = Some p"
        using sched_invD(8) [OF inv] p evolvesD(1,2) [OF quiet_evolves [OF destroy(2)]]
        by (simp_all add: current_ok_def)
      have "evolves s (make_ready p ?d)"
        by (rule evolves_trans [OF quiet_evolves [OF destroy(2)] make_ready_evolves])
          (use run pd sched_invD(5) [OF destroy(1)] in auto)
      then show ?thesis using r make_ready_inv [OF destroy(1) pd(1)] run
        by (simp add: evolves_trans [OF _ on_error_evolves])
    next
      case (Some i)
      then obtain s1 where a: "acquire_slot s = (Some i, s1)" by (cases "acquire_slot s") auto
      then have "?r = set_state p Waiting_child (adopt i (Some f) (Some p) s1)"
        using p by (simp add: start_child_cases)
      then show ?thesis using adopt_child_inv [OF inv p(1,2) a] by simp
    qed
  qed
  then show "sched_inv ?r" "evolves s ?r" by auto
qed

section \<open>Parking and waking\<close>

lemma running_is_iff:
  "fst (running_is h s) \<longleftrightarrow> (\<exists>i. current s = Some i \<and> st_of s i = Running \<and> handle_of s i = h)"
  "snd (running_is h s) = (if fst (running_is h s) then s else on_error Invalid_task s)"
  by (auto simp: running_is_def Let_def split: option.splits)

lemma running_is_inv:
  "sched_inv (snd (running_is h s)) = sched_inv s" "quiet s (snd (running_is h s))"
  by (simp_all add: running_is_iff(2) quiet_on_error)

lemma park_running_inv:
  assumes "sched_inv s" and "fst (running_is h s)"
  shows "sched_inv (snd (park_running s))" "evolves s (snd (park_running s))"
    "fst (park_running s) = current s"
    "\<exists>i. current s = Some i \<and> i < max_tasks s \<and> snd (park_running s) = set_state i Waiting_local s"
  using assms sched_invD(8) [OF assms(1)] park_inv [OF assms(1), of _ Waiting_local]
    park_evolves [of s _ Waiting_local]
  by (auto simp: running_is_iff park_running_def current_ok_def)

lemma wake_slot_inv:
  assumes "sched_inv s" and "i < max_tasks s" and "st_of s i = Waiting_local"
  shows "sched_inv (wake_slot (Some i) s)" "quiet s (wake_slot (Some i) s)"
    "ready_list (wake_slot (Some i) s) = ready_list s @ [i]" "wake_slot (Some i) s = make_ready i s"
proof -
  show e: "wake_slot (Some i) s = make_ready i s" by (simp add: wake_slot_def make_ready_def)
  show "sched_inv (wake_slot (Some i) s)" unfolding e
    by (rule make_ready_inv [OF assms(1,2)]) (use assms(3) in simp)
  have "evolves s (make_ready i s)"
    by (rule make_ready_evolves [OF sched_invD(5) [OF assms(1)] assms(2)]) (use assms(3) in simp)
  then show "quiet s (wake_slot (Some i) s)" unfolding e quiet_def using assms(3) by auto
  show "ready_list (wake_slot (Some i) s) = ready_list s @ [i]" unfolding e
    by (rule make_ready_fifo(2) [OF sched_invD(5) [OF assms(1)] assms(2)]) (use assms(3) in simp)
qed

section \<open>Wait queues\<close>

text \<open>A wait queue whose waiters are, oldest first, the slots \<open>ws\<close>, each parked.\<close>

definition wq_rep :: "wait_queue \<Rightarrow> 'a sched_scheme \<Rightarrow> nat list \<Rightarrow> bool" where
  "wq_rep q s ws \<longleftrightarrow> fifo (next_of s) (wq_head q) (wq_tail q) ws \<and>
     (\<forall>i \<in> set ws. i < max_tasks s \<and> st_of s i = Waiting_local)"

lemma wq_rep_init [simp]: "wq_rep wq_init s []"
  by (simp add: wq_rep_def wq_init_def fifo_empty)

lemma wq_rep_unique: "wq_rep q s ws \<Longrightarrow> wq_rep q s vs \<Longrightarrow> ws = vs"
  unfolding wq_rep_def by (blast dest: fifo_unique)

lemma wq_rep_empty: "wq_rep q s ws \<Longrightarrow> wq_empty q \<longleftrightarrow> ws = []"
  by (cases ws) (auto simp: wq_rep_def wq_empty_def fifo_def)

text \<open>The links of the parked slots are changed by the wait queues only.\<close>

lemma wq_rep_keep:
  assumes "wq_rep q s ws" and "max_tasks s' = max_tasks s"
    and "\<And>i. i \<in> set ws \<Longrightarrow> st_of s' i = Waiting_local \<and> next_of s' i = next_of s i"
  shows "wq_rep q s' ws"
proof -
  have "fifo (next_of s') (wq_head q) (wq_tail q) ws = fifo (next_of s) (wq_head q) (wq_tail q) ws"
    by (rule fifo_cong) (use assms(3) in blast)
  then show ?thesis using assms by (auto simp: wq_rep_def)
qed

lemma ready_push_next_other:
  assumes "ready_ok s" and "j \<noteq> i" and "st_of s j \<noteq> Ready"
  shows "next_of (ready_push i s) j = next_of s j"
proof -
  have "ready_tail s \<noteq> Some j"
    using ready_okD(1,4) [OF assms(1)] assms(3) fifo_tail_in by metis
  then show ?thesis using assms(2) by (auto simp: ready_push_next split: option.split)
qed

lemma make_ready_next_other:
  assumes "ready_ok s" and "j \<noteq> i" and "st_of s j \<noteq> Ready"
  shows "next_of (make_ready i s) j = next_of s j"
proof -
  have "ready_tail s \<noteq> Some j"
    using ready_okD(1,4) [OF assms(1)] assms(3) fifo_tail_in by metis
  then show ?thesis using assms(2) by (auto simp: make_ready_def ready_push_next split: option.split)
qed

lemma wake_all_step:
  "ready_push i (set_state i Ready (set_next i None s)) = make_ready i s"
proof -
  have "set_next i None (set_state i Ready (set_next i None s)) = set_next i None (set_state i Ready s)"
    by (rule sched.equality) simp_all
  note eq = this
  show ?thesis unfolding make_ready_def ready_push_def eq ..
qed

text \<open>The loop of \<open>wake_all\<close> ends and wakes exactly the waiters, in their order.\<close>

lemma wake_all_fifo:
  assumes "sched_inv s" and "wq_rep q s ws"
  shows "wake_all q s = Some (wq_init, fold make_ready ws s)"
    and "sched_inv (fold make_ready ws s)"
    and "quiet s (fold make_ready ws s)"
    and "ready_list (fold make_ready ws s) = ready_list s @ ws"
proof -
  have "wake_all q s = Some (wq_init, fold make_ready ws s) \<and> sched_inv (fold make_ready ws s) \<and>
    quiet s (fold make_ready ws s) \<and> ready_list (fold make_ready ws s) = ready_list s @ ws"
    using assms
  proof (induction ws arbitrary: q s)
    case Nil
    then have "q = wq_init" by (simp add: wq_rep_def fifo_def wq_init_def)
    then show ?case using Nil(1) by (subst wake_all.simps) (simp add: wq_pop_front_def wq_init_def)
  next
    case (Cons i ws)
    from Cons.prems(2) have f: "fifo (next_of s) (wq_head q) (wq_tail q) (i # ws)"
      and w: "i < max_tasks s" "st_of s i = Waiting_local" "i \<notin> set ws"
      by (auto simp: wq_rep_def fifo_def)
    obtain q1 where pop: "wq_pop_front (q, s) = (Some i, q1, set_next i None s)"
      using f by (auto simp: fifo_def wq_pop_front_def Let_def)
    have "fifo (next_of (set_next i None s)) (wq_head q1) (wq_tail q1) ws"
      using wq.pop_fifo(2) [of "(q, s)" i ws] f pop by simp
    moreover have "fifo (next_of (set_next i None s)) (wq_head q1) (wq_tail q1) ws
        = fifo (next_of s) (wq_head q1) (wq_tail q1) ws"
      by (rule fifo_cong) (use w(3) in auto)
    ultimately have "fifo (next_of s) (wq_head q1) (wq_tail q1) ws" by simp
    then have rep: "wq_rep q1 s ws" using Cons.prems(2) by (simp add: wq_rep_def)
    note m = wake_slot_inv [OF Cons.prems(1) w(1,2), unfolded wake_slot_inv(4) [OF Cons.prems(1) w(1,2)]]
    have rep1: "wq_rep q1 (make_ready i s) ws"
    proof (rule wq_rep_keep [OF rep])
      fix j assume j: "j \<in> set ws"
      with rep w(3) have "j \<noteq> i" "st_of s j = Waiting_local" by (auto simp: wq_rep_def)
      then show "st_of (make_ready i s) j = Waiting_local \<and> next_of (make_ready i s) j = next_of s j"
        using make_ready_next_other [OF sched_invD(5) [OF Cons.prems(1)], of j i] by simp
    qed simp
    note IH = Cons.IH [OF m(1) rep1]
    have "wake_all q s = wake_all q1 (make_ready i s)"
      by (subst wake_all.simps) (simp add: pop wake_all_step)
    then show ?case using IH m quiet_trans [OF m(2)] by auto
  qed
  then show "wake_all q s = Some (wq_init, fold make_ready ws s)" "sched_inv (fold make_ready ws s)"
    "quiet s (fold make_ready ws s)" "ready_list (fold make_ready ws s) = ready_list s @ ws" by auto
qed

lemma wake_all_views:
  assumes "sched_inv s" and "wq_rep q s ws"
  shows "st_of (fold make_ready ws s) = (\<lambda>i. if i \<in> set ws then Ready else st_of s i)"
    "sched.more (fold make_ready ws s) = sched.more s"
    "max_tasks (fold make_ready ws s) = max_tasks s"
    "j \<notin> set ws \<Longrightarrow> st_of s j \<noteq> Ready \<Longrightarrow> next_of (fold make_ready ws s) j = next_of s j"
proof -
  show "st_of (fold make_ready ws s) = (\<lambda>i. if i \<in> set ws then Ready else st_of s i)"
    by (induction ws arbitrary: s) (auto simp: fun_eq_iff)
  show "sched.more (fold make_ready ws s) = sched.more s"
    "max_tasks (fold make_ready ws s) = max_tasks s"
    by (induction ws arbitrary: s) auto
  have w: "\<forall>i \<in> set ws. i < max_tasks s \<and> st_of s i = Waiting_local" and d: "distinct ws"
    using assms(2) by (auto simp: wq_rep_def fifo_distinct)
  show "next_of (fold make_ready ws s) j = next_of s j" if "j \<notin> set ws" "st_of s j \<noteq> Ready"
    using assms(1) w d that
  proof (induction ws arbitrary: s)
    case (Cons i ws)
    have "sched_inv (make_ready i s)" by (rule make_ready_inv) (use Cons.prems in auto)
    then have "next_of (fold make_ready ws (make_ready i s)) j = next_of (make_ready i s) j"
      by (rule Cons.IH) (use Cons.prems in auto)
    then show ?case
      using make_ready_next_other [OF sched_invD(5) [OF Cons.prems(1)], of j i] Cons.prems by simp
  qed simp
qed

text \<open>Parking on a wait queue appends the running task to it.\<close>

lemma wait_on_inv:
  assumes inv: "sched_inv s" and rep: "wq_rep q s ws"
    and run: "current s = Some i" "st_of s i = Running" "handle_of s i = h"
    and res: "wait_on h q s = (b, q', s')"
  shows "b" "wq_rep q' s' (ws @ [i])" "sched_inv s'" "evolves s s'"
    "st_of s' = (st_of s)(i := Waiting_local)" "sched.more s' = sched.more s" "max_tasks s' = max_tasks s"
    "ready_list s' = ready_list s"
    "j \<notin> set ws \<Longrightarrow> j \<noteq> i \<Longrightarrow> next_of s' j = next_of s j"
proof -
  have i: "i < max_tasks s" using sched_invD(8) [OF inv] run by (simp add: current_ok_def)
  have iw: "i \<notin> set ws" using rep run(2) by (auto simp: wq_rep_def)
  let ?t = "set_state i Waiting_local s"
  have r: "b" "wq_push_back i (q, ?t) = (q', s')"
    using res run by (auto simp: wait_on_def split: prod.splits)
  show "b" by (rule r(1))
  have tail: "wq_tail q = Some t \<Longrightarrow> t \<in> set ws" for t
    using rep by (auto simp: wq_rep_def intro: fifo_tail_in)
  have s': "s' = (case wq_tail q of None \<Rightarrow> set_next i None ?t | Some t \<Rightarrow> set_next t (Some i) (set_next i None ?t))"
    using r(2) by (auto simp: wq_push_back_def Let_def split: option.splits)
  have views: "handle_of s' = handle_of s" "parent_of s' = parent_of s" "deadline_of s' = deadline_of s"
    "st_of s' = (st_of s)(i := Waiting_local)" "gen_of s' = gen_of s"
    using tail iw by (auto simp: s' fun_eq_iff split: option.split)
  have fields: "max_tasks s' = max_tasks s" "active_count s' = active_count s" "peak_count s' = peak_count s"
    "current s' = current s" "in_poll s' = in_poll s" "shutting_down s' = shutting_down s"
    "now_us s' = now_us s" "nearest_deadline s' = nearest_deadline s" "hook_log s' = hook_log s"
    "ready_head s' = ready_head s" "ready_tail s' = ready_tail s" "ready_count s' = ready_count s"
    "sched.more s' = sched.more s"
    by (simp_all add: s' split: option.split)
  show "st_of s' = (st_of s)(i := Waiting_local)" "sched.more s' = sched.more s" "max_tasks s' = max_tasks s"
    by (fact views fields)+
  have nexts: "next_of s' j = next_of s j" if "j \<notin> set ws" "j \<noteq> i" for j
    using that tail by (auto simp: s' split: option.split)
  then show "j \<notin> set ws \<Longrightarrow> j \<noteq> i \<Longrightarrow> next_of s' j = next_of s j" .
  have "fifo (next_of s) (wq_head q) (wq_tail q) ws" using rep by (simp add: wq_rep_def)
  from wq.push_fifo [of "(q, ?t)" ws i, simplified, OF this iw] r(2)
  show "wq_rep q' s' (ws @ [i])" using rep iw i by (auto simp: wq_rep_def views(4) fields(1))
  have rn: "next_of s' j = next_of s j" if "j \<in> set (ready_list s)" for j
  proof (rule nexts)
    have "st_of s j = Ready" using that ready_okD(4) [OF sched_invD(5) [OF inv]] by simp
    then show "j \<notin> set ws" "j \<noteq> i" using rep run(2) by (auto simp: wq_rep_def)
  qed
  have "ready_rep s' (ready_list s)"
    unfolding ready_rep_def fields
    using ready_okD(1,2) [OF sched_invD(5) [OF inv]] fifo_cong [OF rn] by simp
  moreover have "j \<in> set (ready_list s) \<longleftrightarrow> j < max_tasks s' \<and> st_of s' j = Ready" for j
    using ready_okD(4) [OF sched_invD(5) [OF inv], of j] run(2) by (auto simp: views(4) fields(1))
  ultimately have ready: "ready_ok s'" "ready_list s' = ready_list s" by (rule ready_okI)+
  then show "ready_list s' = ready_list s" by simp
  have "sched_base s'"
    by (rule base_keep [OF sched_invD(1) [OF inv] ready(1) fields(1-4) views(1,2)])
      (use run(2) views(4) in \<open>auto split: if_splits\<close>)
  moreover have "cover_ok s'"
    by (rule cover_keep [OF sched_invD(2) [OF inv] fields(1) views(2)]) (use run(2) views(4) in \<open>auto split: if_splits\<close>)
  moreover have "timer_ok s'"
    by (rule timer_keep [OF sched_invD(3) [OF inv] fields(1,8)]) (use run(2) views(3,4) in \<open>auto split: if_splits\<close>)
  ultimately show "sched_inv s'" by (simp add: sched_inv_def)
  show "evolves s s'"
  proof (rule evolvesI)
    fix j show "slot_step (current s = Some j) (slots s j) (slots s' j)"
      unfolding slot_step_def fold_views views using run by auto
  qed (use ready(2) fields in simp_all)
qed

section \<open>What a synchronisation object leaves alone\<close>

text \<open>The slots parked outside \<open>P\<close> stay parked, with their links.\<close>

definition locals_kept :: "nat set \<Rightarrow> 'a sched_scheme \<Rightarrow> 'a sched_scheme \<Rightarrow> bool" where
  "locals_kept P s s' \<longleftrightarrow> max_tasks s' = max_tasks s \<and>
     (\<forall>j. st_of s j = Waiting_local \<and> j \<notin> P \<longrightarrow> st_of s' j = Waiting_local \<and> next_of s' j = next_of s j)"

lemma locals_kept_refl [simp]: "locals_kept P s s"
  by (simp add: locals_kept_def)

lemma locals_kept_mono: "locals_kept P s s' \<Longrightarrow> P \<subseteq> Q \<Longrightarrow> locals_kept Q s s'"
  unfolding locals_kept_def by blast

lemma locals_kept_trans: "locals_kept P s s' \<Longrightarrow> locals_kept P s' s'' \<Longrightarrow> locals_kept P s s''"
  unfolding locals_kept_def by simp

lemma make_ready_locals:
  assumes "sched_inv s" "i \<in> P"
  shows "locals_kept P s (make_ready i s)"
  unfolding locals_kept_def
proof (intro conjI allI impI)
  fix j assume j: "st_of s j = Waiting_local \<and> j \<notin> P"
  then have "j \<noteq> i" using assms(2) by blast
  then show "st_of (make_ready i s) j = Waiting_local" "next_of (make_ready i s) j = next_of s j"
    using make_ready_next_other [OF sched_invD(5) [OF assms(1)], of j i] j by simp_all
qed simp

end
