(* ===== verification/Scheduler_Timers.thy ===== *)
theory Scheduler_Timers
  imports Scheduler_Api "HOL-Library.Product_Lexorder"
begin

text \<open>
  Timers (\<open>process_due_timers\<close>, \<open>recompute_nearest_deadline\<close> of scheduler.h): the
  selection loop is the list of the due slots sorted by deadline and then by slot index, put
  on the ready FIFO in this order; the cached deadline that guards it is exact, so the fast
  path never misses a due timer.
\<close>

section \<open>The due timers\<close>

definition due :: "'a sched_scheme \<Rightarrow> nat \<Rightarrow> bool" where
  "due s i \<longleftrightarrow> st_of s i = Waiting_timer \<and> deadline_of s i \<le> now_us s"

definition due_keys :: "'a sched_scheme \<Rightarrow> (tick_t \<times> nat) set" where
  "due_keys s = set (map (\<lambda>i. (deadline_of s i, i)) (filter (due s) [0..<max_tasks s]))"

text \<open>The specification: the due slots in ascending order of deadline, ties by slot index.\<close>

definition due_list :: "'a sched_scheme \<Rightarrow> nat list" where
  "due_list s = map snd (sorted_list_of_set (due_keys s))"

lemma due_keys_iff: "(d, i) \<in> due_keys s \<longleftrightarrow> i < max_tasks s \<and> due s i \<and> d = deadline_of s i"
  by (auto simp: due_keys_def)

lemma finite_due_keys [simp]: "finite (due_keys s)"
  by (simp add: due_keys_def)

lemma set_due_list: "set (due_list s) = {i. i < max_tasks s \<and> due s i}"
  by (auto simp: due_list_def due_keys_def image_image)

lemma distinct_due_list: "distinct (due_list s)"
proof -
  have "inj_on snd (set (sorted_list_of_set (due_keys s)))"
    by (auto simp: inj_on_def due_keys_iff)
  then show ?thesis by (simp add: due_list_def distinct_map)
qed

text \<open>The list is ordered by deadline, and by slot index among equal deadlines.\<close>

lemma sorted_due_list:
  "sorted_wrt (\<lambda>i j. deadline_of s i < deadline_of s j \<or> (deadline_of s i = deadline_of s j \<and> i < j)) (due_list s)"
proof -
  have "sorted_wrt (<) (sorted_list_of_set (due_keys s))" by simp
  then have "sorted_wrt (\<lambda>x y. x < y \<and> x \<in> due_keys s \<and> y \<in> due_keys s) (sorted_list_of_set (due_keys s))"
    by (rule sorted_wrt_mono_rel [rotated]) auto
  then have "sorted_wrt (\<lambda>x y. deadline_of s (snd x) < deadline_of s (snd y) \<or>
      (deadline_of s (snd x) = deadline_of s (snd y) \<and> snd x < snd y)) (sorted_list_of_set (due_keys s))"
    by (rule sorted_wrt_mono_rel [rotated]) (auto simp: due_keys_iff less_prod_def')
  then show ?thesis by (simp add: due_list_def sorted_wrt_map)
qed

section \<open>The selection scan\<close>

lemma soonest_scan:
  "case fold (soonest_step s) [0..<n] None of
     None \<Rightarrow> \<forall>j < n. \<not> due s j
   | Some i \<Rightarrow> i < n \<and> due s i \<and> (\<forall>j < n. due s j \<longrightarrow> (deadline_of s i, i) \<le> (deadline_of s j, j))"
proof (induction n)
  case (Suc n)
  define b where "b = fold (soonest_step s) [0..<n] None"
  have step: "fold (soonest_step s) [0..<Suc n] None = soonest_step s n b" by (simp add: b_def)
  have due_n: "due s n \<longleftrightarrow> state (slots s n) = Waiting_timer \<and> deadline_us (slots s n) \<le> now_us s"
    by (simp add: due_def)
  show ?case
  proof (cases b)
    case None
    then have "\<forall>j < n. \<not> due s j" using Suc by (simp add: b_def)
    moreover have "soonest_step s n b = (if due s n then Some n else None)"
      using None by (simp add: soonest_step_def due_n)
    ultimately show ?thesis unfolding step by (auto simp: less_Suc_eq)
  next
    case (Some i)
    then have i: "i < n" "due s i" "\<forall>j < n. due s j \<longrightarrow> (deadline_of s i, i) \<le> (deadline_of s j, j)"
      using Suc by (simp_all add: b_def)
    have eq: "soonest_step s n b = (if due s n \<and> deadline_of s n < deadline_of s i then Some n else Some i)"
      using Some by (simp add: soonest_step_def due_n)
    show ?thesis
    proof (cases "due s n \<and> deadline_of s n < deadline_of s i")
      case True
      have "(deadline_of s n, n) \<le> (deadline_of s j, j)" if "j < n" "due s j" for j
        using i(3) that True by (auto simp: less_eq_prod_simp)
      then show ?thesis unfolding step eq using True by (auto simp: less_Suc_eq)
    next
      case False
      have "(deadline_of s i, i) \<le> (deadline_of s n, n)" if "due s n"
        using False that i(1) by (auto simp: less_eq_prod_simp not_less)
      then show ?thesis unfolding step eq if_not_P [OF False] using i by (auto simp: less_Suc_eq)
    qed
  qed
qed simp

lemma soonest_due_head:
  "soonest_due s = (case due_list s of [] \<Rightarrow> None | i # is \<Rightarrow> Some i)"
proof (cases "soonest_due s")
  case None
  then have "set (due_list s) = {}"
    using soonest_scan [where s = s and n = "max_tasks s"] by (simp add: soonest_due_def set_due_list)
  with None show ?thesis by simp
next
  case (Some i)
  with soonest_scan [where s = s and n = "max_tasks s"]
  have i: "i < max_tasks s" "due s i"
    and least: "\<forall>j < max_tasks s. due s j \<longrightarrow> (deadline_of s i, i) \<le> (deadline_of s j, j)"
    by (auto simp: soonest_due_def)
  have mem: "(deadline_of s i, i) \<in> due_keys s" using i by (simp add: due_keys_iff)
  have "Min (due_keys s) = (deadline_of s i, i)"
    by (rule Min_eqI [OF _ _ mem]) (use least in \<open>auto simp: due_keys_iff\<close>)
  moreover have "due_keys s \<noteq> {}" using mem by auto
  ultimately have "due_list s = i # map snd (sorted_list_of_set (due_keys s - {(deadline_of s i, i)}))"
    by (simp add: due_list_def sorted_list_of_set_nonempty)
  with Some show ?thesis by simp
qed

lemma due_list_step:
  assumes "due_list s = i # is"
  shows "due_list (make_ready i s) = is"
proof -
  have i: "i < max_tasks s" "due s i" using assms set_due_list [of s] by auto
  then have mem: "(deadline_of s i, i) \<in> due_keys s" by (simp add: due_keys_iff)
  then have ne: "due_keys s \<noteq> {}" by auto
  have split: "sorted_list_of_set (due_keys s) =
      Min (due_keys s) # sorted_list_of_set (due_keys s - {Min (due_keys s)})"
    by (rule sorted_list_of_set_nonempty) (use ne in auto)
  then have "snd (Min (due_keys s)) = i" and tl: "is = map snd (sorted_list_of_set (due_keys s - {Min (due_keys s)}))"
    using assms by (auto simp: due_list_def)
  then have min: "Min (due_keys s) = (deadline_of s i, i)"
    using Min_in [OF finite_due_keys ne] by (cases "Min (due_keys s)") (auto simp: due_keys_iff)
  have "due_keys (make_ready i s) = due_keys s - {(deadline_of s i, i)}"
    by (auto simp: due_keys_iff due_def split: if_splits)
  then show ?thesis using tl min by (simp add: due_list_def)
qed

section \<open>Waking the due timers\<close>

lemma wake_due_eq: "wake_due s = fold make_ready (due_list s) s"
proof (induction s rule: wake_due.induct)
  case (1 s)
  show ?case
  proof (cases "due_list s")
    case Nil
    then show ?thesis by (subst wake_due.simps) (simp add: soonest_due_head)
  next
    case (Cons i "is")
    then have h: "soonest_due s = Some i" by (simp add: soonest_due_head)
    have "wake_due (make_ready i s) = fold make_ready is (make_ready i s)"
      using 1 [OF h, folded make_ready_def] unfolding due_list_step [OF Cons] .
    then show ?thesis using h Cons by (subst wake_due.simps) (simp add: make_ready_def [symmetric])
  qed
qed

lemma wake_due_inv:
  assumes "sched_base s" and "cover_ok s"
    and "\<forall>i \<in> set is. i < max_tasks s \<and> st_of s i = Waiting_timer" "distinct is"
  shows "sched_base (fold make_ready is s) \<and> cover_ok (fold make_ready is s) \<and>
     ready_list (fold make_ready is s) = ready_list s @ is"
  using assms
proof (induction "is" arbitrary: s)
  case (Cons i "is")
  have i: "i < max_tasks s" "st_of s i = Waiting_timer" using Cons.prems by auto
  have b: "sched_base (make_ready i s)"
    by (rule make_ready_base [OF Cons.prems(1) i(1)])
      (use i no_child [OF sched_baseD(6) [OF Cons.prems(1)], of i] in auto)
  have c: "cover_ok (make_ready i s)"
    by (rule cover_keep [OF Cons.prems(2)]) (use i in \<open>auto split: if_splits\<close>)
  have l: "ready_list (make_ready i s) = ready_list s @ [i]"
    by (rule make_ready_fifo(2) [OF sched_baseD(2) [OF Cons.prems(1)] i(1)]) (use i in simp)
  have "\<forall>j \<in> set is. j < max_tasks (make_ready i s) \<and> st_of (make_ready i s) j = Waiting_timer"
    using Cons.prems(3,4) by auto
  with Cons.IH [OF b c this] Cons.prems(4) l show ?case by simp
qed simp

lemma fold_make_ready_fields [simp]:
  "st_of (fold make_ready is s) = (\<lambda>i. if i \<in> set is then Ready else st_of s i)"
  "handle_of (fold make_ready is s) = handle_of s" "parent_of (fold make_ready is s) = parent_of s"
  "deadline_of (fold make_ready is s) = deadline_of s" "gen_of (fold make_ready is s) = gen_of s"
  "max_tasks (fold make_ready is s) = max_tasks s" "current (fold make_ready is s) = current s"
  "in_poll (fold make_ready is s) = in_poll s" "shutting_down (fold make_ready is s) = shutting_down s"
  "now_us (fold make_ready is s) = now_us s" "hook_log (fold make_ready is s) = hook_log s"
  "active_count (fold make_ready is s) = active_count s" "tasks (fold make_ready is s) = tasks s"
  "fpool (fold make_ready is s) = fpool s" "sched.more (fold make_ready is s) = sched.more s"
  by (induction "is" arbitrary: s) (auto simp: fun_eq_iff)

text \<open>The scan for the nearest deadline.\<close>

lemma nearest_scan:
  "let d = fold (\<lambda>i nearest. if st_of s i = Waiting_timer \<and> deadline_of s i < nearest
                             then deadline_of s i else nearest) [0..<n] (- 1)
   in (\<forall>i < n. st_of s i = Waiting_timer \<longrightarrow> d \<le> deadline_of s i) \<and>
      (d = - 1 \<or> (\<exists>i < n. st_of s i = Waiting_timer \<and> deadline_of s i = d))"
proof (induction n)
  case (Suc n)
  define d where "d = fold (\<lambda>i nearest. if st_of s i = Waiting_timer \<and> deadline_of s i < nearest
      then deadline_of s i else nearest) [0..<n] (- 1)"
  have IH: "\<forall>i < n. st_of s i = Waiting_timer \<longrightarrow> d \<le> deadline_of s i"
    "d = - 1 \<or> (\<exists>i < n. st_of s i = Waiting_timer \<and> deadline_of s i = d)"
    using Suc by (simp_all add: d_def Let_def)
  show ?case
  proof (cases "st_of s n = Waiting_timer \<and> deadline_of s n < d")
    case True
    then have "\<forall>i < Suc n. st_of s i = Waiting_timer \<longrightarrow> deadline_of s n \<le> deadline_of s i"
      using IH(1) by (auto simp: less_Suc_eq)
    moreover have "fold (\<lambda>i nearest. if st_of s i = Waiting_timer \<and> deadline_of s i < nearest
        then deadline_of s i else nearest) [0..<Suc n] (- 1) = deadline_of s n"
      using True by (simp add: d_def [symmetric])
    ultimately show ?thesis using True unfolding Let_def by (simp only:) blast
  next
    case False
    then have "\<forall>i < Suc n. st_of s i = Waiting_timer \<longrightarrow> d \<le> deadline_of s i"
      using IH(1) by (auto simp: less_Suc_eq not_less)
    moreover have "d = - 1 \<or> (\<exists>i < Suc n. st_of s i = Waiting_timer \<and> deadline_of s i = d)"
      using IH(2) less_SucI by blast
    moreover have "fold (\<lambda>i nearest. if st_of s i = Waiting_timer \<and> deadline_of s i < nearest
        then deadline_of s i else nearest) [0..<Suc n] (- 1) = d"
      using False by (auto simp: d_def [symmetric])
    ultimately show ?thesis unfolding Let_def by (simp only:)
  qed
qed simp

lemma recompute_timer_ok: "timer_ok (recompute_nearest_deadline s)"
  using nearest_scan [where s = s and n = "max_tasks s"]
  unfolding timer_ok_def recompute_nearest_deadline_def Let_def fold_views by simp

lemma recompute_base [simp]:
  "sched_base (recompute_nearest_deadline s) = sched_base s"
  "cover_ok (recompute_nearest_deadline s) = cover_ok s"
  "ready_list (recompute_nearest_deadline s) = ready_list s"
  by (simp_all add: recompute_nearest_deadline_def cover_ok_def ready_list_def)

lemma recompute_fields [simp]:
  "slots (recompute_nearest_deadline s) = slots s" "max_tasks (recompute_nearest_deadline s) = max_tasks s"
  "current (recompute_nearest_deadline s) = current s" "in_poll (recompute_nearest_deadline s) = in_poll s"
  "shutting_down (recompute_nearest_deadline s) = shutting_down s"
  "now_us (recompute_nearest_deadline s) = now_us s" "hook_log (recompute_nearest_deadline s) = hook_log s"
  "active_count (recompute_nearest_deadline s) = active_count s"
  "tasks (recompute_nearest_deadline s) = tasks s" "fpool (recompute_nearest_deadline s) = fpool s"
  "sched.more (recompute_nearest_deadline s) = sched.more s"
  by (simp_all add: recompute_nearest_deadline_def)

text \<open>The fast path is taken only when nothing is due.\<close>

lemma fast_path_none_due: "timer_ok s \<Longrightarrow> now_us s < nearest_deadline s \<Longrightarrow> due_list s = []"
proof -
  assume a: "timer_ok s" "now_us s < nearest_deadline s"
  have "\<not> due s i" if "i < max_tasks s" for i
    using a that by (auto simp: timer_ok_def due_def)
  then have "set (due_list s) = {}" by (simp add: set_due_list)
  then show "due_list s = []" by simp
qed

lemma process_due_eq:
  assumes "timer_ok s"
  shows "process_due_timers s =
    (if now_us s < nearest_deadline s then fold make_ready (due_list s) s
     else recompute_nearest_deadline (fold make_ready (due_list s) s))"
  using fast_path_none_due [OF assms] by (simp add: process_due_timers_def wake_due_eq)

lemma process_due_views:
  assumes "timer_ok s"
  shows "st_of (process_due_timers s) = (\<lambda>i. if i \<in> set (due_list s) then Ready else st_of s i)"
    "handle_of (process_due_timers s) = handle_of s" "parent_of (process_due_timers s) = parent_of s"
    "deadline_of (process_due_timers s) = deadline_of s" "gen_of (process_due_timers s) = gen_of s"
    "max_tasks (process_due_timers s) = max_tasks s" "current (process_due_timers s) = current s"
    "in_poll (process_due_timers s) = in_poll s" "shutting_down (process_due_timers s) = shutting_down s"
    "now_us (process_due_timers s) = now_us s" "hook_log (process_due_timers s) = hook_log s"
    "sched.more (process_due_timers s) = sched.more s" "tasks (process_due_timers s) = tasks s"
    "fpool (process_due_timers s) = fpool s"
  by (simp_all add: process_due_eq [OF assms] del: fun_upd_apply)

lemma process_due_inv:
  assumes "sched_inv s"
  shows "sched_inv (process_due_timers s)"
    "ready_list (process_due_timers s) = ready_list s @ due_list s"
proof -
  have "\<forall>i \<in> set (due_list s). i < max_tasks s \<and> st_of s i = Waiting_timer"
    by (simp add: set_due_list due_def)
  note w = wake_due_inv [OF sched_invD(1,2) [OF assms] this distinct_due_list]
  show "ready_list (process_due_timers s) = ready_list s @ due_list s"
    using w by (simp add: process_due_eq [OF sched_invD(3) [OF assms]])
  show "sched_inv (process_due_timers s)"
  proof (cases "now_us s < nearest_deadline s")
    case True
    then show ?thesis using assms by (simp add: process_due_timers_def)
  next
    case False
    then show ?thesis using w recompute_timer_ok
      by (simp add: process_due_eq [OF sched_invD(3) [OF assms]] sched_inv_def)
  qed
qed

lemma process_due_next_other:
  assumes "sched_inv s" "st_of s j = Waiting_local"
  shows "next_of (process_due_timers s) j = next_of s j"
proof -
  have "next_of (fold make_ready is s) j = next_of s j"
    if "\<forall>i \<in> set is. i < max_tasks s \<and> st_of s i = Waiting_timer" "distinct is" "ready_ok s"
      "st_of s j = Waiting_local" for "is"
    using that
  proof (induction "is" arbitrary: s)
    case (Cons i "is")
    then have i: "i < max_tasks s" "st_of s i = Waiting_timer" "j \<noteq> i" by auto
    have r: "ready_ok (make_ready i s)" by (rule make_ready_fifo) (use Cons.prems(3) i in auto)
    have "next_of (fold make_ready is (make_ready i s)) j = next_of (make_ready i s) j"
      by (rule Cons.IH) (use Cons.prems r i in auto)
    then show ?case using make_ready_next_other [OF Cons.prems(3) i(3)] Cons.prems(4) by simp
  qed simp
  then show ?thesis
    using assms sched_invD(3,5) [OF assms(1)]
    by (simp add: process_due_eq set_due_list due_def distinct_due_list)
qed

end
