(* ===== verification/Scheduler_Run.thy ===== *)
theory Scheduler_Run
  imports Scheduler_Timers
begin

text \<open>
  The bounded pass (\<open>run_pass\<close>, \<open>run_poll_pass\<close> of scheduler.h) over any coroutines
  that respect the scheduler: the locale \<open>coroutines\<close> states what resuming, completing and
  destroying a frame may do, and the pass is derived from it once.
\<close>

section \<open>What the pass does to a slot\<close>

text \<open>
  Over any number of steps the generation of a slot never decreases, and while it stays the
  same a task that exists goes on existing and a completed task stays completed.
\<close>

definition slot_life :: "slot \<Rightarrow> slot \<Rightarrow> bool" where
  "slot_life a b \<longleftrightarrow> generation a \<le> generation b \<and>
     (generation b = generation a \<longrightarrow>
        (state a \<noteq> Free \<longrightarrow> state b \<noteq> Free) \<and> (state a = Completed \<longrightarrow> state b = Completed))"

definition lives :: "'a sched_scheme \<Rightarrow> 'a sched_scheme \<Rightarrow> bool" where
  "lives s s' \<longleftrightarrow> max_tasks s' = max_tasks s \<and> (\<exists>es. hook_log s' = hook_log s @ es) \<and>
     (\<forall>i. slot_life (slots s i) (slots s' i))"

lemma slot_life_refl [simp]: "slot_life a a"
  by (simp add: slot_life_def)

lemma slot_life_trans: "slot_life a b \<Longrightarrow> slot_life b c \<Longrightarrow> slot_life a c"
  unfolding slot_life_def by (metis order.trans order.antisym)

lemma slot_step_life: "slot_step cur a b \<Longrightarrow> slot_life a b"
  unfolding slot_step_def slot_life_def is_active_def by metis

lemma lives_refl [simp]: "lives s s"
  by (simp add: lives_def)

lemma lives_trans: "lives s s' \<Longrightarrow> lives s' s'' \<Longrightarrow> lives s s''"
  unfolding lives_def by (auto intro: slot_life_trans)

lemma evolves_lives: "evolves s s' \<Longrightarrow> lives s s'"
  unfolding evolves_def lives_def by (auto intro: slot_step_life)

text \<open>A task that waits for a timer is left alone, whichever other tasks run.\<close>

definition timers_kept :: "'a sched_scheme \<Rightarrow> 'a sched_scheme \<Rightarrow> bool" where
  "timers_kept s s' \<longleftrightarrow> (\<forall>i. st_of s i = Waiting_timer \<longrightarrow>
     st_of s' i = Waiting_timer \<and> deadline_of s' i = deadline_of s i \<and>
     handle_of s' i = handle_of s i \<and> gen_of s' i = gen_of s i)"

lemma timers_kept_trans: "timers_kept s s' \<Longrightarrow> timers_kept s' s'' \<Longrightarrow> timers_kept s s''"
  unfolding timers_kept_def by metis

lemma timers_kept_refl [simp]: "timers_kept s s"
  by (simp add: timers_kept_def)

lemma evolves_timers: "evolves s s' \<Longrightarrow> timers_kept s s'"
proof -
  assume a: "evolves s s'"
  show "timers_kept s s'"
    unfolding timers_kept_def
  proof (intro allI impI)
    fix i assume w: "st_of s i = Waiting_timer"
    with evolves_slot [OF a, of i]
    show "st_of s' i = Waiting_timer \<and> deadline_of s' i = deadline_of s i \<and>
        handle_of s' i = handle_of s i \<and> gen_of s' i = gen_of s i"
      unfolding slot_step_def fold_views w by simp
  qed
qed

section \<open>Starting a task\<close>

definition begin_run :: "nat \<Rightarrow> 'a sched_scheme \<Rightarrow> 'a sched_scheme" where
  "begin_run i s = (set_state i Running (snd (ready_pop s)))\<lparr>current := Some i\<rparr>"

lemma begin_run_views [simp]:
  "handle_of (begin_run i s) = handle_of s" "parent_of (begin_run i s) = parent_of s"
  "deadline_of (begin_run i s) = deadline_of s" "gen_of (begin_run i s) = gen_of s"
  "st_of (begin_run i s) = (st_of s)(i := Running)" "max_tasks (begin_run i s) = max_tasks s"
  "active_count (begin_run i s) = active_count s" "peak_count (begin_run i s) = peak_count s"
  "current (begin_run i s) = Some i" "in_poll (begin_run i s) = in_poll s"
  "shutting_down (begin_run i s) = shutting_down s" "now_us (begin_run i s) = now_us s"
  "nearest_deadline (begin_run i s) = nearest_deadline s" "hook_log (begin_run i s) = hook_log s"
  "tasks (begin_run i s) = tasks s" "fpool (begin_run i s) = fpool s"
  "sched.more (begin_run i s) = sched.more s"
  by (auto simp: begin_run_def fun_eq_iff)

lemma begin_run_next:
  "ready_head s = Some i \<Longrightarrow> next_of (begin_run i s) = (next_of s)(i := None)"
  by (auto simp: begin_run_def ready_pop_next fun_eq_iff)

lemma begin_run_inv:
  assumes inv: "sched_inv s" and rl: "ready_list s = i # rs"
  shows "sched_inv (begin_run i s)" "ready_list (begin_run i s) = rs"
    "ready_head s = Some i" "i < max_tasks s" "st_of s i = Ready" "handle_of s i \<noteq> None"
proof -
  note p = ready_pop_fifo [OF sched_invD(5) [OF inv] rl]
  show h: "ready_head s = Some i" and i: "i < max_tasks s" and st: "st_of s i = Ready" by (fact p)+
  show "handle_of s i \<noteq> None" using sched_invD(7) [OF inv] i st by (auto simp: frame_ok_def)
  let ?t = "begin_run i s"
  have rep: "ready_rep ?t rs"
    using p(2) unfolding begin_run_def ready_rep_def by (simp add: fun_upd_idem)
  have "j \<in> set rs \<longleftrightarrow> j < max_tasks ?t \<and> st_of ?t j = Ready" for j
    using ready_okD(4) [OF sched_invD(5) [OF inv], of j] p(5) st rl by (auto simp: rl)
  with rep have r: "ready_ok ?t" "ready_list ?t = rs" by (rule ready_okI)+
  show "ready_list ?t = rs" by (fact r)
  have act: "is_active (st_of ?t j) = is_active (st_of s j)" for j using st by simp
  have "count_ok ?t" by (rule count_ok_keep [OF sched_invD(6) [OF inv]]) (use act in auto)
  moreover have "frame_ok ?t" using sched_invD(7) [OF inv] act by (simp add: frame_ok_def)
  moreover have "current_ok ?t" using i by (simp add: current_ok_def)
  moreover have "links_ok ?t"
  proof (rule links_okI)
    fix c q assume "c < max_tasks ?t" "is_active (st_of ?t c)" "parent_of ?t c = Some q"
    then have c: "c < max_tasks s" "is_active (st_of s c)" "parent_of s c = Some q"
      using act by simp_all
    have "q < max_tasks s" "st_of s q = Waiting_child"
      by (rule links_okD [OF sched_invD(9) [OF inv] c])+
    then show "q < max_tasks ?t \<and> st_of ?t q = Waiting_child" using st by auto
    fix d assume "d < max_tasks ?t" "is_active (st_of ?t d)" "parent_of ?t d = Some q"
    then have d: "d < max_tasks s" "is_active (st_of s d)" "parent_of s d = Some q"
      using act by simp_all
    show "c = d" by (rule links_okD(3) [OF sched_invD(9) [OF inv] c d])
  qed
  moreover have "cover_ok ?t"
    by (rule cover_keep [OF sched_invD(2) [OF inv]]) (use act in \<open>auto split: if_splits\<close>)
  moreover have "timer_ok ?t"
    by (rule timer_keep [OF sched_invD(3) [OF inv]]) (use st in auto)
  ultimately show "sched_inv ?t"
    using r(1) sched_invD(4) [OF inv] by (simp add: sched_inv_def sched_base_def)
qed

section \<open>Completing a task\<close>

text \<open>The part of the pass after a completed frame was destroyed.\<close>

definition finish :: "nat \<Rightarrow> 'a sched_scheme \<Rightarrow> 'a sched_scheme" where
  "finish i s = (let s8 = set_state i Completed (set_parent i None (set_handle i None s))
                 in s8\<lparr>active_count := active_count s8 - 1\<rparr>)"

definition wake_parent :: "nat option \<Rightarrow> 'a sched_scheme \<Rightarrow> 'a sched_scheme" where
  "wake_parent p s = (case p of None \<Rightarrow> s
     | Some q \<Rightarrow> if st_of s q = Waiting_child then make_ready q s else s)"

lemma finish_views [simp]:
  "handle_of (finish i s) = (handle_of s)(i := None)" "parent_of (finish i s) = (parent_of s)(i := None)"
  "deadline_of (finish i s) = deadline_of s" "gen_of (finish i s) = gen_of s"
  "next_of (finish i s) = next_of s"
  "st_of (finish i s) = (st_of s)(i := Completed)" "max_tasks (finish i s) = max_tasks s"
  "active_count (finish i s) = active_count s - 1" "peak_count (finish i s) = peak_count s"
  "ready_head (finish i s) = ready_head s" "ready_tail (finish i s) = ready_tail s"
  "ready_count (finish i s) = ready_count s"
  "current (finish i s) = current s" "in_poll (finish i s) = in_poll s"
  "shutting_down (finish i s) = shutting_down s" "now_us (finish i s) = now_us s"
  "nearest_deadline (finish i s) = nearest_deadline s" "hook_log (finish i s) = hook_log s"
  "tasks (finish i s) = tasks s" "fpool (finish i s) = fpool s"
  "sched.more (finish i s) = sched.more s"
  by (auto simp: finish_def Let_def fun_eq_iff)

lemma finish_inv:
  assumes inv: "sched_inv s" and i: "i < max_tasks s" "st_of s i = Running" and cur: "current s \<noteq> Some i"
  shows "sched_base (finish i s)" "timer_ok (finish i s)" "ready_list (finish i s) = ready_list s"
    "\<forall>j < max_tasks s. st_of s j = Waiting_child \<longrightarrow>
       parent_of s i = Some j \<or> (\<exists>c < max_tasks s. is_active (st_of (finish i s) c) \<and> parent_of (finish i s) c = Some j)"
proof -
  let ?t = "finish i s"
  have r: "ready_ok ?t" "ready_list ?t = ready_list s"
    by (rule ready_ok_keep [OF sched_invD(5) [OF inv]]; use i(2) in auto)+
  show "ready_list ?t = ready_list s" by (fact r)
  define n where "n = count_below (max_tasks s) (\<lambda>j. is_active (st_of ?t j))"
  have "Suc n = count_below (max_tasks s) (\<lambda>j. is_active (st_of s j))"
    unfolding n_def by (rule count_below_remove [of i]) (use i in auto)
  then have "active_count ?t = n" "n \<le> peak_count ?t" "peak_count ?t \<le> max_tasks ?t"
    using sched_invD(6) [OF inv] by (auto simp: count_ok_def)
  then have "count_ok ?t" by (simp only: count_ok_def finish_views(7) n_def [symmetric])
  moreover have "frame_ok ?t" using sched_invD(7) [OF inv] by (auto simp: frame_ok_def)
  moreover have "current_ok ?t" using sched_invD(8) [OF inv] cur by (auto simp: current_ok_def)
  moreover have "links_ok ?t"
  proof (rule links_okI)
    fix c q assume "c < max_tasks ?t" "is_active (st_of ?t c)" "parent_of ?t c = Some q"
    then have c: "c < max_tasks s" "is_active (st_of s c)" "parent_of s c = Some q"
      by (auto split: if_splits)
    have "q < max_tasks s" "st_of s q = Waiting_child"
      by (rule links_okD [OF sched_invD(9) [OF inv] c])+
    then show "q < max_tasks ?t \<and> st_of ?t q = Waiting_child" using i(2) by auto
    fix d assume "d < max_tasks ?t" "is_active (st_of ?t d)" "parent_of ?t d = Some q"
    then have d: "d < max_tasks s" "is_active (st_of s d)" "parent_of s d = Some q"
      by (auto split: if_splits)
    show "c = d" by (rule links_okD(3) [OF sched_invD(9) [OF inv] c d])
  qed
  ultimately show "sched_base ?t" using r(1) sched_invD(4) [OF inv] by (simp add: sched_base_def)
  show "timer_ok ?t" by (rule timer_keep [OF sched_invD(3) [OF inv]]) (use i(2) in auto)
  show "\<forall>j < max_tasks s. st_of s j = Waiting_child \<longrightarrow> parent_of s i = Some j \<or>
      (\<exists>c < max_tasks s. is_active (st_of ?t c) \<and> parent_of ?t c = Some j)"
  proof (intro allI impI)
    fix j assume "j < max_tasks s" "st_of s j = Waiting_child"
    with sched_invD(2) [OF inv] obtain c
      where "c < max_tasks s" "is_active (st_of s c)" "parent_of s c = Some j"
      by (auto simp: cover_ok_def)
    then show "parent_of s i = Some j \<or>
        (\<exists>c < max_tasks s. is_active (st_of ?t c) \<and> parent_of ?t c = Some j)"
      by (cases "c = i") auto
  qed
qed

lemma finish_wake_inv:
  assumes inv: "sched_inv s" and i: "i < max_tasks s" "st_of s i = Running" and cur: "current s \<noteq> Some i"
  defines "t \<equiv> wake_parent (parent_of s i) (finish i s)"
  shows "sched_inv t" "ready_list t = ready_list s @ (case parent_of s i of None \<Rightarrow> [] | Some q \<Rightarrow> [q])"
    "st_of t = (case parent_of s i of None \<Rightarrow> (st_of s)(i := Completed)
       | Some q \<Rightarrow> (st_of s)(i := Completed, q := Ready))"
proof -
  note f = finish_inv [OF inv i cur]
  have "sched_inv t \<and> ready_list t = ready_list s @ (case parent_of s i of None \<Rightarrow> [] | Some q \<Rightarrow> [q]) \<and>
    st_of t = (case parent_of s i of None \<Rightarrow> (st_of s)(i := Completed)
       | Some q \<Rightarrow> (st_of s)(i := Completed, q := Ready))"
  proof (cases "parent_of s i")
    case None
    then have t: "t = finish i s" by (simp add: t_def wake_parent_def)
    have "cover_ok (finish i s)" using f(4) None by (auto simp: cover_ok_def)
    then show ?thesis using f None by (simp add: t sched_inv_def)
  next
    case (Some q)
    have a: "is_active (st_of s i)" using i by simp
    have q: "q < max_tasks s" "st_of s q = Waiting_child"
      by (rule links_okD [OF sched_invD(9) [OF inv] i(1) a Some])+
    then have qi: "q \<noteq> i" using i by auto
    let ?f = "finish i s"
    have t: "t = make_ready q ?f" using Some q qi by (simp add: t_def wake_parent_def)
    have nochild: "parent_of ?f c \<noteq> Some q" if "c < max_tasks ?f" "is_active (st_of ?f c)" for c
    proof
      assume "parent_of ?f c = Some q"
      then have c: "c < max_tasks s" "is_active (st_of s c)" "parent_of s c = Some q" "c \<noteq> i"
        using that by (auto split: if_splits)
      have "i = c" by (rule links_okD(3) [OF sched_invD(9) [OF inv] i(1) a Some c(1-3)])
      with c(4) show False by simp
    qed
    have base: "sched_base t" unfolding t
      by (rule make_ready_base [OF f(1)]) (use q qi nochild in auto)
    have rl: "ready_list t = ready_list s @ [q]" unfolding t f(3) [symmetric]
      by (rule make_ready_fifo(2) [OF sched_baseD(2) [OF f(1)]]) (use q qi in auto)
    have "timer_ok t" unfolding t by (rule timer_keep [OF f(2)]) (use q qi in auto)
    moreover have "cover_ok t"
      unfolding cover_ok_def
    proof (intro allI impI)
      fix j assume "j < max_tasks t" "st_of t j = Waiting_child"
      then have j: "j < max_tasks s" "st_of s j = Waiting_child" "j \<noteq> q"
        by (auto simp: t split: if_splits)
      from f(4) [rule_format, OF j(1,2)] Some j(3)
      obtain c where c: "c < max_tasks s" "is_active (st_of ?f c)" "parent_of ?f c = Some j" by auto
      from c have "is_active (st_of t c)" "parent_of t c = Some j" "c < max_tasks t"
        unfolding t make_ready_views make_ready_fields by simp_all
      then show "\<exists>c < max_tasks t. is_active (st_of t c) \<and> parent_of t c = Some j" by blast
    qed
    moreover have "st_of t = (st_of s)(i := Completed, q := Ready)" unfolding t by simp
    ultimately show ?thesis using base rl Some by (simp add: sched_inv_def)
  qed
  then show "sched_inv t" "ready_list t = ready_list s @ (case parent_of s i of None \<Rightarrow> [] | Some q \<Rightarrow> [q])"
    "st_of t = (case parent_of s i of None \<Rightarrow> (st_of s)(i := Completed)
       | Some q \<Rightarrow> (st_of s)(i := Completed, q := Ready))" by auto
qed

section \<open>Coroutines that respect the scheduler\<close>

text \<open>
  The synchronisation objects keep their state in the record extension and in the links of
  the parked slots: a scheduler step that leaves both alone leaves them alone.
\<close>

definition local_same :: "'a sched_scheme \<Rightarrow> 'a sched_scheme \<Rightarrow> bool" where
  "local_same s s' \<longleftrightarrow> max_tasks s' = max_tasks s \<and> sched.more s' = sched.more s \<and>
     (\<forall>i. st_of s' i = Waiting_local \<longleftrightarrow> st_of s i = Waiting_local) \<and>
     (\<forall>i. st_of s i = Waiting_local \<longrightarrow> next_of s' i = next_of s i)"

lemma local_same_trans: "local_same s s' \<Longrightarrow> local_same s' s'' \<Longrightarrow> local_same s s''"
  by (simp add: local_same_def)

text \<open>
  The scheduler's own steps also keep the \<open>Task\<close> objects, the frame pool and, until a task
  completes, the frames that the slots own.
\<close>

definition step_same :: "'a sched_scheme \<Rightarrow> 'a sched_scheme \<Rightarrow> bool" where
  "step_same s s' \<longleftrightarrow> local_same s s' \<and> tasks s' = tasks s \<and> fpool s' = fpool s \<and> handle_of s' = handle_of s"

definition end_same :: "nat \<Rightarrow> 'a sched_scheme \<Rightarrow> 'a sched_scheme \<Rightarrow> bool" where
  "end_same i s s' \<longleftrightarrow> local_same s s' \<and> tasks s' = tasks s \<and> fpool s' = fpool s \<and>
     handle_of s' = (handle_of s)(i := None)"

text \<open>
  \<open>J\<close> is the invariant of the synchronisation objects and of the coroutines' own state.
  Resuming the frame of the current task may only do what the operations of the scheduler
  allow, and may complete only while the task is still running, that is without having
  registered a wake source before; destroying the frame of a completed task leaves every
  running task alone, and the invariant holds again when its slot has dropped the handle.
\<close>

locale coroutines =
  fixes co :: "'a sched_scheme coro" and J :: "'a sched_scheme \<Rightarrow> bool"
  assumes resume: "sched_inv s \<Longrightarrow> J s \<Longrightarrow> current s = Some i \<Longrightarrow> st_of s i = Running \<Longrightarrow>
      handle_of s i = Some f \<Longrightarrow>
      sched_inv (co_resume co f s) \<and> J (co_resume co f s) \<and> evolves s (co_resume co f s)"
    and finished: "sched_inv s \<Longrightarrow> J s \<Longrightarrow> current s = Some i \<Longrightarrow> st_of s i = Running \<Longrightarrow>
      handle_of s i = Some f \<Longrightarrow> co_done co f ((co_resume co f s)\<lparr>current := None\<rparr>) \<Longrightarrow>
      st_of (co_resume co f s) i = Running"
    and destroy: "sched_inv s \<Longrightarrow> J s \<Longrightarrow> i < max_tasks s \<Longrightarrow> handle_of s i = Some f \<Longrightarrow> co_done co f s \<Longrightarrow>
      sched_inv (co_destroy co f s) \<and> quiet s (co_destroy co f s)"
    and destroyed: "sched_inv s \<Longrightarrow> J s \<Longrightarrow> i < max_tasks s \<Longrightarrow> handle_of s i = Some f \<Longrightarrow> co_done co f s \<Longrightarrow>
      end_same i (co_destroy co f s) s' \<Longrightarrow> J s'"
    and stable: "J s \<Longrightarrow> step_same s s' \<Longrightarrow> J s'"

text \<open>One turn of the pass: pop the oldest ready task and run it.\<close>

definition run_turn :: "'a sched_scheme coro \<Rightarrow> nat \<Rightarrow> 'a sched_scheme \<Rightarrow> 'a sched_scheme" where
  "run_turn co i s = run_task co i (snd (ready_pop s))"

definition resumed :: "'a sched_scheme coro \<Rightarrow> nat \<Rightarrow> 'a sched_scheme \<Rightarrow> 'a sched_scheme" where
  "resumed co i s = (handle_resume co (handle_of (begin_run i s) i) (begin_run i s))\<lparr>current := None\<rparr>"

lemma run_turn_eq:
  "run_turn co i s =
     (let t = resumed co i s
      in if handle_done co (handle_of t i) t
         then wake_parent (parent_of t i) (finish i (handle_destroy co (handle_of t i) t))
         else if st_of t i = Running then set_state i Suspended t else t)"
  unfolding run_turn_def run_task_def resumed_def begin_run_def Let_def wake_parent_def
    finish_def make_ready_def fold_views by (rule refl)

lemma current_None_inv: "sched_inv s \<Longrightarrow> sched_inv (s\<lparr>current := None\<rparr>)"
proof -
  assume a: "sched_inv s"
  have "ready_list (s\<lparr>current := None\<rparr>) = ready_list s" by (simp add: ready_list_def)
  then have "ready_ok (s\<lparr>current := None\<rparr>) = ready_ok s" "count_ok (s\<lparr>current := None\<rparr>) = count_ok s"
    "frame_ok (s\<lparr>current := None\<rparr>) = frame_ok s" "links_ok (s\<lparr>current := None\<rparr>) = links_ok s"
    "cover_ok (s\<lparr>current := None\<rparr>) = cover_ok s" "timer_ok (s\<lparr>current := None\<rparr>) = timer_ok s"
    "current_ok (s\<lparr>current := None\<rparr>)"
    by (simp_all add: inv_defs ready_rep_def)
  then show ?thesis using a by (simp add: sched_inv_def sched_base_def)
qed

context coroutines
begin

lemma resumed_inv:
  assumes inv: "sched_inv s" and J: "J s" and idle: "idle s" and rl: "ready_list s = i # rs"
  shows "sched_inv (resumed co i s)" "J (resumed co i s)" "current (resumed co i s) = None"
    "\<exists>ys. ready_list (resumed co i s) = rs @ ys"
    "lives s (resumed co i s)" "timers_kept s (resumed co i s)"
    "in_poll (resumed co i s) = in_poll s" "now_us (resumed co i s) = now_us s"
    "shutting_down (resumed co i s) = shutting_down s" "max_tasks (resumed co i s) = max_tasks s"
    "\<And>j. j < max_tasks s \<Longrightarrow> st_of (resumed co i s) j = Running \<Longrightarrow> j = i"
    "handle_of (resumed co i s) i = handle_of s i" "is_active (st_of (resumed co i s) i)"
    "handle_done co (handle_of s i) (resumed co i s) \<Longrightarrow> st_of (resumed co i s) i = Running"
    "parent_of (resumed co i s) i = parent_of s i" "gen_of (resumed co i s) i = gen_of s i"
proof -
  let ?b = "begin_run i s"
  note b = begin_run_inv [OF inv rl]
  from b(6) obtain f where f: "handle_of s i = Some f" by blast
  have "step_same s ?b"
    using b(3,5) by (auto simp: step_same_def local_same_def begin_run_next)
  then have Jb: "J ?b" by (rule stable [OF J])
  let ?r = "co_resume co f ?b"
  have r: "resumed co i s = ?r\<lparr>current := None\<rparr>" by (simp add: resumed_def f handle_resume_def)
  have "sched_inv ?r \<and> J ?r \<and> evolves ?b ?r"
    by (rule resume [OF b(1) Jb, of i f]) (simp_all add: f)
  then have R: "sched_inv ?r" "J ?r" and ev: "evolves ?b ?r" by blast+
  have cur: "current ?r = Some i" using evolvesD(2) [OF ev] by simp
  show "sched_inv (resumed co i s)" unfolding r by (rule current_None_inv [OF R(1)])
  show "J (resumed co i s)" unfolding r by (rule stable [OF R(2)]) (simp add: step_same_def local_same_def)
  show "current (resumed co i s) = None" by (simp add: r)
  show "\<exists>ys. ready_list (resumed co i s) = rs @ ys"
    using evolves_ready [OF ev] b(2) by (simp add: r ready_list_def)
  have "slot_life (slots s j) (slots ?b j)" for j
    using b(5) by (auto simp: slot_life_def)
  then have "lives s ?b" by (simp add: lives_def)
  then have "lives s ?r" using evolves_lives [OF ev] by (rule lives_trans)
  then show "lives s (resumed co i s)" by (simp add: r lives_def)
  have "timers_kept s ?b" using b(5) by (auto simp: timers_kept_def)
  then have "timers_kept s ?r" using evolves_timers [OF ev] by (rule timers_kept_trans)
  then show "timers_kept s (resumed co i s)" by (simp add: r timers_kept_def)
  show "in_poll (resumed co i s) = in_poll s" "now_us (resumed co i s) = now_us s"
    "shutting_down (resumed co i s) = shutting_down s" "max_tasks (resumed co i s) = max_tasks s"
    using evolvesD [OF ev] by (simp_all add: r)
  show "j = i" if "j < max_tasks s" "st_of (resumed co i s) j = Running" for j
  proof -
    have "st_of ?b j = Running"
      using slot_step_running [OF evolves_slot [OF ev, of j], unfolded fold_views] that(2) by (simp add: r)
    then show ?thesis using idle that(1) by (auto simp: idle_def split: if_splits)
  qed
  have a: "is_active (st_of ?b i)" by simp
  show "handle_of (resumed co i s) i = handle_of s i" "is_active (st_of (resumed co i s) i)"
    "parent_of (resumed co i s) i = parent_of s i" "gen_of (resumed co i s) i = gen_of s i"
    using evolves_slot [OF ev, of i] a unfolding slot_step_def fold_views r by simp_all
  show "handle_done co (handle_of s i) (resumed co i s) \<Longrightarrow> st_of (resumed co i s) i = Running"
    unfolding r f handle_done_def option.case
    using finished [OF b(1) Jb, of i f] by (simp add: f)
qed

lemma destroyed_inv:
  assumes "sched_inv t" "J t" "i < max_tasks t" "handle_done co (handle_of t i) t"
  shows "sched_inv (handle_destroy co (handle_of t i) t)" "quiet t (handle_destroy co (handle_of t i) t)"
    "end_same i (handle_destroy co (handle_of t i) t) s' \<Longrightarrow> J s'"
  using assms(4) destroy [OF assms(1-3)] destroyed [OF assms(1-3)]
  by (auto simp: handle_destroy_def handle_done_def split: option.splits)

text \<open>A completed task: its frame is destroyed, its slot keeps the identity, its parent is queued.\<close>

lemma completed_inv:
  assumes inv: "sched_inv t" and J: "J t" and cur: "current t = None"
    and i: "i < max_tasks t" "st_of t i = Running"
    and only: "\<And>j. j < max_tasks t \<Longrightarrow> st_of t j = Running \<Longrightarrow> j = i"
    and fin: "handle_done co (handle_of t i) t"
  defines "u \<equiv> wake_parent (parent_of t i) (finish i (handle_destroy co (handle_of t i) t))"
  shows "sched_inv u" "J u" "idle u" "\<exists>ys. ready_list u = ready_list t @ ys" "lives t u" "timers_kept t u"
    "in_poll u = in_poll t" "now_us u = now_us t" "shutting_down u = shutting_down t" "max_tasks u = max_tasks t"
proof -
  let ?d = "handle_destroy co (handle_of t i) t"
  note d = destroyed_inv [OF inv J i(1) fin]
  note ev = quiet_evolves [OF d(2)]
  have run: "st_of ?d i = Running" using d(2) i(2) by (simp add: quiet_def)
  have act: "is_active (st_of t i)" using i by simp
  have par: "parent_of ?d i = parent_of t i" by (rule quiet_slot(3) [OF d(2) act])
  have u: "u = wake_parent (parent_of ?d i) (finish i ?d)" by (simp add: u_def par)
  have id: "i < max_tasks ?d" "current ?d = None" using i cur evolvesD(1,2) [OF ev] by simp_all
  note f = finish_wake_inv [OF d(1) id(1) run, folded u]
  have c: "current ?d \<noteq> Some i" using id by simp
  show inv_u: "sched_inv u" by (rule f(1) [OF c])
  obtain ys where "ready_list ?d = ready_list t @ ys" using evolves_ready [OF ev] by blast
  then show "\<exists>ys. ready_list u = ready_list t @ ys" using f(2) [OF c] by auto
  have fields: "max_tasks u = max_tasks ?d" "in_poll u = in_poll ?d" "now_us u = now_us ?d"
    "shutting_down u = shutting_down ?d" "hook_log u = hook_log ?d" "current u = current ?d"
    "sched.more u = sched.more ?d" "gen_of u = gen_of ?d" "deadline_of u = deadline_of ?d"
    by (simp_all add: u wake_parent_def split: option.split)
  have handles: "handle_of u = (handle_of ?d)(i := None)"
    by (simp add: u wake_parent_def split: option.split)
  show "in_poll u = in_poll t" "now_us u = now_us t" "shutting_down u = shutting_down t" "max_tasks u = max_tasks t"
    using fields evolvesD [OF ev] by simp_all
  have q: "st_of ?d q = Waiting_child" if "parent_of ?d i = Some q" for q
    using links_okD(2) [OF sched_invD(9) [OF d(1)] id(1) _ that] run by simp
  have st_u: "st_of u = (case parent_of ?d i of None \<Rightarrow> (st_of ?d)(i := Completed)
       | Some q \<Rightarrow> (st_of ?d)(i := Completed, q := Ready))" by (rule f(3) [OF c])
  have only_d: "st_of ?d j = Running \<Longrightarrow> j < max_tasks t \<Longrightarrow> j = i" for j
    using evolves_slot [OF ev, of j] only [of j] unfolding slot_step_def fold_views by blast
  show "idle u"
    using only_d fields(1,6) id(2) evolvesD(1) [OF ev] by (auto simp: idle_def st_u split: option.splits if_splits)
  have "slot_life (slots ?d j) (slots u j)" for j
    unfolding slot_life_def fold_views fields(8) using run q
    by (auto simp: st_u split: option.splits if_splits)
  then have "lives ?d u" using fields by (simp add: lives_def)
  with evolves_lives [OF ev] show "lives t u" by (rule lives_trans)
  have "timers_kept ?d u"
    unfolding timers_kept_def fields(8,9) handles using run q
    by (auto simp: st_u split: option.splits if_splits)
  with evolves_timers [OF ev] show "timers_kept t u" by (rule timers_kept_trans)
  have nx: "next_of u j = next_of ?d j" if "st_of ?d j = Waiting_local" for j
  proof (cases "parent_of ?d i")
    case None
    then show ?thesis by (simp add: u wake_parent_def)
  next
    case (Some p)
    from q [OF this] run have p: "p \<noteq> i" "st_of ?d p = Waiting_child" by auto
    have "ready_ok (finish i ?d)"
      by (rule sched_baseD(2) [OF finish_inv(1) [OF d(1) id(1) run c]])
    have "j \<noteq> p" "st_of (finish i ?d) j \<noteq> Ready" using that p run by auto
    then have "next_of (make_ready p (finish i ?d)) j = next_of ?d j"
      using make_ready_next_other [OF \<open>ready_ok (finish i ?d)\<close>, of j p] by simp
    then show ?thesis using p by (simp add: u wake_parent_def Some)
  qed
  have "local_same ?d u"
    unfolding local_same_def fields using nx run q
    by (auto simp: st_u split: option.splits if_splits)
  moreover have "tasks u = tasks ?d" "fpool u = fpool ?d"
    by (simp_all add: u wake_parent_def split: option.split)
  ultimately have "end_same i ?d u" using handles by (simp add: end_same_def)
  then show "J u" by (rule d(3))
qed

end

section \<open>Turns and passes\<close>

text \<open>The clock sample, the reentry guard and the shutdown flag.\<close>

definition same_pass :: "'a sched_scheme \<Rightarrow> 'a sched_scheme \<Rightarrow> bool" where
  "same_pass s s' \<longleftrightarrow> in_poll s' = in_poll s \<and> now_us s' = now_us s \<and>
     shutting_down s' = shutting_down s \<and> max_tasks s' = max_tasks s"

lemma same_pass_trans: "same_pass s s' \<Longrightarrow> same_pass s' s'' \<Longrightarrow> same_pass s s''"
  by (simp add: same_pass_def)

text \<open>The states between two turns of a pass, and at its ends.\<close>

definition at_rest :: "('a sched_scheme \<Rightarrow> bool) \<Rightarrow> 'a sched_scheme \<Rightarrow> bool" where
  "at_rest J s \<longleftrightarrow> sched_inv s \<and> J s \<and> idle s"

definition progress :: "'a sched_scheme \<Rightarrow> 'a sched_scheme \<Rightarrow> bool" where
  "progress s s' \<longleftrightarrow> lives s s' \<and> timers_kept s s' \<and> same_pass s s'"

lemma progress_refl [simp]: "progress s s"
  by (simp add: progress_def same_pass_def)

lemma progress_trans: "progress s s' \<Longrightarrow> progress s' s'' \<Longrightarrow> progress s s''"
  unfolding progress_def by (blast intro: lives_trans timers_kept_trans same_pass_trans)

context coroutines
begin

lemma turn_inv:
  assumes rest: "at_rest J s" and rl: "ready_list s = i # rs"
  shows "at_rest J (run_turn co i s)" "progress s (run_turn co i s)"
    "\<exists>ys. ready_list (run_turn co i s) = rs @ ys"
proof -
  have inv: "sched_inv s" and J: "J s" and idle: "idle s" using rest by (simp_all add: at_rest_def)
  let ?t = "resumed co i s" and ?u = "run_turn co i s"
  note t = resumed_inv [OF inv J idle rl]
  have i: "i < max_tasks ?t" using begin_run_inv(4) [OF inv rl] t(10) by simp
  have pt: "progress s ?t" using t(5-10) by (simp add: progress_def same_pass_def)
  have "at_rest J ?u \<and> progress ?t ?u \<and> (\<exists>ys. ready_list ?u = ready_list ?t @ ys)"
  proof (cases "handle_done co (handle_of ?t i) ?t")
    case True
    then have run: "st_of ?t i = Running" using t(12,14) by simp
    have only: "\<And>j. j < max_tasks ?t \<Longrightarrow> st_of ?t j = Running \<Longrightarrow> j = i" using t(10,11) by simp
    have u: "?u = wake_parent (parent_of ?t i) (finish i (handle_destroy co (handle_of ?t i) ?t))"
      using True by (simp add: run_turn_eq Let_def)
    note c = completed_inv [OF t(1,2,3) i run only True, folded u]
    show ?thesis using c by (simp add: at_rest_def progress_def same_pass_def)
  next
    case False
    show ?thesis
    proof (cases "st_of ?t i = Running")
      case True
      then have u: "?u = set_state i Suspended ?t" using False by (simp add: run_turn_eq Let_def)
      have a: "sched_inv ?u" unfolding u by (rule park_inv [OF t(1) True]) simp_all
      have "step_same ?t ?u" using True by (simp add: u step_same_def local_same_def)
      then have b: "J ?u" by (rule stable [OF t(2)])
      have c: "idle ?u" using t(3,10,11) by (auto simp: idle_def u)
      have "slot_life (slots ?t j) (slots ?u j)" for j using True by (auto simp: u slot_life_def)
      then have d: "lives ?t ?u" by (simp add: lives_def u)
      have e: "timers_kept ?t ?u" using True by (auto simp: u timers_kept_def)
      have "ready_list ?u = ready_list ?t" by (rule ready_list_cong) (simp_all add: u)
      then show ?thesis using a b c d e by (simp add: at_rest_def progress_def same_pass_def u)
    next
      case nr: False
      then have u: "?u = ?t" using False by (simp add: run_turn_eq Let_def)
      have "idle ?t" using t(3,10,11) nr by (auto simp: idle_def)
      then show ?thesis using t(1,2) by (simp add: u at_rest_def)
    qed
  qed
  then show "at_rest J ?u" "progress s ?u" "\<exists>ys. ready_list ?u = rs @ ys"
    using progress_trans [OF pt] t(4) by auto
qed

text \<open>A turn whose task completes.\<close>

lemma turn_completed:
  assumes rest: "at_rest J s" and rl: "ready_list s = i # rs"
    and fin: "handle_done co (handle_of s i) (resumed co i s)"
  shows "st_of (run_turn co i s) =
      (case parent_of s i of None \<Rightarrow> (st_of (handle_destroy co (handle_of s i) (resumed co i s)))(i := Completed)
       | Some p \<Rightarrow> (st_of (handle_destroy co (handle_of s i) (resumed co i s)))(i := Completed, p := Ready)) \<and>
    handle_of (run_turn co i s) i = None \<and> gen_of (run_turn co i s) i = gen_of s i \<and>
    ready_list (run_turn co i s) = ready_list (handle_destroy co (handle_of s i) (resumed co i s)) @
      (case parent_of s i of None \<Rightarrow> [] | Some p \<Rightarrow> [p]) \<and>
    (\<forall>p. parent_of s i = Some p \<longrightarrow> p < max_tasks s \<and> st_of s p = Waiting_child \<and>
      st_of (handle_destroy co (handle_of s i) (resumed co i s)) p = Waiting_child)"
proof -
  have inv: "sched_inv s" and J: "J s" and idle: "idle s" using rest by (simp_all add: at_rest_def)
  let ?t = "resumed co i s"
  let ?d = "handle_destroy co (handle_of s i) ?t"
  note t = resumed_inv [OF inv J idle rl] and b = begin_run_inv [OF inv rl]
  have "i < max_tasks ?t" "handle_done co (handle_of ?t i) ?t" using b(4) t(10,12) fin by simp_all
  note d = destroyed_inv [OF t(1,2) this, unfolded t(12)]
  note ev = quiet_evolves [OF d(2)]
  have run: "st_of ?t i = Running" by (rule t(14) [OF fin])
  then have rund: "st_of ?d i = Running" using d(2) by (simp add: quiet_def)
  have act: "is_active (st_of ?t i)" by (rule t(13))
  have par: "parent_of ?d i = parent_of s i" "gen_of ?d i = gen_of s i"
    using quiet_slot(3,4) [OF d(2) act] t(15,16) by simp_all
  have id: "i < max_tasks ?d" "current ?d \<noteq> Some i"
    using b(4) t(3,10) evolvesD(1,2) [OF ev] by simp_all
  have u: "run_turn co i s = wake_parent (parent_of ?d i) (finish i ?d)"
    using fin t(12,15) par(1) by (simp add: run_turn_eq Let_def)
  note f = finish_wake_inv [OF d(1) id(1) rund id(2), folded u]
  have p: "p < max_tasks s \<and> st_of s p = Waiting_child \<and> st_of ?d p = Waiting_child"
    if "parent_of s i = Some p" for p
  proof -
    have "st_of ?d p = Waiting_child"
      by (rule links_okD(2) [OF sched_invD(9) [OF d(1)] id(1)]) (use that par rund in simp_all)
    moreover have "is_active (st_of s i)" using b(5) by simp
    ultimately show ?thesis
      using links_okD(1,2) [OF sched_invD(9) [OF inv] b(4) _ that] by simp
  qed
  have "handle_of (run_turn co i s) i = None" "gen_of (run_turn co i s) i = gen_of s i"
    using par(2) by (simp_all add: u wake_parent_def split: option.split)
  then show ?thesis using f(2,3) p unfolding par by (auto split: option.split)
qed

lemma turns_inv:
  assumes "at_rest J s" and "ready_list s = rs @ ys"
  shows "run_budget co (length rs) s = fold (run_turn co) rs s"
    "at_rest J (fold (run_turn co) rs s)" "progress s (fold (run_turn co) rs s)"
    "\<exists>zs. ready_list (fold (run_turn co) rs s) = ys @ zs"
proof -
  have "run_budget co (length rs) s = fold (run_turn co) rs s \<and> at_rest J (fold (run_turn co) rs s) \<and>
    progress s (fold (run_turn co) rs s) \<and> (\<exists>zs. ready_list (fold (run_turn co) rs s) = ys @ zs)"
    using assms
  proof (induction rs arbitrary: s ys)
    case Nil
    then show ?case by simp
  next
    case (Cons i rs)
    then have rl: "ready_list s = i # (rs @ ys)" by simp
    have inv: "sched_inv s" using Cons.prems(1) by (simp add: at_rest_def)
    note turn = turn_inv [OF Cons.prems(1) rl]
    note b = begin_run_inv [OF inv rl]
    obtain zs where zs: "ready_list (run_turn co i s) = rs @ (ys @ zs)" using turn(3) by auto
    have pop: "ready_pop s = (Some i, snd (ready_pop s))"
      using b(3) by (cases "ready_pop s") (metis ready_pop_fields(13) fst_conv snd_conv)
    have "run_budget co (length (i # rs)) s = run_budget co (length rs) (run_turn co i s)"
      using b(5) by (simp add: pop [symmetric] run_turn_def) (subst pop, simp)
    then show ?case
      using Cons.IH [OF turn(1) zs] progress_trans [OF turn(2)] by auto
  qed
  then show "run_budget co (length rs) s = fold (run_turn co) rs s"
    "at_rest J (fold (run_turn co) rs s)" "progress s (fold (run_turn co) rs s)"
    "\<exists>zs. ready_list (fold (run_turn co) rs s) = ys @ zs" by auto
qed

lemma pass_inv:
  assumes "at_rest J s"
  shows "run_pass co s = fold (run_turn co) (ready_list s) s"
    "at_rest J (run_pass co s)" "progress s (run_pass co s)"
proof -
  have "ready_count s = length (ready_list s)"
    using ready_okD(2) [OF sched_invD(5)] assms by (auto simp: at_rest_def)
  then show e: "run_pass co s = fold (run_turn co) (ready_list s) s"
    using turns_inv(1) [OF assms, of "ready_list s" "[]"] by (simp add: run_pass_def)
  show "at_rest J (run_pass co s)" "progress s (run_pass co s)"
    unfolding e using turns_inv(2,3) [OF assms, of "ready_list s" "[]"] by simp_all
qed

end

section \<open>Polling\<close>

text \<open>
  \<open>external\<close> resolves the external signals (\<open>detail::poll_external_signals\<close>): the
  scheduler relies on it only to keep the invariants and to wake tasks.
\<close>

locale poll_system = coroutines co J for co :: "'a sched_scheme coro" and J +
  fixes external :: "'a sched_scheme \<Rightarrow> 'a sched_scheme"
  assumes external: "sched_inv s \<Longrightarrow> J s \<Longrightarrow>
      sched_inv (external s) \<and> J (external s) \<and> quiet s (external s)"

text \<open>The state in which the due timers are processed: after the clock sample and the signals.\<close>

definition sampled :: "('a sched_scheme \<Rightarrow> 'a sched_scheme) \<Rightarrow> tick_t \<Rightarrow> 'a sched_scheme \<Rightarrow> 'a sched_scheme" where
  "sampled external clock s = external (s\<lparr>in_poll := True, now_us := clock\<rparr>)"

lemma sched_inv_clock [simp]:
  "sched_inv (s\<lparr>in_poll := b, now_us := clock\<rparr>) = sched_inv s"
  "sched_inv (s\<lparr>in_poll := b\<rparr>) = sched_inv s"
  by (rule sched_inv_more; simp)+

lemma step_same_clock:
  "step_same s (s\<lparr>in_poll := b, now_us := clock\<rparr>)" "step_same s (s\<lparr>in_poll := b\<rparr>)"
  by (simp_all add: step_same_def local_same_def)

lemma quiet_idle: "quiet s s' \<Longrightarrow> idle s \<Longrightarrow> idle s'"
  unfolding idle_def
proof (intro conjI allI impI)
  assume q: "quiet s s'" and i: "current s = None \<and> (\<forall>i<max_tasks s. st_of s i \<noteq> Running)"
  note ev = quiet_evolves [OF q]
  show "current s' = None" using evolvesD(2) [OF ev] i by simp
  fix j assume "j < max_tasks s'"
  then have "j < max_tasks s" using evolvesD(1) [OF ev] by simp
  with i slot_step_running [OF evolves_slot [OF ev, of j], unfolded fold_views]
  show "st_of s' j \<noteq> Running" by blast
qed

context poll_system
begin

lemma sampled_inv:
  assumes "at_rest J s"
  shows "at_rest J (sampled external clock s)" "in_poll (sampled external clock s)"
    "now_us (sampled external clock s) = clock"
    "shutting_down (sampled external clock s) = shutting_down s"
    "max_tasks (sampled external clock s) = max_tasks s"
    "\<exists>ys. ready_list (sampled external clock s) = ready_list s @ ys"
    "lives s (sampled external clock s)"
proof -
  let ?s = "s\<lparr>in_poll := True, now_us := clock\<rparr>" and ?t = "sampled external clock s"
  have s: "sched_inv ?s" "J ?s" "idle ?s"
    using assms stable [OF _ step_same_clock(1)] by (simp_all add: at_rest_def idle_def)
  from external [OF s(1,2)] have t: "sched_inv ?t" "J ?t" "quiet ?s ?t" by (simp_all add: sampled_def)
  show "at_rest J ?t" using t quiet_idle [OF t(3) s(3)] by (simp add: at_rest_def)
  note ev = quiet_evolves [OF t(3)]
  show "in_poll ?t" "now_us ?t = clock" "shutting_down ?t = shutting_down s" "max_tasks ?t = max_tasks s"
    using evolvesD [OF ev] by simp_all
  show "\<exists>ys. ready_list ?t = ready_list s @ ys" using evolves_ready [OF ev] by (simp add: ready_list_def)
  show "lives s ?t" using evolves_lives [OF ev] by (simp add: lives_def)
qed

lemma timers_rest:
  assumes rest: "at_rest J s"
  shows "at_rest J (process_due_timers s)"
    "ready_list (process_due_timers s) = ready_list s @ due_list s"
    "same_pass s (process_due_timers s)" "lives s (process_due_timers s)"
proof -
  have inv: "sched_inv s" and J: "J s" and idle: "idle s" using rest by (simp_all add: at_rest_def)
  note v = process_due_views [OF sched_invD(3) [OF inv]] and p = process_due_inv [OF inv]
  have due: "st_of s i = Waiting_timer" if "i \<in> set (due_list s)" for i
    using that by (simp add: set_due_list due_def)
  have "idle (process_due_timers s)" using idle by (auto simp: idle_def v)
  moreover have "step_same s (process_due_timers s)"
    using process_due_next_other [OF inv] due by (auto simp: step_same_def local_same_def v)
  then have "J (process_due_timers s)" by (rule stable [OF J])
  ultimately show "at_rest J (process_due_timers s)" using p(1) by (simp add: at_rest_def)
  show "ready_list (process_due_timers s) = ready_list s @ due_list s" by (fact p)
  show "same_pass s (process_due_timers s)" by (simp add: same_pass_def v)
  have "slot_life (slots s j) (slots (process_due_timers s) j)" for j
    using due by (auto simp: slot_life_def v)
  then show "lives s (process_due_timers s)" by (simp add: lives_def v)
qed

lemma poll_pass_inv:
  fixes clock :: tick_t
  assumes rest: "at_rest J s" and "\<not> in_poll s" "\<not> shutting_down s"
  defines "t \<equiv> sampled external clock s"
  shows "run_poll_pass co external clock s =
      (True, (fold (run_turn co) (ready_list t @ due_list t) (process_due_timers t))\<lparr>in_poll := False\<rparr>)"
    "at_rest J (snd (run_poll_pass co external clock s))"
    "\<not> in_poll (snd (run_poll_pass co external clock s))"
    "now_us (snd (run_poll_pass co external clock s)) = clock"
    "shutting_down (snd (run_poll_pass co external clock s)) = shutting_down s"
    "max_tasks (snd (run_poll_pass co external clock s)) = max_tasks s"
    "lives s (snd (run_poll_pass co external clock s))"
proof -
  note t = sampled_inv [OF rest, of clock, folded t_def]
  let ?p = "process_due_timers t"
  note p = timers_rest [OF t(1)]
  note r = pass_inv [OF p(1)]
  have eq: "run_poll_pass co external clock s = (True, (run_pass co ?p)\<lparr>in_poll := False\<rparr>)"
    using assms(2,3) by (simp add: run_poll_pass_def Let_def t_def sampled_def)
  show "run_poll_pass co external clock s =
      (True, (fold (run_turn co) (ready_list t @ due_list t) ?p)\<lparr>in_poll := False\<rparr>)"
    unfolding eq r(1) p(2) ..
  let ?u = "run_pass co ?p"
  have "J (?u\<lparr>in_poll := False\<rparr>)"
    by (rule stable [OF _ step_same_clock(2)]) (use r(2) in \<open>simp add: at_rest_def\<close>)
  then show "at_rest J (snd (run_poll_pass co external clock s))"
    using r(2) by (simp add: eq at_rest_def idle_def)
  show "\<not> in_poll (snd (run_poll_pass co external clock s))" by (simp add: eq)
  show "now_us (snd (run_poll_pass co external clock s)) = clock"
    "shutting_down (snd (run_poll_pass co external clock s)) = shutting_down s"
    "max_tasks (snd (run_poll_pass co external clock s)) = max_tasks s"
    using r(3) p(3) t(3-5) by (simp_all add: eq progress_def same_pass_def)
  have "lives s ?u" using lives_trans [OF lives_trans [OF t(7) p(4)]] r(3) by (simp add: progress_def)
  then show "lives s (snd (run_poll_pass co external clock s))" by (simp add: eq lives_def)
qed

end

section \<open>Teardown\<close>

definition detach :: "nat \<Rightarrow> 'a sched_scheme \<Rightarrow> 'a sched_scheme" where
  "detach i s = set_state i Completed (set_handle i None s)"

text \<open>The frames owned by the slots, in slot order.\<close>

definition owned_frames :: "'a sched_scheme \<Rightarrow> (nat \<times> nat) list" where
  "owned_frames s = [(i, the (handle_of s i)). i \<leftarrow> [0..<max_tasks s], handle_of s i \<noteq> None]"

text \<open>
  While the scheduler is shutting down, no call a destructor can make gives a slot a frame or
  completes one: \<open>poll()\<close> and \<open>create_task()\<close> are refused and no task is current.
\<close>

locale teardown =
  fixes co :: "'a sched_scheme coro"
  assumes keeps: "shutting_down s \<Longrightarrow>
      shutting_down (co_destroy co f s) \<and> max_tasks (co_destroy co f s) = max_tasks s \<and>
      handle_of (co_destroy co f s) = handle_of s \<and>
      (\<forall>i. st_of (co_destroy co f s) i = Completed \<longrightarrow> st_of s i = Completed)"
begin

lemma teardown_fold:
  assumes "shutting_down s" and "\<forall>i \<in> set is. handle_of s i \<noteq> None \<longrightarrow> st_of s i \<noteq> Completed" "distinct is"
  shows "fold (teardown_slot co) is s =
      fold (\<lambda>(i, f) s. co_destroy co f (detach i s)) [(i, the (handle_of s i)). i \<leftarrow> is, handle_of s i \<noteq> None] s"
    and "handle_of (fold (teardown_slot co) is s) = (\<lambda>i. if i \<in> set is then None else handle_of s i)"
  using assms
proof (induction "is" arbitrary: s)
  case (Cons i "is")
  {
    case 1
    show ?case
    proof (cases "handle_of s i")
      case None
      then show ?thesis using Cons.IH(1) [of s] 1 by (simp add: teardown_slot_def)
    next
      case (Some f)
      let ?s = "co_destroy co f (detach i s)"
      have sd: "shutting_down (detach i s)" using 1 by (simp add: detach_def)
      note k = keeps [OF sd, of f]
      have kd: "shutting_down ?s" using k by simp
      have h: "handle_of ?s = (handle_of s)(i := None)"
        using k by (auto simp: detach_def fun_eq_iff)
      have st: "st_of ?s j \<noteq> Completed" if "j \<noteq> i" "st_of s j \<noteq> Completed" for j
        using k that by (auto simp: detach_def)
      have "fold (teardown_slot co) is ?s =
          fold (\<lambda>(i, f) s. co_destroy co f (detach i s)) [(j, the (handle_of ?s j)). j \<leftarrow> is, handle_of ?s j \<noteq> None] ?s"
        by (rule Cons.IH(1)) (use kd 1 st in \<open>auto simp: h split: if_splits\<close>)
      moreover have "[(j, the (handle_of ?s j)). j \<leftarrow> is, handle_of ?s j \<noteq> None] =
          [(j, the (handle_of s j)). j \<leftarrow> is, handle_of s j \<noteq> None]"
        by (rule arg_cong [where f = concat], rule map_cong) (use 1 in \<open>auto simp: h\<close>)
      moreover have "teardown_slot co i s = ?s"
        using Some 1 by (simp add: teardown_slot_def detach_def handle_destroy_def Let_def)
      ultimately show ?thesis using Some by simp
    qed
  next
    case 2
    show ?case
    proof (cases "handle_of s i")
      case None
      then show ?thesis using Cons.IH(2) [of s] 2 by (auto simp: teardown_slot_def fun_eq_iff)
    next
      case (Some f)
      let ?s = "co_destroy co f (detach i s)"
      have sd: "shutting_down (detach i s)" using 2 by (simp add: detach_def)
      note k = keeps [OF sd, of f]
      have kd: "shutting_down ?s" using k by simp
      have h: "handle_of ?s = (handle_of s)(i := None)"
        using k by (auto simp: detach_def fun_eq_iff)
      have st: "st_of ?s j \<noteq> Completed" if "j \<noteq> i" "st_of s j \<noteq> Completed" for j
        using k that by (auto simp: detach_def)
      have "handle_of (fold (teardown_slot co) is ?s) = (\<lambda>j. if j \<in> set is then None else handle_of ?s j)"
        by (rule Cons.IH(2)) (use kd 2 st in \<open>auto simp: h split: if_splits\<close>)
      moreover have "teardown_slot co i s = ?s"
        using Some 2 by (simp add: teardown_slot_def detach_def handle_destroy_def Let_def)
      ultimately show ?thesis by (auto simp: h fun_eq_iff)
    qed
  }
qed simp_all

lemma destructor_frames:
  assumes "\<forall>i < max_tasks s. handle_of s i \<noteq> None \<longrightarrow> st_of s i \<noteq> Completed"
  shows "sched_destructor co s =
      fold (\<lambda>(i, f) s. co_destroy co f (detach i s)) (owned_frames s) (s\<lparr>shutting_down := True\<rparr>)"
    "i < max_tasks s \<Longrightarrow> handle_of (sched_destructor co s) i = None"
proof -
  have h: "handle_of (s\<lparr>shutting_down := True\<rparr>) = handle_of s" by simp
  note f = teardown_fold [of "s\<lparr>shutting_down := True\<rparr>" "[0..<max_tasks s]", unfolded h]
  show "sched_destructor co s =
      fold (\<lambda>(i, f) s. co_destroy co f (detach i s)) (owned_frames s) (s\<lparr>shutting_down := True\<rparr>)"
    using f(1) assms by (simp add: sched_destructor_def owned_frames_def)
  show "i < max_tasks s \<Longrightarrow> handle_of (sched_destructor co s) i = None"
    using f(2) assms by (simp add: sched_destructor_def)
qed

end

section \<open>The program around the scheduler\<close>

text \<open>
  What code outside any task does between two polls: call coroutine functions, move and
  destroy \<open>Task\<close> objects, create tasks, poll. The arguments are arbitrary.
\<close>

inductive main_step ::
    "'a sched_scheme coro \<Rightarrow> ('a sched_scheme \<Rightarrow> 'a sched_scheme) \<Rightarrow> 'a sched_scheme \<Rightarrow> 'a sched_scheme \<Rightarrow> bool"
  for co external where
  call: "main_step co external s s'" if "coroutine_call c sz t s = Some s'"
| move: "main_step co external s (task_move t u s)"
| assign: "main_step co external s (task_assign (co_destroy co) t u s)"
| drop: "main_step co external s (task_destructor (co_destroy co) t s)"
| create: "main_step co external s (snd (create_task t s))"
| spawned: "main_step co external s (spawn t s)"
| poll: "main_step co external s (poll co external clock s)"
| wait: "main_step co external s (snd (poll_and_wait co external he clock s))"

inductive_cases main_stepE: "main_step co external s s'"

lemma coroutine_call_fields:
  assumes "coroutine_call c sz t s = Some s'"
  shows "slots s' = slots s" "max_tasks s' = max_tasks s" "ready_head s' = ready_head s"
    "ready_tail s' = ready_tail s" "ready_count s' = ready_count s" "active_count s' = active_count s"
    "peak_count s' = peak_count s" "current s' = current s" "in_poll s' = in_poll s"
    "shutting_down s' = shutting_down s" "now_us s' = now_us s" "nearest_deadline s' = nearest_deadline s"
    "sched.more s' = sched.more s" "\<exists>es. hook_log s' = hook_log s @ es"
  using assms
  by (auto simp: coroutine_call_def frame_alloc_def task_default_def Let_def on_error_def set_task_def
      split: option.splits if_splits)

lemma quiet_core:
  assumes "slots s' = slots s" "max_tasks s' = max_tasks s" "ready_head s' = ready_head s"
    "ready_count s' = ready_count s" "current s' = current s" "in_poll s' = in_poll s"
    "shutting_down s' = shutting_down s" "now_us s' = now_us s" "\<exists>es. hook_log s' = hook_log s @ es"
  shows "quiet s s'"
proof -
  have "evolves s s'" by (rule evolvesI) (use assms in \<open>simp_all add: ready_list_def\<close>)
  then show ?thesis using assms(1) by (simp add: quiet_def)
qed

lemma quiet_set_task: "quiet s (set_task t h s)"
  by (rule quiet_core) simp_all

lemma create_task_more: "sched.more (snd (create_task t s)) = sched.more s"
  using acquire_slot_shape [of s]
  by (auto simp: create_task_def schedule_cases Let_def split: option.split)

lemma adopt_next_other:
  assumes "ready_ok s" and "j \<noteq> i" and "st_of s j \<noteq> Ready"
  shows "next_of (adopt i h p s) j = next_of s j"
proof -
  have "ready_tail s \<noteq> Some j" using ready_okD(1,4) [OF assms(1)] assms(3) fifo_tail_in by metis
  then show ?thesis using assms(2) by (auto simp: adopt_def ready_push_next split: option.split)
qed

text \<open>Creating a task disturbs no task that exists, and in particular no parked one.\<close>

lemma create_task_quiet:
  assumes inv: "sched_inv s"
  shows "quiet s (snd (create_task t s))" "local_same s (snd (create_task t s))"
proof -
  let ?s = "snd (create_task t s)"
  have ev: "evolves s ?s" using schedule_inv(2) [OF inv, of t] by (simp add: create_task_def)
  have "(\<forall>i. st_of s i = Running \<longrightarrow> st_of ?s i = Running) \<and> local_same s ?s"
  proof (cases "shutting_down s \<or> tasks s t = None \<or> fst (acquire_slot s) = None")
    case True
    then have "?s = s \<or> (\<exists>e. ?s = on_error e s)"
      using acquire_slot_shape [of s] by (auto simp: create_task_def schedule_cases split: option.split)
    then show ?thesis by (auto simp: local_same_def)
  next
    case False
    then obtain f k where f: "tasks s t = Some f" and a: "acquire_slot s = (Some k, set_generation k (gen_of s k + 1) s)"
      using acquire_slot_shape [of s] by auto
    let ?g = "set_generation k (gen_of s k + 1) (set_task t None s)"
    have eq: "?s = adopt k (Some f) None ?g"
      using False f a by (simp add: create_task_def schedule_cases Let_def set_task_upd_slot)
    note aq = acquire_Some [OF a]
    have r: "ready_ok ?g" using inv sched_invD(5) [of ?g] by simp
    have nx: "next_of ?s j = next_of s j" if "st_of s j = Waiting_local" for j
    proof -
      have "j \<noteq> k" using that aq(2) by auto
      then show ?thesis using adopt_next_other [OF r, of j k] that by (simp add: eq)
    qed
    show ?thesis unfolding local_same_def using nx aq(2) create_task_more by (auto simp: eq)
  qed
  then show "quiet s ?s" "local_same s ?s" using ev by (simp_all add: quiet_def)
qed

lemma wait_is_poll: "snd (poll_and_wait co external he clock s) = poll co external clock s"
  by (simp add: poll_and_wait_def poll_def split: prod.split)

text \<open>The states between two calls: nothing runs and the scheduler is not being torn down.\<close>

definition outside :: "('a sched_scheme \<Rightarrow> bool) \<Rightarrow> 'a sched_scheme \<Rightarrow> bool" where
  "outside J s \<longleftrightarrow> at_rest J s \<and> \<not> in_poll s \<and> \<not> shutting_down s"

text \<open>
  The invariant may also be one that any code outside a task keeps: it survives changes of the
  \<open>Task\<close> objects and of the pool, new tasks, and the destruction of any frame.
\<close>

locale main_system = poll_system co J external for co :: "'a sched_scheme coro" and J external +
  assumes destroy_any: "sched_inv s \<Longrightarrow> J s \<Longrightarrow>
      sched_inv (co_destroy co f s) \<and> J (co_destroy co f s) \<and> quiet s (co_destroy co f s)"
    and stable_any: "J s \<Longrightarrow> local_same s s' \<Longrightarrow> J s'"

context poll_system
begin

lemma poll_outside:
  assumes o: "outside J s"
  shows "outside J (poll co external clock s) \<and> lives s (poll co external clock s)"
  using o poll_pass_inv(2,3,5,7) [of s clock] by (simp add: outside_def poll_def)

end

context main_system
begin

lemma outside_quiet:
  assumes "outside J s" "sched_inv s'" "J s'" "quiet s s'"
  shows "outside J s' \<and> lives s s'"
  using assms quiet_idle [OF assms(4)] evolvesD(3,4) [OF quiet_evolves [OF assms(4)]]
    evolves_lives [OF quiet_evolves [OF assms(4)]]
  by (simp add: outside_def at_rest_def)

lemma outside_set_task:
  assumes "outside J s"
  shows "outside J (set_task t h s)"
proof -
  have "J (set_task t h s)" by (rule stable_any [of s]) (use assms in \<open>simp_all add: outside_def at_rest_def local_same_def\<close>)
  then show ?thesis using assms by (simp add: outside_def at_rest_def idle_def)
qed

lemma outside_destroy:
  assumes "outside J s"
  shows "outside J (co_destroy co f s) \<and> lives s (co_destroy co f s)"
  using outside_quiet [OF assms] destroy_any [of s f] assms by (simp add: outside_def at_rest_def)

lemma create_task_outside:
  assumes o: "outside J s"
  shows "outside J (snd (create_task t s)) \<and> lives s (snd (create_task t s))"
proof -
  have inv: "sched_inv s" and J: "J s" using o by (simp_all add: outside_def at_rest_def)
  show ?thesis
    by (rule outside_quiet [OF o _ stable_any [OF J create_task_quiet(2) [OF inv]] create_task_quiet(1) [OF inv]])
      (use schedule_inv(1) [OF inv] in \<open>simp add: create_task_def\<close>)
qed

lemma main_step_outside:
  assumes "main_step co external s s'" and o: "outside J s"
  shows "outside J s' \<and> lives s s'"
  using assms(1)
proof cases
  case (call c sz t)
  note f = coroutine_call_fields [OF call]
  have q: "quiet s s'" by (rule quiet_core) (use f in simp_all)
  have "sched_inv s'" using o f by (subst sched_inv_more [of _ s]) (simp_all add: outside_def at_rest_def)
  moreover have "J s'" by (rule stable_any [of s]) (use o f in \<open>simp_all add: outside_def at_rest_def local_same_def\<close>)
  ultimately show ?thesis using outside_quiet [OF o _ _ q] by blast
next
  case (move t u)
  then show ?thesis
    using outside_set_task [OF outside_set_task [OF o]]
      evolves_lives [OF evolves_trans [OF set_task_evolves set_task_evolves]]
    by (simp add: task_move_def Let_def)
next
  case (assign t u)
  let ?s2 = "set_task u None (set_task t (tasks s u) s)"
  have o2: "outside J ?s2" by (intro outside_set_task o)
  have l2: "lives s ?s2" by (rule evolves_lives [OF evolves_trans [OF set_task_evolves set_task_evolves]])
  then show ?thesis
    using assign o o2 outside_destroy [OF o2] lives_trans [OF l2]
    by (auto simp: task_assign_def Let_def split: option.split)
next
  case (drop t)
  have o2: "outside J (set_task t None s)" by (intro outside_set_task o)
  have l2: "lives s (set_task t None s)" by (rule evolves_lives [OF set_task_evolves])
  then show ?thesis
    using drop o o2 outside_destroy [OF o2] lives_trans [OF l2]
    by (auto simp: task_destructor_def task_reset_def Let_def split: option.split)
next
  case (create t)
  then show ?thesis using create_task_outside [OF o] by simp
next
  case (spawned t)
  then show ?thesis using create_task_outside [OF o] by (simp add: spawn_def create_task_def)
next
  case (poll clock)
  then show ?thesis using poll_outside [OF o] by simp
next
  case (wait he clock)
  then have "s' = poll co external clock s" by (simp add: wait_is_poll)
  then show ?thesis using poll_outside [OF o] by simp
qed

lemma main_steps_outside:
  assumes "(main_step co external)\<^sup>*\<^sup>* s s'" and "outside J s"
  shows "outside J s' \<and> lives s s'"
  using assms
proof (induction rule: rtranclp_induct)
  case base
  then show ?case by simp
next
  case (step t u)
  then show ?case using main_step_outside [OF step.hyps(2)] lives_trans by blast
qed

end

end
