(* ===== verification/Event.thy ===== *)
theory Event
  imports Scheduler_Run
begin

text \<open>
  \<open>class Event\<close> (event.h): a latch and a wait queue threaded through the slots of the parked
  tasks. The program's events are a function of a number, their address. The lemmas show that
  the waiters of an event are a FIFO list, that \<open>set()\<close> always ends and wakes exactly them in
  their order, and that no operation on one event disturbs another.
\<close>

section \<open>State and operations\<close>

record event =
  ev_set :: bool
  ev_waiters :: wait_queue

record ev_world = sched +
  events :: "nat \<Rightarrow> event"

definition event_init :: event where
  "event_init = \<lparr>ev_set = False, ev_waiters = wq_init\<rparr>"

definition upd_event :: "nat \<Rightarrow> event \<Rightarrow> 'a ev_world_scheme \<Rightarrow> 'a ev_world_scheme" where
  "upd_event e x s = s\<lparr>events := (events s)(e := x)\<rparr>"

definition event_construct :: "nat \<Rightarrow> 'a ev_world_scheme \<Rightarrow> 'a ev_world_scheme" where
  "event_construct e s = upd_event e event_init s"

definition event_destructor :: "nat \<Rightarrow> 'a ev_world_scheme \<Rightarrow> 'a ev_world_scheme" where
  "event_destructor e s =
     (if \<not> wq_empty (ev_waiters (events s e)) then on_error Object_destroyed_with_waiters s else s)"

definition event_ready :: "nat \<Rightarrow> 'a ev_world_scheme \<Rightarrow> bool" where
  "event_ready e s = ev_set (events s e)"

text \<open>\<open>park\<close>, called by the awaiter's \<open>await_suspend\<close>.\<close>

definition event_park :: "nat \<Rightarrow> nat option \<Rightarrow> 'a ev_world_scheme \<Rightarrow> bool \<times> 'a ev_world_scheme" where
  "event_park e awaiting s =
     (case wait_on awaiting (ev_waiters (events s e)) s of
        (b, q, s1) \<Rightarrow> (b, upd_event e ((events s1 e)\<lparr>ev_waiters := q\<rparr>) s1))"

definition event_suspend :: "nat \<Rightarrow> nat option \<Rightarrow> 'a ev_world_scheme \<Rightarrow> bool \<times> 'a ev_world_scheme" where
  "event_suspend e awaiting s = event_park e awaiting s"

definition event_set :: "nat \<Rightarrow> 'a ev_world_scheme \<Rightarrow> 'a ev_world_scheme option" where
  "event_set e s =
     (let s1 = upd_event e ((events s e)\<lparr>ev_set := True\<rparr>) s
      in case wake_all (ev_waiters (events s1 e)) s1 of
           None \<Rightarrow> None
         | Some (q, s2) \<Rightarrow> Some (upd_event e ((events s2 e)\<lparr>ev_waiters := q\<rparr>) s2))"

definition event_clear :: "nat \<Rightarrow> 'a ev_world_scheme \<Rightarrow> 'a ev_world_scheme" where
  "event_clear e s = upd_event e ((events s e)\<lparr>ev_set := False\<rparr>) s"

definition event_is_set :: "nat \<Rightarrow> 'a ev_world_scheme \<Rightarrow> bool" where
  "event_is_set e s = ev_set (events s e)"

section \<open>The waiters of an event\<close>

text \<open>A queue of parked slots is read off the links; it has at most \<open>max_tasks\<close> members.\<close>

definition wq_list :: "wait_queue \<Rightarrow> 'a sched_scheme \<Rightarrow> nat list" where
  "wq_list q s = walk (max_tasks s) (next_of s) (wq_head q)"

lemma walk_long: "chain nxt h xs \<Longrightarrow> length xs \<le> n \<Longrightarrow> walk n nxt h = xs"
proof (induction xs arbitrary: h n)
  case Nil
  then show ?case by (cases n) auto
next
  case (Cons x xs)
  then show ?case by (cases n) auto
qed

lemma wq_rep_list: "wq_rep q s ws \<Longrightarrow> wq_list q s = ws"
proof -
  assume r: "wq_rep q s ws"
  have "set ws \<subseteq> {..<max_tasks s}" "distinct ws"
    using r by (auto simp: wq_rep_def fifo_distinct)
  then have "length ws \<le> max_tasks s"
    by (metis card_lessThan card_mono distinct_card finite_lessThan)
  then show ?thesis using r by (simp add: wq_rep_def fifo_def wq_list_def walk_long)
qed

definition waiters :: "nat \<Rightarrow> 'a ev_world_scheme \<Rightarrow> nat list" where
  "waiters e s = wq_list (ev_waiters (events s e)) s"

text \<open>Every event's queue is well formed, and no task waits for two events.\<close>

definition events_ok :: "'a ev_world_scheme \<Rightarrow> bool" where
  "events_ok s \<longleftrightarrow> (\<forall>e. wq_rep (ev_waiters (events s e)) s (waiters e s)) \<and>
     (\<forall>e d i. i \<in> set (waiters e s) \<and> i \<in> set (waiters d s) \<longrightarrow> e = d)"

lemma events_okD:
  assumes "events_ok s"
  shows "wq_rep (ev_waiters (events s e)) s (waiters e s)"
    "i \<in> set (waiters e s) \<Longrightarrow> i \<in> set (waiters d s) \<Longrightarrow> e = d"
    "i \<in> set (waiters e s) \<Longrightarrow> i < max_tasks s \<and> st_of s i = Waiting_local"
    "distinct (waiters e s)"
proof -
  show r: "wq_rep (ev_waiters (events s e)) s (waiters e s)" using assms by (simp add: events_ok_def)
  show "i \<in> set (waiters e s) \<Longrightarrow> i \<in> set (waiters d s) \<Longrightarrow> e = d"
    using assms unfolding events_ok_def by blast
  show "i \<in> set (waiters e s) \<Longrightarrow> i < max_tasks s \<and> st_of s i = Waiting_local" "distinct (waiters e s)"
    using r by (auto simp: wq_rep_def fifo_distinct)
qed

lemma events_okI:
  assumes "\<And>e. wq_rep (ev_waiters (events s e)) s (ws e)"
    and "\<And>e d i. i \<in> set (ws e) \<Longrightarrow> i \<in> set (ws d) \<Longrightarrow> e = d"
  shows "events_ok s" "waiters e s = ws e"
proof -
  have w: "waiters e s = ws e" for e using wq_rep_list [OF assms(1)] by (simp add: waiters_def)
  then show "waiters e s = ws e" .
  show "events_ok s" using assms unfolding events_ok_def w by blast
qed

text \<open>Steps that leave the events and the parked slots alone.\<close>

lemma events_ok_keep:
  assumes ok: "events_ok s" and "max_tasks s' = max_tasks s"
    and "\<And>e. ev_waiters (events s' e) = ev_waiters (events s e)"
    and "\<And>e i. i \<in> set (waiters e s) \<Longrightarrow> st_of s' i = Waiting_local \<and> next_of s' i = next_of s i"
  shows "events_ok s'" "waiters e s' = waiters e s"
proof -
  have r: "wq_rep (ev_waiters (events s' e)) s' (waiters e s)" for e
    unfolding assms(3) by (rule wq_rep_keep [OF events_okD(1) [OF ok] assms(2) assms(4)])
  show "events_ok s'" by (rule events_okI(1) [OF r]) (rule events_okD(2) [OF ok])
  show "waiters e s' = waiters e s"
    by (rule events_okI(2) [of s' "\<lambda>e. waiters e s", OF r]) (rule events_okD(2) [OF ok])
qed

lemma upd_event_simps [simp]:
  "events (upd_event e x s) = (events s)(e := x)" "slots (upd_event e x s) = slots s"
  "max_tasks (upd_event e x s) = max_tasks s" "ready_head (upd_event e x s) = ready_head s"
  "ready_tail (upd_event e x s) = ready_tail s" "ready_count (upd_event e x s) = ready_count s"
  "active_count (upd_event e x s) = active_count s" "peak_count (upd_event e x s) = peak_count s"
  "current (upd_event e x s) = current s" "in_poll (upd_event e x s) = in_poll s"
  "shutting_down (upd_event e x s) = shutting_down s" "now_us (upd_event e x s) = now_us s"
  "nearest_deadline (upd_event e x s) = nearest_deadline s" "hook_log (upd_event e x s) = hook_log s"
  "tasks (upd_event e x s) = tasks s" "fpool (upd_event e x s) = fpool s"
  "ready_list (upd_event e x s) = ready_list s" "ev_world.more (upd_event e x s) = ev_world.more s"
  by (simp_all add: upd_event_def ready_list_def)

lemma upd_event_inv [simp]: "sched_inv (upd_event e x s) = sched_inv s"
  by (rule sched_inv_more) simp_all

lemma upd_event_quiet: "quiet s (upd_event e x s)"
  by (rule quiet_core) simp_all

text \<open>The scheduler does not touch the events.\<close>


lemma events_of_more:
  "sched.more s' = sched.more s \<Longrightarrow> events s' = events s"
  "sched.more s' = sched.more s \<Longrightarrow> ev_world.more s' = ev_world.more s"
  for s :: "'a ev_world_scheme"
  by (cases s; cases s'; simp)+

section \<open>The operations\<close>

text \<open>\<open>set()\<close>: the loop ends, the waiters become ready in their order, the queue is empty.\<close>

lemma event_set_inv:
  assumes inv: "sched_inv s" and ok: "events_ok s"
  obtains s' where "event_set e s = Some s'" "sched_inv s'" "events_ok s'" "quiet s s'"
    "ready_list s' = ready_list s @ waiters e s" "ev_set (events s' e)" "waiters e s' = []"
    "\<And>d. d \<noteq> e \<Longrightarrow> events s' d = events s d" "\<And>d. d \<noteq> e \<Longrightarrow> waiters d s' = waiters d s"
    "st_of s' = (\<lambda>i. if i \<in> set (waiters e s) then Ready else st_of s i)"
    "ev_world.more s' = ev_world.more s" "max_tasks s' = max_tasks s"
    "\<And>j. j \<notin> set (waiters e s) \<Longrightarrow> st_of s j = Waiting_local \<Longrightarrow> next_of s' j = next_of s j"
proof -
  let ?s1 = "upd_event e ((events s e)\<lparr>ev_set := True\<rparr>) s"
  let ?ws = "waiters e s"
  have inv1: "sched_inv ?s1" using inv by simp
  have rep1: "wq_rep (ev_waiters (events s e)) ?s1 ?ws"
    by (rule wq_rep_keep [OF events_okD(1) [OF ok]]) (use events_okD(3) [OF ok] in simp_all)
  note w = wake_all_fifo [OF inv1 rep1] and v = wake_all_views [OF inv1 rep1]
  let ?s2 = "fold make_ready ?ws ?s1"
  have ev2: "events ?s2 = events ?s1" "ev_world.more ?s2 = ev_world.more ?s1"
    using events_of_more [OF v(2)] by simp_all
  let ?s' = "upd_event e ((events ?s2 e)\<lparr>ev_waiters := wq_init\<rparr>) ?s2"
  have set: "event_set e s = Some ?s'"
    using w(1) by (simp add: event_set_def Let_def)
  have inv': "sched_inv ?s'" using w(2) by simp
  have q: "quiet s ?s'"
    by (rule quiet_trans [OF upd_event_quiet quiet_trans [OF w(3) upd_event_quiet]])
  have rep: "wq_rep (ev_waiters (events ?s' d)) ?s' (if d = e then [] else waiters d s)" for d
  proof (cases "d = e")
    case False
    have i: "st_of ?s' i = Waiting_local \<and> next_of ?s' i = next_of s i" if "i \<in> set (waiters d s)" for i
    proof -
      have ni: "i \<notin> set ?ws" using events_okD(2) [OF ok that] False by blast
      have "st_of s i = Waiting_local" using events_okD(3) [OF ok that] by simp
      then show ?thesis using ni v(1) v(4) [of i] by simp
    qed
    have "max_tasks ?s' = max_tasks s" by (simp add: v(3))
    from wq_rep_keep [OF events_okD(1) [OF ok, of d] this i]
    show ?thesis using False by (simp add: ev2)
  qed (simp add: wq_rep_def wq_init_def fifo_empty)
  have disj: "d = c" if "i \<in> set (if d = e then [] else waiters d s)" "i \<in> set (if c = e then [] else waiters c s)" for c d i
    using that events_okD(2) [OF ok] by (auto split: if_splits)
  have o1: "events_ok ?s'" by (rule events_okI(1) [where ws = "\<lambda>d. if d = e then [] else waiters d s"], rule rep, erule disj)
  have o2: "waiters d ?s' = (\<lambda>d. if d = e then [] else waiters d s) d" for d
    by (rule events_okI(2) [where ws = "\<lambda>d. if d = e then [] else waiters d s"], rule rep, erule disj)
  show thesis
  proof (rule that [OF set inv' o1 q])
    show "ready_list ?s' = ready_list s @ ?ws" using w(4) by simp
    show "ev_set (events ?s' e)" by (simp add: ev2)
    show "waiters e ?s' = []" using o2 [of e] by simp
    show "events ?s' d = events s d" "waiters d ?s' = waiters d s" if "d \<noteq> e" for d
      using that o2 [of d] by (simp_all add: ev2)
    show "st_of ?s' = (\<lambda>i. if i \<in> set ?ws then Ready else st_of s i)" using v(1) by (auto simp: fun_eq_iff)
    show "ev_world.more ?s' = ev_world.more s" using ev2(2) by simp
    show "max_tasks ?s' = max_tasks s" by (simp add: v(3))
    show "next_of ?s' j = next_of s j" if "j \<notin> set ?ws" "st_of s j = Waiting_local" for j
      using v(4) [of j] that by simp
  qed
qed

text \<open>Parking the running task appends it to the waiters of the event.\<close>

lemma event_park_inv:
  assumes inv: "sched_inv s" and ok: "events_ok s"
    and run: "current s = Some i" "st_of s i = Running" "handle_of s i = h"
  obtains s' where "event_suspend e h s = (True, s')" "sched_inv s'" "events_ok s'" "evolves s s'"
    "waiters e s' = waiters e s @ [i]" "ev_set (events s' e) = ev_set (events s e)"
    "\<And>d. d \<noteq> e \<Longrightarrow> events s' d = events s d" "\<And>d. d \<noteq> e \<Longrightarrow> waiters d s' = waiters d s"
    "st_of s' = (st_of s)(i := Waiting_local)" "ready_list s' = ready_list s"
    "ev_world.more s' = ev_world.more s" "max_tasks s' = max_tasks s"
    "\<And>j. j \<notin> set (waiters e s) \<Longrightarrow> j \<noteq> i \<Longrightarrow> next_of s' j = next_of s j"
proof -
  let ?ws = "waiters e s"
  obtain b q s1 where r: "wait_on h (ev_waiters (events s e)) s = (b, q, s1)"
    by (cases "wait_on h (ev_waiters (events s e)) s") auto
  note w = wait_on_inv [OF inv events_okD(1) [OF ok] run r]
  have ev1: "events s1 = events s" "ev_world.more s1 = ev_world.more s"
    using events_of_more [OF w(6)] by simp_all
  let ?s' = "upd_event e ((events s1 e)\<lparr>ev_waiters := q\<rparr>) s1"
  have eq: "event_suspend e h s = (True, ?s')"
    using w(1) by (simp add: event_suspend_def event_park_def r)
  have inv': "sched_inv ?s'" using w(3) by simp
  have ev: "evolves s ?s'" by (rule evolves_trans [OF w(4) quiet_evolves [OF upd_event_quiet]])
  have nw: "i \<notin> set (waiters d s)" for d using events_okD(3) [OF ok, of i d] run(2) by auto
  have rep: "wq_rep (ev_waiters (events ?s' d)) ?s' (if d = e then ?ws @ [i] else waiters d s)" for d
  proof (cases "d = e")
    case True
    then show ?thesis using w(2) by (simp add: wq_rep_def)
  next
    case False
    have j: "st_of ?s' j = Waiting_local \<and> next_of ?s' j = next_of s j" if "j \<in> set (waiters d s)" for j
    proof -
      have nj: "j \<notin> set ?ws" "j \<noteq> i" using events_okD(2) [OF ok that] False nw that by blast+
      have "st_of s j = Waiting_local" using events_okD(3) [OF ok that] by simp
      then show ?thesis using nj w(5) w(9) [of j] by simp
    qed
    have "max_tasks ?s' = max_tasks s" by (simp add: w(7))
    from wq_rep_keep [OF events_okD(1) [OF ok, of d] this j]
    show ?thesis using False by (simp add: ev1)
  qed
  have disj: "d = c" if "k \<in> set (if d = e then ?ws @ [i] else waiters d s)"
      "k \<in> set (if c = e then ?ws @ [i] else waiters c s)" for c d k
    using that events_okD(2) [OF ok] nw by (auto split: if_splits)
  have o1: "events_ok ?s'" by (rule events_okI(1) [where ws = "\<lambda>d. if d = e then ?ws @ [i] else waiters d s"], rule rep, erule disj)
  have o2: "waiters d ?s' = (\<lambda>d. if d = e then ?ws @ [i] else waiters d s) d" for d
    by (rule events_okI(2) [where ws = "\<lambda>d. if d = e then ?ws @ [i] else waiters d s"], rule rep, erule disj)
  show thesis
  proof (rule that [OF eq inv' o1 ev])
    show "waiters e ?s' = ?ws @ [i]" using o2 [of e] by simp
    show "ev_set (events ?s' e) = ev_set (events s e)" by (simp add: ev1)
    show "events ?s' d = events s d" "waiters d ?s' = waiters d s" if "d \<noteq> e" for d
      using that o2 [of d] by (simp_all add: ev1)
    show "st_of ?s' = (st_of s)(i := Waiting_local)" "ready_list ?s' = ready_list s"
      "ev_world.more ?s' = ev_world.more s" "max_tasks ?s' = max_tasks s"
      using w ev1 by simp_all
    show "next_of ?s' j = next_of s j" if "j \<notin> set ?ws" "j \<noteq> i" for j using w(9) [OF that] by simp
  qed
qed

lemma event_clear_inv:
  assumes "sched_inv s" "events_ok s"
  shows "sched_inv (event_clear e s)" "events_ok (event_clear e s)" "quiet s (event_clear e s)"
    "waiters d (event_clear e s) = waiters d s"
proof -
  have k: "\<And>d. ev_waiters (events (event_clear e s) d) = ev_waiters (events s d)"
    by (simp add: event_clear_def)
  show "sched_inv (event_clear e s)" "quiet s (event_clear e s)"
    using assms(1) upd_event_quiet by (simp_all add: event_clear_def)
  show "events_ok (event_clear e s)" "waiters d (event_clear e s) = waiters d s"
    by (rule events_ok_keep [OF assms(2) _ k]; use events_okD(3) [OF assms(2)] in \<open>simp add: event_clear_def\<close>)+
qed

section \<open>Properties\<close>

text \<open>C37. \<open>set()\<close> always returns; it latches the event and moves all of its
  waiters, in the order in which they began to wait, behind the tasks that are ready, so they
  run in a later pass; its queue is empty afterwards, other events keep their state and their
  waiters, and the invariants hold. A later \<open>wait()\<close> does not suspend until \<open>clear()\<close>.\<close>

theorem event_set_wakes_all:
  assumes "sched_inv s" and "events_ok s"
  shows "\<exists>s'. event_set e s = Some s' \<and> ready_list s' = ready_list s @ waiters e s \<and> waiters e s' = [] \<and>
    event_is_set e s' \<and> event_ready e s' \<and> \<not> event_ready e (event_clear e s') \<and>
    (\<forall>i. st_of s' i = (if i \<in> set (waiters e s) then Ready else st_of s i)) \<and>
    (\<forall>d. d \<noteq> e \<longrightarrow> event_is_set d s' = event_is_set d s \<and> waiters d s' = waiters d s) \<and>
    sched_inv s' \<and> events_ok s'"
  by (rule event_set_inv [OF assms, of e], rule exI, intro conjI, assumption+)
    (simp_all add: event_is_set_def event_ready_def event_clear_def)

text \<open>\<open>wait()\<close> on a clear event parks the running task behind the tasks
  that already wait for it, not queued for running; a coroutine that is not the running task
  is told to go on, the error is reported and the event is unchanged.\<close>

theorem event_wait_parks:
  assumes "sched_inv s" and "events_ok s"
  shows "(\<forall>i. current s = Some i \<and> st_of s i = Running \<and> handle_of s i = h \<longrightarrow>
      (\<exists>s'. event_suspend e h s = (True, s') \<and> waiters e s' = waiters e s @ [i] \<and>
        st_of s' = (st_of s)(i := Waiting_local) \<and> ready_list s' = ready_list s \<and>
        (\<forall>d. d \<noteq> e \<longrightarrow> waiters d s' = waiters d s) \<and> sched_inv s' \<and> events_ok s')) \<and>
    ((\<nexists>i. current s = Some i \<and> st_of s i = Running \<and> handle_of s i = h) \<longrightarrow>
      event_suspend e h s = (False, on_error Invalid_task s))"
proof (intro conjI allI impI)
  fix i assume r: "current s = Some i \<and> st_of s i = Running \<and> handle_of s i = h"
  then have run: "current s = Some i" "st_of s i = Running" "handle_of s i = h" by auto
  show "\<exists>s'. event_suspend e h s = (True, s') \<and> waiters e s' = waiters e s @ [i] \<and>
      st_of s' = (st_of s)(i := Waiting_local) \<and> ready_list s' = ready_list s \<and>
      (\<forall>d. d \<noteq> e \<longrightarrow> waiters d s' = waiters d s) \<and> sched_inv s' \<and> events_ok s'"
    by (rule event_park_inv [OF assms run, of e]) (intro exI conjI; (assumption | simp))
next
  assume "\<nexists>i. current s = Some i \<and> st_of s i = Running \<and> handle_of s i = h"
  then have "wait_on h (ev_waiters (events s e)) s = (False, ev_waiters (events s e), on_error Invalid_task s)"
    by (auto simp: wait_on_def split: option.split)
  moreover have "upd_event e (events s e) (on_error Invalid_task s) = on_error Invalid_task s"
    by (simp add: upd_event_def on_error_def)
  ultimately show "event_suspend e h s = (False, on_error Invalid_task s)"
    by (simp add: event_suspend_def event_park_def) (simp add: upd_event_def on_error_def)
qed

text \<open>Destroying an event is reported exactly when tasks still
  wait for it.\<close>

theorem event_destruction_reported:
  assumes "events_ok s"
  shows "hook_log (event_destructor e s) = hook_log s @ (if waiters e s = [] then [] else [Object_destroyed_with_waiters])"
  using wq_rep_empty [OF events_okD(1) [OF assms], of e] by (simp add: event_destructor_def)

end
