(* ===== verification/Platform_Clock.thy ===== *)
theory Platform_Clock
  imports Time_Math
begin

text \<open>
  The backends of detail/platform_clock.h. The clocks of the vendors are parameters: functions
  of the state \<open>'m\<close> of the machine at the moment of the call. The compatibility backend keeps
  its \<open>Micros32Extender\<close> in a static variable.
\<close>

section \<open>Backends\<close>

text \<open>The macros that select a backend. Without any of them \<open>platform_now_us\<close> is declared and
  not defined, and a program that uses it does not link.\<close>

record clock_build =
  clock_now_us_override :: bool
  clock_rp2040 :: bool
  clock_esp32 :: bool
  clock_arduino :: bool
  host_realtime_clock :: bool

datatype clock_backend = Clock_override | Clock_rp2040 | Clock_esp32 | Clock_micros | Clock_realtime

definition clock_backend_of :: "clock_build \<Rightarrow> clock_backend option" where
  "clock_backend_of b =
     (if clock_now_us_override b then Some Clock_override
      else if clock_rp2040 b then Some Clock_rp2040
      else if clock_esp32 b then Some Clock_esp32
      else if clock_arduino b then Some Clock_micros
      else if host_realtime_clock b then Some Clock_realtime
      else None)"

text \<open>Signed counts (\<open>int64_t\<close>, the representation of \<open>std::chrono\<close>) are integers.\<close>

record 'm clock_source =
  clock_now_us :: "'m \<Rightarrow> int"
  time_us_64 :: "'m \<Rightarrow> 64 word"
  esp_timer_get_time :: "'m \<Rightarrow> int"
  micros :: "'m \<Rightarrow> 32 word"
  steady_clock_us :: "'m \<Rightarrow> int"

definition platform_now_us :: "clock_backend \<Rightarrow> 'm clock_source \<Rightarrow> 'm \<Rightarrow> micros32_extender \<Rightarrow> tick_t \<times> micros32_extender" where
  "platform_now_us b src m extender =
     (case b of
        Clock_override \<Rightarrow> (word_of_int (clock_now_us src m), extender)
      | Clock_rp2040 \<Rightarrow> (time_us_64 src m, extender)
      | Clock_esp32 \<Rightarrow> (word_of_int (esp_timer_get_time src m), extender)
      | Clock_micros \<Rightarrow> Time_Math.extend (micros src m) extender
      | Clock_realtime \<Rightarrow> (word_of_int (steady_clock_us src m), extender))"

text \<open>The values of successive clock samples.\<close>

primrec clock_trace :: "clock_backend \<Rightarrow> 'm clock_source \<Rightarrow> 'm list \<Rightarrow> micros32_extender \<Rightarrow> tick_t list" where
  "clock_trace b src [] x = []"
| "clock_trace b src (m # ms) x = (case platform_now_us b src m x of (t, x') \<Rightarrow> t # clock_trace b src ms x')"

text \<open>What is documented of the source: it counts the microseconds \<open>time m\<close>, in its width.\<close>

definition counts_us :: "clock_backend \<Rightarrow> 'm clock_source \<Rightarrow> ('m \<Rightarrow> nat) \<Rightarrow> bool" where
  "counts_us b src time \<longleftrightarrow>
     (\<forall>m. case b of
        Clock_override \<Rightarrow> clock_now_us src m = int (time m)
      | Clock_rp2040 \<Rightarrow> time_us_64 src m = of_nat (time m)
      | Clock_esp32 \<Rightarrow> esp_timer_get_time src m = int (time m)
      | Clock_micros \<Rightarrow> micros src m = of_nat (time m)
      | Clock_realtime \<Rightarrow> steady_clock_us src m = int (time m))"

lemma native_clock:
  assumes "counts_us b src time" "b \<noteq> Clock_micros"
  shows "clock_trace b src ms x = map (\<lambda>m. of_nat (time m)) ms"
proof (induction ms)
  case (Cons m ms)
  have "platform_now_us b src m x = (of_nat (time m), x)"
    using assms by (cases b) (auto simp: counts_us_def platform_now_us_def)
  then show ?case using Cons by simp
qed simp

lemma micros_clock:
  assumes "counts_us Clock_micros src time"
    and "successively (\<lambda>a b. a \<le> b \<and> b < a + 2 ^ 32) (extender_time x # map time ms)" and "\<forall>m \<in> set ms. time m < 2 ^ 64"
  shows "clock_trace Clock_micros src ms x = map (\<lambda>m. of_nat (time m)) ms"
  using assms(2,3)
proof (induction ms arbitrary: x)
  case (Cons m ms)
  let ?r = "Time_Math.extend (of_nat (time m)) x"
  have t: "extender_time (snd ?r) = time m"
    by (rule extend_tracks) (use Cons.prems in auto)
  then have "unat (fst ?r) = time m" by (simp add: extend_value)
  moreover have "fst ?r = of_nat (unat (fst ?r))" by simp
  ultimately have "fst ?r = of_nat (time m)" by simp
  moreover have "micros src m = of_nat (time m)" using assms(1) by (simp add: counts_us_def)
  moreover have "clock_trace Clock_micros src ms (snd ?r) = map (\<lambda>m. of_nat (time m)) ms"
    by (rule Cons.IH) (use Cons.prems t in auto)
  ultimately show ?case by (simp add: platform_now_us_def split: prod.split) (metis fst_conv snd_conv)
qed simp

section \<open>Properties\<close>

text \<open>C31. Every backend yields the true 64-bit time at every sample, and so a clock that never
  goes back: the native ones as they are, the extended 32-bit counter across any number of
  wraps as long as it is sampled at least once per wrap period.\<close>

theorem clock_survives_wraps:
  assumes "counts_us b src time" and "\<forall>m \<in> set ms. time m < 2 ^ 64" and "sorted (map time ms)"
    and "b = Clock_micros \<longrightarrow> successively (\<lambda>a b. b < a + 2 ^ 32) (0 # map time ms)"
  shows "map unat (clock_trace b src ms extender_init) = map time ms \<and>
    sorted (clock_trace b src ms extender_init)"
proof -
  have tr: "clock_trace b src ms extender_init = map (\<lambda>m. of_nat (time m)) ms"
  proof (cases "b = Clock_micros")
    case True
    have "sorted (0 # map time ms)" using assms(3) by simp
    then have "successively (\<le>) (0 # map time ms)" by (rule successively_if_sorted_wrt)
    then have "successively (\<lambda>a b. a \<le> b \<and> b < a + 2 ^ 32) (0 # map time ms)"
      using assms(4) True by (simp add: successively_conv_nth)
    then show ?thesis
      unfolding True by (intro micros_clock) (use assms(1,2) True in \<open>simp_all add: extender_time_def extender_init_def\<close>)
  qed (rule native_clock [OF assms(1)])
  have u: "unat (of_nat (time m) :: tick_t) = time m" if "m \<in> set ms" for m
    using assms(2) that by (simp add: unat_of_nat)
  then have "map unat (clock_trace b src ms extender_init) = map time ms" unfolding tr by simp
  moreover from this have "sorted (map unat (clock_trace b src ms extender_init))"
    using assms(3) by simp
  then have "sorted (clock_trace b src ms extender_init)" by (simp add: sorted_map flip: word_le_nat_alt)
  ultimately show ?thesis by blast
qed

end
