(* ===== verification/Configuration.thy ===== *)
theory Configuration
  imports Prelude
begin

text \<open>
  The configuration macros of config.h, and the error hook. A macro is \<open>None\<close> when the
  application does not define it; a value that does not compile has no result. The layers
  above take the capacities as parameters and the hook as one that returns.
\<close>

section \<open>Capacities and toggles\<close>

definition config_max_tasks :: "int option \<Rightarrow> int option" where
  "config_max_tasks macro =
     (let n = (case macro of None \<Rightarrow> 32 | Some n \<Rightarrow> n)
      in if n < 1 then None else Some n)"

definition config_frame_pool_bytes :: "int option \<Rightarrow> int option" where
  "config_frame_pool_bytes macro =
     (let n = (case macro of None \<Rightarrow> 4096 | Some n \<Rightarrow> n)
      in if n < 1 then None else Some n)"

definition config_enable_diagnostics :: "int option \<Rightarrow> int" where
  "config_enable_diagnostics macro = (case macro of None \<Rightarrow> 0 | Some n \<Rightarrow> n)"

definition config_enable_isr :: "int option \<Rightarrow> int" where
  "config_enable_isr macro = (case macro of None \<Rightarrow> 0 | Some n \<Rightarrow> n)"

section \<open>The error hook\<close>

text \<open>\<open>halt\<close> writes a volatile of its own and never leaves its loop; \<open>std::abort\<close> does not
  return either. \<open>None\<close> is the run that never comes back.\<close>

partial_function (option) halt :: "'s \<Rightarrow> 's option" where
  "halt s = halt s"

definition default_error_handler :: "bool \<Rightarrow> error \<Rightarrow> 's \<Rightarrow> 's option" where
  "default_error_handler arduino_build e s = (if arduino_build then halt s else None)"

definition error_hook :: "(error \<Rightarrow> 's \<Rightarrow> 's option) option \<Rightarrow> bool \<Rightarrow> error \<Rightarrow> 's \<Rightarrow> 's option" where
  "error_hook macro arduino_build e s =
     (case macro of None \<Rightarrow> default_error_handler arduino_build e s | Some hook \<Rightarrow> hook e s)"

lemma halt_never_returns [simp]: "halt s = None"
proof -
  have "False" if "halt s = Some y" for y
    by (rule halt.raw_induct [where P = "\<lambda>s y. False", OF _ that])
  then show ?thesis by (cases "halt s") auto
qed

text \<open>Without an override of the hook no code runs after a reported error, on any build.\<close>

lemma default_hook_halts: "error_hook None arduino_build e s = None"
  by (simp add: error_hook_def default_error_handler_def)

text \<open>A configuration that compiles has room for a task and for a byte.\<close>

lemma capacities_positive:
  "config_max_tasks m = Some n \<Longrightarrow> 0 < n" "config_frame_pool_bytes m = Some n \<Longrightarrow> 0 < n"
  by (auto simp: config_max_tasks_def config_frame_pool_bytes_def Let_def split: if_splits)

end
