(* ===== verification/Platform_Idle.thy ===== *)
theory Platform_Idle
  imports Platform_Clock Configuration
begin

text \<open>
  \<open>detail/platform_idle.h\<close>: the conversion of a microsecond deadline to a tick
  timeout and the decision \<open>platform_wait_until\<close> takes on the ESP32 backend.
  FreeRTOS is not part of the repository: \<open>portMAX_DELAY\<close> and
  \<open>configTICK_RATE_HZ\<close> are arguments, and the calls to \<open>vTaskDelay\<close> and
  \<open>xSemaphoreTake\<close> are the values of \<open>idle_action\<close>.
\<close>

definition platform_timeout_ticks :: "tick_t \<Rightarrow> tick_t \<Rightarrow> 64 word \<Rightarrow> 64 word \<Rightarrow> 64 word" where
  "platform_timeout_ticks now deadline ticks_per_second maximum_finite_ticks =
     (if deadline \<le> now \<or> ticks_per_second = 0 \<or> maximum_finite_ticks = 0 then 0
      else
        let remaining_us = deadline - now;
            whole_seconds = remaining_us div 1000000;
            remaining_fraction_us = remaining_us mod 1000000
        in if whole_seconds > maximum_finite_ticks div ticks_per_second
           then maximum_finite_ticks
           else
             let ticks = whole_seconds * ticks_per_second;
                 fractional_numerator = remaining_fraction_us * ticks_per_second;
                 fractional_ticks = fractional_numerator div 1000000
                   + (if fractional_numerator mod 1000000 \<noteq> 0 then 1 else 0)
             in if fractional_ticks > maximum_finite_ticks - ticks
                then maximum_finite_ticks
                else ticks + fractional_ticks)"

definition platform_ticks_until :: "32 word \<Rightarrow> 64 word \<Rightarrow> tick_t \<Rightarrow> tick_t \<Rightarrow> 32 word" where
  "platform_ticks_until port_max_delay tick_rate_hz now deadline =
     (if deadline = - 1 then port_max_delay
      else
        let maximum_finite_ticks = ucast port_max_delay - 1
        in ucast (platform_timeout_ticks now deadline tick_rate_hz maximum_finite_ticks))"

datatype idle_action = Task_delay "32 word" | Semaphore_take "32 word" | No_wait

text \<open>
  \<open>wake_created\<close>: whether \<open>scheduler_wake\<close> is not null, that is, whether
  \<open>platform_prepare_scheduler_wait()\<close> has run.
\<close>

definition platform_wait_until ::
    "32 word \<Rightarrow> 64 word \<Rightarrow> bool \<Rightarrow> tick_t \<Rightarrow> tick_t \<Rightarrow> bool \<Rightarrow> idle_action" where
  "platform_wait_until port_max_delay tick_rate_hz wake_created now deadline externally_wakeable =
     (if \<not> wake_created \<or> (deadline = - 1 \<and> \<not> externally_wakeable) then Task_delay 1
      else
        let timeout = platform_ticks_until port_max_delay tick_rate_hz now deadline
        in if timeout \<noteq> 0 then Semaphore_take timeout else No_wait)"

section \<open>The timeout is the least number of ticks that covers the deadline\<close>

text \<open>Round-up division by the microseconds of a second.\<close>

abbreviation ceil_seconds :: "nat \<Rightarrow> nat" where
  "ceil_seconds x \<equiv> (x + 999999) div 1000000"

lemma div_mult_split:
  fixes m :: nat
  assumes "0 < m"
  shows "(r * t + k) div m = (r div m) * t + ((r mod m) * t + k) div m"
proof -
  obtain q f where q: "q = r div m" and f: "f = r mod m" by simp
  then have "r = f + m * q" by simp
  then have "r * t + k = (f * t + k) + m * (q * t)" by (simp add: algebra_simps)
  then have "(r * t + k) div m = ((f * t + k) + m * (q * t)) div m" by (simp only:)
  also have "\<dots> = q * t + (f * t + k) div m" by (rule div_mult_self2) (use assms in simp)
  finally show ?thesis by (simp only: q f)
qed

lemma ceil_seconds_split:
  "ceil_seconds (r * t) = (r div 1000000) * t + ceil_seconds ((r mod 1000000) * t)"
  by (rule div_mult_split) simp

lemma ceil_seconds_mod: "ceil_seconds x = x div 1000000 + (if x mod 1000000 \<noteq> 0 then 1 else 0)"
proof -
  have "ceil_seconds x = x div 1000000 + (x mod 1000000 + 999999) div 1000000"
    using div_mult_split [of 1000000 x 1 999999] by simp
  moreover have "x mod 1000000 < 1000000" by simp
  then have "(x mod 1000000 + 999999) div 1000000 = (if x mod 1000000 \<noteq> 0 then 1 else 0)"
    by (cases "x mod 1000000 = 0") (auto intro: div_nat_eqI)
  ultimately show ?thesis by simp
qed

text \<open>The rounded fraction of a second, computed on words.\<close>

lemma unat_fraction:
  fixes x tps :: "64 word"
  assumes "unat x = f" and "unat tps * 1000000 \<le> 2 ^ 64" and "f < 1000000" and "0 < unat tps"
  shows "unat (x * tps div 1000000 + (if x * tps mod 1000000 \<noteq> 0 then 1 else 0))
           = ceil_seconds (f * unat tps)"
proof -
  have "f * unat tps < 1000000 * unat tps" using assms(3,4) by simp
  also have "\<dots> \<le> 2 ^ 64" using assms(2) by (simp only: mult.commute)
  finally have lt: "f * unat tps < 2 ^ 64" .
  then have n: "unat (x * tps) = f * unat tps" by (simp add: unat_word_ariths assms(1))
  have d: "unat (x * tps div 1000000) = f * unat tps div 1000000" by (simp add: unat_div n)
  have m: "(x * tps mod 1000000 \<noteq> 0) = (f * unat tps mod 1000000 \<noteq> 0)"
    by (simp only: word_unat_eq_iff unat_mod n) simp
  have "f * unat tps div 1000000 < 2 ^ 63" using lt by simp
  then have "unat (x * tps div 1000000 + 1) = f * unat tps div 1000000 + 1"
    by (simp only: unat_word_ariths(1) d) simp
  then show ?thesis
    unfolding ceil_seconds_mod m
    by (cases "f * unat tps mod 1000000 = 0") (simp_all only: d simp_thms if_True if_False add_0_right)
qed

lemma timeout_ticks_exact:
  assumes "now < deadline" and "tps \<noteq> 0" and "maxt \<noteq> 0" and "unat tps * 1000000 \<le> 2 ^ 64"
  shows "unat (platform_timeout_ticks now deadline tps maxt)
           = min (unat maxt) (ceil_seconds ((unat deadline - unat now) * unat tps))"
proof -
  let ?r = "unat deadline - unat now" and ?t = "unat tps" and ?M = "unat maxt"
  let ?w = "?r div 1000000" and ?f = "?r mod 1000000"
  let ?W = "(deadline - now) div 1000000" and ?n = "(deadline - now) mod 1000000 * tps"
  let ?F = "?n div 1000000 + (if ?n mod 1000000 \<noteq> 0 then 1 else 0)"
  have guard: "\<not> (deadline \<le> now \<or> tps = 0 \<or> maxt = 0)" using assms(1-3) by simp
  have code: "platform_timeout_ticks now deadline tps maxt =
      (if ?W > maxt div tps then maxt else if ?F > maxt - ?W * tps then maxt else ?W * tps + ?F)"
    by (simp only: platform_timeout_ticks_def Let_def guard if_False)
  have r: "unat (deadline - now) = ?r" using assms(1) by (intro unat_sub) simp
  have w: "unat ?W = ?w" by (simp add: unat_div r)
  have t: "0 < ?t" using assms(2) by (simp add: unat_gt_0)
  have ceil: "ceil_seconds (?r * ?t) = ?w * ?t + ceil_seconds (?f * ?t)"
    by (rule ceil_seconds_split)
  have c1: "(?W > maxt div tps) = (?M < ?w * ?t)"
    using t unat_div [of maxt tps] by (simp only: word_less_nat_alt w div_less_iff_less_mult)
  have F: "unat ?F = ceil_seconds (?f * ?t)"
    by (rule unat_fraction [OF _ assms(4)]) (simp_all add: unat_mod r t)
  show ?thesis
  proof (cases "?M < ?w * ?t")
    case True
    with c1 have "platform_timeout_ticks now deadline tps maxt = maxt" by (simp only: code if_True)
    with True ceil show ?thesis by simp
  next
    case False
    then have wt: "?w * ?t \<le> ?M" by simp
    then have K: "unat (?W * tps) = ?w * ?t"
      using unat64_lt [of maxt] by (simp only: unat_word_ariths(2) [of ?W tps] w) simp
    have c2: "(?F > maxt - ?W * tps) = (?M - ?w * ?t < ceil_seconds (?f * ?t))"
    proof -
      have "unat (maxt - ?W * tps) = ?M - ?w * ?t"
        using wt by (simp only: unat_sub word_le_nat_alt K)
      then show ?thesis by (simp only: word_less_nat_alt F)
    qed
    show ?thesis
    proof (cases "?M - ?w * ?t < ceil_seconds (?f * ?t)")
      case True
      with c1 c2 False have "platform_timeout_ticks now deadline tps maxt = maxt"
        by (simp only: code if_True if_False)
      moreover have "?M < ceil_seconds (?f * ?t) + ?w * ?t"
        using True wt by (simp only: less_diff_conv2)
      ultimately show ?thesis using ceil by simp
    next
      case f2: False
      with c1 c2 False have "platform_timeout_ticks now deadline tps maxt = ?W * tps + ?F"
        by (simp only: code if_False)
      moreover have le: "?w * ?t + ceil_seconds (?f * ?t) \<le> ?M"
        using f2 wt by (simp only: not_less le_diff_conv2 add.commute)
      then have "unat (?W * tps + ?F) = ?w * ?t + ceil_seconds (?f * ?t)"
        using unat64_lt [of maxt] by (simp only: unat_word_ariths(1) [of "?W * tps" ?F] K F) simp
      ultimately show ?thesis using ceil le by (simp only: min_absorb2)
    qed
  qed
qed

section \<open>Properties\<close>

text \<open>C35. The tick timeout of a pending deadline is the least number of
  ticks that lasts until it, or the largest finite timeout when that is shorter: rounded up, the
  wait never ends early, and it is never longer than one tick needs.\<close>

theorem timeout_covers_deadline:
  assumes "now < deadline" and "tps \<noteq> 0" and "maxt \<noteq> 0" and "unat tps * 1000000 \<le> 2 ^ 64"
  shows "(let n = unat (platform_timeout_ticks now deadline tps maxt);
              us = unat deadline - unat now
          in n \<le> unat maxt \<and> 0 < n \<and> (n < unat maxt \<longrightarrow> us * unat tps \<le> n * 1000000) \<and>
             (n - 1) * 1000000 < us * unat tps)"
proof -
  let ?n = "unat (platform_timeout_ticks now deadline tps maxt)"
  let ?x = "(unat deadline - unat now) * unat tps"
  have n: "?n = min (unat maxt) (ceil_seconds ?x)" by (rule timeout_ticks_exact [OF assms])
  have d: "0 < unat deadline - unat now" using assms(1) by (simp only: word_less_nat_alt zero_less_diff)
  have t: "0 < unat tps" using assms(2) by (simp add: unat_gt_0)
  have x: "0 < ?x" by (rule mult_pos_pos [OF d t])
  have up: "?x \<le> ceil_seconds ?x * 1000000" and low: "(ceil_seconds ?x - 1) * 1000000 < ?x"
    using x by linarith+
  have "0 < ceil_seconds ?x" using up x by linarith
  moreover have "0 < unat maxt" using assms(3) by (simp add: unat_gt_0)
  ultimately have "0 < ?n" using n by simp
  moreover have "(?n - 1) * 1000000 < ?x"
  proof -
    have "?n \<le> ceil_seconds ?x" unfolding n by (rule min.cobounded2)
    then have "?n - 1 \<le> ceil_seconds ?x - 1" by (rule diff_le_mono)
    then have "(?n - 1) * 1000000 \<le> (ceil_seconds ?x - 1) * 1000000" by (rule mult_le_mono1)
    with low show ?thesis by (rule le_less_trans [rotated])
  qed
  moreover have "?x \<le> ?n * 1000000" if "?n < unat maxt"
  proof -
    have "?n = ceil_seconds ?x" using n that by simp
    then show ?thesis using up by (simp only:)
  qed
  ultimately show ?thesis using n by (simp add: Let_def)
qed

lemma timeout_ticks_le: "platform_timeout_ticks now deadline tps maxt \<le> maxt"
proof (cases "deadline \<le> now \<or> tps = 0 \<or> maxt = 0 \<or> (deadline - now) div 1000000 > maxt div tps")
  case True
  then show ?thesis by (auto simp: platform_timeout_ticks_def Let_def)
next
  case False
  let ?W = "(deadline - now) div 1000000" and ?n = "(deadline - now) mod 1000000 * tps"
  let ?F = "?n div 1000000 + (if ?n mod 1000000 \<noteq> 0 then 1 else 0)"
  have code: "platform_timeout_ticks now deadline tps maxt =
      (if ?F > maxt - ?W * tps then maxt else ?W * tps + ?F)"
    using False by (simp only: platform_timeout_ticks_def Let_def de_Morgan_disj simp_thms if_False)
  have "unat ?W \<le> unat maxt div unat tps"
    using False by (simp add: word_less_nat_alt unat_div not_less)
  then have "unat ?W * unat tps \<le> unat maxt"
    by (metis div_times_less_eq_dividend le_trans mult_le_mono1)
  moreover from this have "unat (?W * tps) = unat ?W * unat tps"
    using unat64_lt [of maxt] by (simp only: unat_word_ariths(2) [of ?W tps]) simp
  ultimately have le: "?W * tps \<le> maxt" by (simp add: word_le_nat_alt)
  show ?thesis
  proof (cases "?F > maxt - ?W * tps")
    case True
    then show ?thesis by (simp only: code if_True order_refl)
  next
    case False
    then have "unat ?F \<le> unat maxt - unat (?W * tps)"
      using unat_sub [OF le] by (simp only: not_less word_le_nat_alt)
    then have sum: "unat (?W * tps) + unat ?F \<le> unat maxt"
      using le by (simp only: word_le_nat_alt le_diff_conv2 add.commute)
    have "unat (?W * tps + ?F) \<le> unat (?W * tps) + unat ?F"
      by (simp only: unat_word_ariths(1) mod_less_eq_dividend)
    with sum have "?W * tps + ?F \<le> maxt" by (simp only: word_le_nat_alt)
    with False show ?thesis by (simp only: code if_False)
  qed
qed

text \<open>The ESP32 wait uses \<open>portMAX_DELAY\<close>, which blocks for
  ever, exactly for the deadline \<open>UINT64_MAX\<close>; any other deadline gives a finite tick
  count, whatever the clock, also after the narrowing to \<open>TickType_t\<close>. With neither a timer
  nor an external waiter, or before the semaphore exists, it only delays one tick.\<close>

theorem finite_wait_stays_finite:
  assumes "0 < port_max_delay"
  shows "(platform_ticks_until port_max_delay hz now deadline = port_max_delay \<longleftrightarrow> deadline = - 1) \<and>
    (platform_wait_until port_max_delay hz created now deadline ext = Semaphore_take port_max_delay \<longleftrightarrow>
       created \<and> deadline = - 1 \<and> ext) \<and>
    (\<not> created \<or> (deadline = - 1 \<and> \<not> ext) \<longrightarrow>
       platform_wait_until port_max_delay hz created now deadline ext = Task_delay 1)"
proof -
  let ?m = "ucast port_max_delay - 1 :: 64 word"
  have p: "0 < unat port_max_delay" using assms by (simp add: word_less_nat_alt)
  then have "(1 :: 64 word) \<le> ucast port_max_delay" by (simp add: word_le_nat_alt)
  then have m: "unat ?m = unat port_max_delay - 1" by (simp add: unat_sub)
  have fin: "platform_ticks_until port_max_delay hz now deadline \<noteq> port_max_delay" if "deadline \<noteq> - 1"
  proof -
    let ?t = "platform_timeout_ticks now deadline hz ?m"
    have "unat ?t < unat port_max_delay"
      using timeout_ticks_le [of now deadline hz ?m] m p by (simp add: word_le_nat_alt)
    moreover from this have "unat (ucast ?t :: 32 word) = unat ?t"
      using unat32_lt [of port_max_delay] by (simp add: unsigned_ucast_eq take_bit_nat_eq_self_iff)
    ultimately show ?thesis using that by (auto simp: platform_ticks_until_def Let_def)
  qed
  moreover have "platform_ticks_until port_max_delay hz now (- 1) = port_max_delay"
    by (simp add: platform_ticks_until_def)
  ultimately show ?thesis
    using assms by (auto simp: platform_wait_until_def Let_def split: if_splits)
qed

end
