(* ===== verification/Thread_Safe_Flag.thy ===== *)
theory Thread_Safe_Flag
  imports Event Platform_Idle
begin

text \<open>
  \<open>class ThreadSafeFlag\<close> (threadsafeflag.h), the resolution of external signals by
  \<open>poll()\<close> and the wake-up of the platform wait (platform_idle.h). A critical section is one
  step of the model: between two of them an interrupt or another core may set any flag. The
  sequential functions come first; the last sections interleave their steps with \<open>set()\<close>.
  The semaphore of the ESP32 backend appears as whether it exists and whether it was given
  since it was last taken.
\<close>

section \<open>State and operations\<close>

record flag =
  fl_signaled :: bool
  fl_waiter :: "nat option"
  fl_next :: "nat option"

record flag_world = ev_world +
  flags :: "nat \<Rightarrow> flag"
  armed_head :: "nat option"
  pending :: bool
  wake_created :: bool
  wake_given :: bool

definition flag_init :: flag where
  "flag_init = \<lparr>fl_signaled = False, fl_waiter = None, fl_next = None\<rparr>"

definition upd_flag :: "nat \<Rightarrow> (flag \<Rightarrow> flag) \<Rightarrow> 'a flag_world_scheme \<Rightarrow> 'a flag_world_scheme" where
  "upd_flag f g s = s\<lparr>flags := (flags s)(f := g (flags s f))\<rparr>"

abbreviation "set_signaled f x \<equiv> upd_flag f (fl_signaled_update (\<lambda>_. x))"
abbreviation "set_waiter f x \<equiv> upd_flag f (fl_waiter_update (\<lambda>_. x))"
abbreviation "set_armed_next f x \<equiv> upd_flag f (fl_next_update (\<lambda>_. x))"

definition flag_construct :: "nat \<Rightarrow> 'a flag_world_scheme \<Rightarrow> 'a flag_world_scheme" where
  "flag_construct f s = upd_flag f (\<lambda>_. flag_init) s"

definition platform_prepare_scheduler_wait :: "'a flag_world_scheme \<Rightarrow> 'a flag_world_scheme" where
  "platform_prepare_scheduler_wait s = (if \<not> wake_created s then s\<lparr>wake_created := True\<rparr> else s)"

definition platform_wake_scheduler :: "'a flag_world_scheme \<Rightarrow> 'a flag_world_scheme" where
  "platform_wake_scheduler s = (if \<not> wake_created s then s else s\<lparr>wake_given := True\<rparr>)"

text \<open>\<open>set()\<close>: its critical section, and the wake-up after it.\<close>

definition flag_signal :: "nat \<Rightarrow> 'a flag_world_scheme \<Rightarrow> bool \<times> 'a flag_world_scheme" where
  "flag_signal f s =
     (let newly_signaled = (\<not> fl_signaled (flags s f));
          s1 = set_signaled f True s;
          s2 = s1\<lparr>pending := True\<rparr>
      in (newly_signaled, s2))"

definition flag_set :: "nat \<Rightarrow> 'a flag_world_scheme \<Rightarrow> 'a flag_world_scheme" where
  "flag_set f s = (case flag_signal f s of
     (newly_signaled, s1) \<Rightarrow> if newly_signaled then platform_wake_scheduler s1 else s1)"

definition flag_clear :: "nat \<Rightarrow> 'a flag_world_scheme \<Rightarrow> 'a flag_world_scheme" where
  "flag_clear f s = set_signaled f False s"

definition flag_is_set :: "nat \<Rightarrow> 'a flag_world_scheme \<Rightarrow> bool" where
  "flag_is_set f s = fl_signaled (flags s f)"

text \<open>\<open>await_ready\<close> of the awaiter.\<close>

definition flag_consume :: "nat \<Rightarrow> 'a flag_world_scheme \<Rightarrow> bool \<times> 'a flag_world_scheme" where
  "flag_consume f s = (if fl_signaled (flags s f) then (True, set_signaled f False s) else (False, s))"

definition flag_arm :: "nat \<Rightarrow> 'a flag_world_scheme \<Rightarrow> 'a flag_world_scheme" where
  "flag_arm f s = (let s1 = set_armed_next f (armed_head s) s in s1\<lparr>armed_head := Some f\<rparr>)"

text \<open>\<open>await_suspend\<close> of the awaiter.\<close>

definition flag_park :: "nat \<Rightarrow> nat option \<Rightarrow> 'a flag_world_scheme \<Rightarrow> bool \<times> 'a flag_world_scheme" where
  "flag_park f awaiting s =
     (case running_is awaiting s of (ok, s1) \<Rightarrow>
        if \<not> ok then (False, s1)
        else if fl_waiter (flags s1 f) \<noteq> None then (False, on_error Multiple_flag_waiters s1)
        else (case park_running s1 of (p, s2) \<Rightarrow>
                let s3 = set_waiter f p s2; s4 = flag_arm f s3 in (True, s4)))"

text \<open>
  The loop of \<open>unarm()\<close>; \<open>link\<close> is the link field it looks at: the head, or the link of
  the flag before.
\<close>

definition read_link :: "nat option \<Rightarrow> 'a flag_world_scheme \<Rightarrow> nat option" where
  "read_link link s = (case link of None \<Rightarrow> armed_head s | Some g \<Rightarrow> fl_next (flags s g))"

definition write_link :: "nat option \<Rightarrow> nat option \<Rightarrow> 'a flag_world_scheme \<Rightarrow> 'a flag_world_scheme" where
  "write_link link x s = (case link of None \<Rightarrow> s\<lparr>armed_head := x\<rparr> | Some g \<Rightarrow> set_armed_next g x s)"

partial_function (option) unarm_loop ::
    "nat \<Rightarrow> nat option \<Rightarrow> 'a flag_world_scheme \<Rightarrow> 'a flag_world_scheme option" where
  "unarm_loop f link s =
     (case read_link link s of
        None \<Rightarrow> Some s
      | Some g \<Rightarrow> if g = f then Some (write_link link (fl_next (flags s f)) s)
                  else unarm_loop f (Some g) s)"

definition flag_unarm :: "nat \<Rightarrow> 'a flag_world_scheme \<Rightarrow> 'a flag_world_scheme option" where
  "flag_unarm f s = map_option (\<lambda>s1. set_waiter f None (set_armed_next f None s1)) (unarm_loop f None s)"

definition flag_destructor :: "nat \<Rightarrow> 'a flag_world_scheme \<Rightarrow> 'a flag_world_scheme option" where
  "flag_destructor f s =
     (if fl_waiter (flags s f) \<noteq> None
      then map_option (on_error Object_destroyed_with_waiters) (flag_unarm f s)
      else Some s)"

section \<open>Resolving the external signals\<close>

definition has_external_waiters :: "'a flag_world_scheme \<Rightarrow> bool" where
  "has_external_waiters s \<longleftrightarrow> armed_head s \<noteq> None"

text \<open>The first critical section: test and clear the pending marker.\<close>

definition take_pending :: "'a flag_world_scheme \<Rightarrow> bool \<times> 'a flag_world_scheme" where
  "take_pending s = (if \<not> pending s then (False, s) else (True, s\<lparr>pending := False\<rparr>))"

text \<open>The critical section of one armed flag.\<close>

definition take_signal :: "nat \<Rightarrow> 'a flag_world_scheme \<Rightarrow> bool \<times> 'a flag_world_scheme" where
  "take_signal f s =
     (if fl_signaled (flags s f) \<and> fl_waiter (flags s f) \<noteq> None
      then (True, set_signaled f False s) else (False, s))"

text \<open>The rest of the loop body: wake and unlink; the result is the new \<open>prev\<close>, the next flag.\<close>

definition resolve_flag ::
    "bool \<Rightarrow> nat option \<Rightarrow> nat \<Rightarrow> 'a flag_world_scheme \<Rightarrow> nat option \<times> nat option \<times> 'a flag_world_scheme" where
  "resolve_flag wake prev f s =
     (let nxt = fl_next (flags s f)
      in if wake then
           let s1 = wake_slot (fl_waiter (flags s f)) s;
               s2 = set_waiter f None s1;
               s3 = set_armed_next f None s2;
               s4 = (case prev of None \<Rightarrow> s3\<lparr>armed_head := nxt\<rparr> | Some g \<Rightarrow> set_armed_next g nxt s3)
           in (prev, nxt, s4)
         else (Some f, nxt, s))"

partial_function (option) resolve_loop ::
    "nat option \<Rightarrow> nat option \<Rightarrow> 'a flag_world_scheme \<Rightarrow> 'a flag_world_scheme option" where
  "resolve_loop prev f s =
     (case f of
        None \<Rightarrow> Some s
      | Some g \<Rightarrow>
          (case take_signal g s of (wake, s1) \<Rightarrow>
             (case resolve_flag wake prev g s1 of (prev', nxt, s2) \<Rightarrow> resolve_loop prev' nxt s2)))"

definition poll_external_signals :: "'a flag_world_scheme \<Rightarrow> 'a flag_world_scheme option" where
  "poll_external_signals s =
     (case take_pending s of
        (False, s1) \<Rightarrow> Some s1
      | (True, s1) \<Rightarrow> resolve_loop None (armed_head s1) s1)"

end
