(* ===== verification/Flag_Inv.thy ===== *)
theory Flag_Inv
  imports Thread_Safe_Flag
begin

text \<open>
  The invariant of the flags of a program (threadsafeflag.h): the armed list holds exactly the
  flags with a waiter, and each waiter is a parked task of its own. No part of it mentions the
  signal bits, which other contexts change at any time. Then what the scheduler-context
  operations do to it, one loop step of the resolution at a time.
\<close>

section \<open>Views and projections\<close>

definition fl_nexts :: "(nat \<Rightarrow> flag) \<Rightarrow> nat \<Rightarrow> nat option" where
  "fl_nexts x f = fl_next (x f)"

definition fl_waiters :: "(nat \<Rightarrow> flag) \<Rightarrow> nat \<Rightarrow> nat option" where
  "fl_waiters x f = fl_waiter (x f)"

definition fl_signals :: "(nat \<Rightarrow> flag) \<Rightarrow> nat \<Rightarrow> bool" where
  "fl_signals x f = fl_signaled (x f)"

abbreviation "armed_next_of s \<equiv> fl_nexts (flags s)"
abbreviation "waiter_of s \<equiv> fl_waiters (flags s)"
abbreviation "signaled s \<equiv> fl_signals (flags s)"

lemma flag_views [simp]:
  "fl_next (flags s f) = armed_next_of s f" "fl_waiter (flags s f) = waiter_of s f"
  "fl_signaled (flags s f) = signaled s f"
  by (simp_all add: fl_nexts_def fl_waiters_def fl_signals_def)

lemma flag_views_upd [simp]:
  "fl_nexts (x(f := y)) = (fl_nexts x)(f := fl_next y)" "fl_waiters (x(f := y)) = (fl_waiters x)(f := fl_waiter y)"
  "fl_signals (x(f := y)) = (fl_signals x)(f := fl_signaled y)"
  by (simp_all add: fun_eq_iff fl_nexts_def fl_waiters_def fl_signals_def)

lemma flags_upd_flag [simp]:
  "flags (upd_flag f g s) = (flags s)(f := g (flags s f))" "armed_head (upd_flag f g s) = armed_head s"
  "pending (upd_flag f g s) = pending s" "wake_created (upd_flag f g s) = wake_created s"
  "wake_given (upd_flag f g s) = wake_given s"
  by (simp_all add: upd_flag_def)

text \<open>Everything that the flag operations leave alone: the scheduler and the events.\<close>

definition below_flags :: "'a flag_world_scheme \<Rightarrow> 'a flag_world_scheme \<Rightarrow> bool" where
  "below_flags s s' \<longleftrightarrow> slots s' = slots s \<and> max_tasks s' = max_tasks s \<and> ready_head s' = ready_head s \<and>
     ready_tail s' = ready_tail s \<and> ready_count s' = ready_count s \<and> active_count s' = active_count s \<and>
     peak_count s' = peak_count s \<and> current s' = current s \<and> in_poll s' = in_poll s \<and>
     shutting_down s' = shutting_down s \<and> now_us s' = now_us s \<and> nearest_deadline s' = nearest_deadline s \<and>
     hook_log s' = hook_log s \<and> tasks s' = tasks s \<and> fpool s' = fpool s \<and> events s' = events s \<and>
     flag_world.more s' = flag_world.more s"

lemma below_flags_refl [simp]: "below_flags s s"
  by (simp add: below_flags_def)

lemma below_flags_trans: "below_flags s s' \<Longrightarrow> below_flags s' s'' \<Longrightarrow> below_flags s s''"
  by (simp add: below_flags_def)

lemma below_flags_upd [simp]:
  "below_flags s (upd_flag f g s') = below_flags s s'" "below_flags s (s'\<lparr>armed_head := h\<rparr>) = below_flags s s'"
  "below_flags s (s'\<lparr>pending := b\<rparr>) = below_flags s s'" "below_flags s (s'\<lparr>wake_created := b\<rparr>) = below_flags s s'"
  "below_flags s (s'\<lparr>wake_given := b\<rparr>) = below_flags s s'"
  by (simp_all add: below_flags_def upd_flag_def)

lemma below_flagsD:
  assumes "below_flags s s'"
  shows "slots s' = slots s" "max_tasks s' = max_tasks s" "ready_list s' = ready_list s"
    "sched_inv s' = sched_inv s" "quiet s s'" "current s' = current s" "events s' = events s"
    "hook_log s' = hook_log s" "flag_world.more s' = flag_world.more s" "locals_kept P s s'"
    "nearest_deadline s' = nearest_deadline s" "ready_count s' = ready_count s"
proof -
  have f: "slots s' = slots s" "max_tasks s' = max_tasks s" "ready_head s' = ready_head s"
     "ready_tail s' = ready_tail s" "ready_count s' = ready_count s" "active_count s' = active_count s"
     "peak_count s' = peak_count s" "current s' = current s" "in_poll s' = in_poll s"
     "shutting_down s' = shutting_down s" "now_us s' = now_us s" "nearest_deadline s' = nearest_deadline s"
     "hook_log s' = hook_log s"
    using assms by (simp_all add: below_flags_def)
  show "slots s' = slots s" "max_tasks s' = max_tasks s" "current s' = current s" "events s' = events s"
    "hook_log s' = hook_log s" "flag_world.more s' = flag_world.more s" "locals_kept P s s'"
    "nearest_deadline s' = nearest_deadline s" "ready_count s' = ready_count s"
    using assms by (simp_all add: below_flags_def locals_kept_def)
  show "ready_list s' = ready_list s" using f by (simp add: ready_list_def)
  show "sched_inv s' = sched_inv s" by (rule sched_inv_more) (simp_all add: f)
  show "quiet s s'" by (rule quiet_core) (simp_all add: f ready_list_def)
qed

text \<open>The scheduler does not touch the flags.\<close>

lemma flags_of_more:
  "sched.more s' = sched.more s \<Longrightarrow> flags s' = flags s"
  "sched.more s' = sched.more s \<Longrightarrow> armed_head s' = armed_head s"
  "sched.more s' = sched.more s \<Longrightarrow> pending s' = pending s"
  "sched.more s' = sched.more s \<Longrightarrow> wake_created s' = wake_created s"
  "sched.more s' = sched.more s \<Longrightarrow> wake_given s' = wake_given s"
  "sched.more s' = sched.more s \<Longrightarrow> flag_world.more s' = flag_world.more s"
  for s :: "'a flag_world_scheme"
  by (cases s; cases s'; simp)+

section \<open>The invariant\<close>

definition flag_rep :: "'a flag_world_scheme \<Rightarrow> nat list \<Rightarrow> bool" where
  "flag_rep s as \<longleftrightarrow> chain (armed_next_of s) (armed_head s) as \<and> distinct as \<and>
     (\<forall>f. f \<in> set as \<longleftrightarrow> waiter_of s f \<noteq> None) \<and>
     (\<forall>f i. waiter_of s f = Some i \<longrightarrow> i < max_tasks s \<and> st_of s i = Waiting_local) \<and>
     (\<forall>f g i. waiter_of s f = Some i \<and> waiter_of s g = Some i \<longrightarrow> f = g)"

definition armed :: "'a flag_world_scheme \<Rightarrow> nat list" where
  "armed s = walk (max_tasks s) (armed_next_of s) (armed_head s)"

definition flags_ok :: "'a flag_world_scheme \<Rightarrow> bool" where
  "flags_ok s \<longleftrightarrow> flag_rep s (armed s)"

definition flag_parked :: "'a flag_world_scheme \<Rightarrow> nat set" where
  "flag_parked s = {i. \<exists>f. waiter_of s f = Some i}"

lemma flag_repD:
  assumes "flag_rep s as"
  shows "chain (armed_next_of s) (armed_head s) as" "distinct as" "f \<in> set as \<longleftrightarrow> waiter_of s f \<noteq> None"
    "waiter_of s f = Some i \<Longrightarrow> i < max_tasks s" "waiter_of s f = Some i \<Longrightarrow> st_of s i = Waiting_local"
    "waiter_of s f = Some i \<Longrightarrow> waiter_of s g = Some i \<Longrightarrow> f = g"
  using assms unfolding flag_rep_def by blast+

lemma flag_repI:
  assumes "chain (armed_next_of s) (armed_head s) as" "distinct as" "\<And>f. f \<in> set as \<longleftrightarrow> waiter_of s f \<noteq> None"
    "\<And>f i. waiter_of s f = Some i \<Longrightarrow> i < max_tasks s \<and> st_of s i = Waiting_local"
    "\<And>f g i. waiter_of s f = Some i \<Longrightarrow> waiter_of s g = Some i \<Longrightarrow> f = g"
  shows "flag_rep s as"
  using assms unfolding flag_rep_def by blast

text \<open>There are no more armed flags than slots.\<close>

lemma flag_rep_armed:
  assumes "flag_rep s as"
  shows "armed s = as" "flags_ok s"
proof -
  note r = flag_repD [OF assms]
  let ?w = "\<lambda>f. the (waiter_of s f)"
  have "inj_on ?w (set as)"
  proof (rule inj_onI)
    fix f g assume "f \<in> set as" "g \<in> set as" and eq: "?w f = ?w g"
    then obtain i j where "waiter_of s f = Some i" "waiter_of s g = Some j" using r(3) by fastforce
    with eq r(6) show "f = g" by simp
  qed
  moreover have "?w ` set as \<subseteq> {..<max_tasks s}"
  proof (rule image_subsetI)
    fix f assume "f \<in> set as"
    then obtain i where "waiter_of s f = Some i" using r(3) by fastforce
    then show "?w f \<in> {..<max_tasks s}" using r(4) by simp
  qed
  ultimately have "card (set as) \<le> max_tasks s"
    using card_inj_on_le [of ?w "set as" "{..<max_tasks s}"] by simp
  then have "length as \<le> max_tasks s" using r(2) by (simp add: distinct_card)
  then show a: "armed s = as" using walk_long [OF r(1)] by (simp add: armed_def)
  show "flags_ok s" using assms by (simp add: flags_ok_def a)
qed

lemma flags_okD: "flags_ok s \<Longrightarrow> flag_rep s (armed s)"
  by (simp add: flags_ok_def)

text \<open>The signal bits do not matter, nor does anything else when the waiters stay parked.\<close>

lemma flag_rep_keep:
  assumes "flag_rep s as" and "armed_next_of s' = armed_next_of s" "waiter_of s' = waiter_of s"
    "armed_head s' = armed_head s" "max_tasks s' = max_tasks s"
    and "\<And>i. i \<in> flag_parked s \<Longrightarrow> st_of s i = Waiting_local \<Longrightarrow> st_of s' i = Waiting_local"
  shows "flag_rep s' as"
proof (rule flag_repI)
  note r = flag_repD [OF assms(1)]
  show "chain (armed_next_of s') (armed_head s') as" "distinct as" "\<And>f. f \<in> set as \<longleftrightarrow> waiter_of s' f \<noteq> None"
    using r by (simp_all add: assms(2-4))
  fix f i assume w: "waiter_of s' f = Some i"
  then have "i \<in> flag_parked s" "st_of s i = Waiting_local" "i < max_tasks s"
    using r(4,5) by (auto simp: flag_parked_def assms(3))
  then show "i < max_tasks s' \<and> st_of s' i = Waiting_local" using assms(5,6) by simp
  fix g assume "waiter_of s' g = Some i"
  with w show "f = g" using r(6) by (simp add: assms(3))
qed

lemma flag_parked_cong: "waiter_of s' = waiter_of s \<Longrightarrow> flag_parked s' = flag_parked s"
  by (simp add: flag_parked_def)

section \<open>Waking the waiter of an armed flag\<close>

text \<open>
  The wake branch of the loop of \<open>poll_external_signals\<close>: \<open>prev\<close> is the armed flag before
  \<open>g\<close>, if there is one.
\<close>

lemma wake_flag:
  assumes inv: "sched_inv s" and rep: "flag_rep s (pre @ g # post)"
    and prev: "prev = (if pre = [] then None else Some (last pre))"
  obtains i s' where "resolve_flag True prev g s = (prev, if post = [] then None else Some (hd post), s')"
    "waiter_of s g = Some i" "sched_inv s'" "flag_rep s' (pre @ post)" "quiet s s'"
    "ready_list s' = ready_list s @ [i]" "signaled s' = signaled s" "waiter_of s' = (waiter_of s)(g := None)"
    "st_of s' = (st_of s)(i := Ready)" "locals_kept (flag_parked s) s s'" "events s' = events s"
    "flag_world.more s' = flag_world.more s" "pending s' = pending s" "wake_created s' = wake_created s"
    "wake_given s' = wake_given s" "max_tasks s' = max_tasks s"
proof -
  note r = flag_repD [OF rep]
  obtain i where i: "waiter_of s g = Some i" using r(3) [of g] by auto
  note p = r(4) [OF i] and st = r(5) [OF i]
  note w = wake_slot_inv [OF inv p st]
  let ?s1 = "make_ready i s"
  have m: "flags ?s1 = flags s" "armed_head ?s1 = armed_head s" "pending ?s1 = pending s"
    "wake_created ?s1 = wake_created s" "wake_given ?s1 = wake_given s" "flag_world.more ?s1 = flag_world.more s"
    by (rule flags_of_more; simp)+
  have e1: "events ?s1 = events s" by (rule events_of_more) simp
  let ?s3 = "set_armed_next g None (set_waiter g None ?s1)"
  let ?nxt = "armed_next_of s g"
  let ?s' = "case prev of None \<Rightarrow> ?s3\<lparr>armed_head := ?nxt\<rparr> | Some h \<Rightarrow> set_armed_next h ?nxt ?s3"
  have nxt: "?nxt = (if post = [] then None else Some (hd post))"
  proof -
    have "chain (armed_next_of s) h (xs @ g # post) \<Longrightarrow> chain (armed_next_of s) ?nxt post" for h xs
      by (induction xs arbitrary: h) auto
    then have "chain (armed_next_of s) ?nxt post" using r(1) by blast
    then show ?thesis by (cases post) auto
  qed
  have eq: "resolve_flag True prev g s = (prev, if post = [] then None else Some (hd post), ?s')"
    unfolding nxt [symmetric] using w(4) by (simp add: resolve_flag_def Let_def i)
  have g: "g \<notin> set pre" "g \<notin> set post" using r(2) by auto
  have lp: "pre \<noteq> [] \<Longrightarrow> last pre \<noteq> g" using g(1) last_in_set by metis
  have b: "below_flags ?s1 ?s'" by (simp split: option.split)
  note B = below_flagsD [OF b]
  have fl: "signaled ?s' = signaled s" "waiter_of ?s' = (waiter_of s)(g := None)" "pending ?s' = pending s"
    "wake_created ?s' = wake_created s" "wake_given ?s' = wake_given s"
    "armed_head ?s' = (if pre = [] then ?nxt else armed_head s)"
    by (simp_all add: prev fun_eq_iff m)
  have nx: "armed_next_of ?s' x = (if pre \<noteq> [] \<and> x = last pre then ?nxt else if x = g then None else armed_next_of s x)" for x
    using lp by (auto simp: prev m)
  have ch: "chain (armed_next_of ?s') (armed_head ?s') (pre @ post)"
  proof -
    have "chain (armed_next_of ?s') h (pre @ post) =
        chain (if pre = [] then armed_next_of s else (armed_next_of s)(last pre := ?nxt)) h (pre @ post)" for h
    proof (rule chain_cong)
      fix x assume "x \<in> set (pre @ post)"
      then have "x \<noteq> g" using g by auto
      then show "armed_next_of ?s' x = (if pre = [] then armed_next_of s else (armed_next_of s)(last pre := ?nxt)) x"
        unfolding nx by simp
    qed
    then show ?thesis using chain_remove [OF r(1,2)] by (simp only: fl(6))
  qed
  have stt: "st_of ?s' = (st_of s)(i := Ready)" "max_tasks ?s' = max_tasks s" using B(1,2) by simp_all
  have rep': "flag_rep ?s' (pre @ post)"
  proof (rule flag_repI [OF ch])
    show "distinct (pre @ post)" using r(2) by simp
    show "f \<in> set (pre @ post) \<longleftrightarrow> waiter_of ?s' f \<noteq> None" for f
      using r(3) [of f] g unfolding fl(2) by auto
    fix f j assume j: "waiter_of ?s' f = Some j"
    then have "waiter_of s f = Some j" "f \<noteq> g" unfolding fl(2) by (auto split: if_splits)
    moreover from this have "j \<noteq> i" using r(6) [OF i, of f] by auto
    ultimately show "j < max_tasks ?s' \<and> st_of ?s' j = Waiting_local" using r(4,5) unfolding stt by simp
    fix h assume "waiter_of ?s' h = Some j"
    with j show "f = h" using r(6) unfolding fl(2) by (auto split: if_splits)
  qed
  show thesis
  proof (rule that [OF eq i _ rep'])
    show "sched_inv ?s'" "ready_list ?s' = ready_list s @ [i]" using w(1,3) unfolding w(4) B(3,4) by simp_all
    show "quiet s ?s'" by (rule quiet_trans [OF _ B(5)]) (use w(2) in \<open>simp only: w(4)\<close>)
    show "locals_kept (flag_parked s) s ?s'"
      by (rule locals_kept_trans [OF make_ready_locals [OF inv] B(10)]) (use i in \<open>auto simp: flag_parked_def\<close>)
    show "events ?s' = events s" "flag_world.more ?s' = flag_world.more s" using B(7,9) e1 m(6) by simp_all
  qed (fact fl stt)+
qed

end
