(* ===== verification/Flag_Ops.thy ===== *)
theory Flag_Ops
  imports Flag_Inv
begin

text \<open>
  The operations of \<open>ThreadSafeFlag\<close> in scheduler context (threadsafeflag.h) run without
  interference: the resolution loop wakes exactly the waiters of the signaled armed flags,
  waiting arms the flag, leaving unarms it. The single steps serve the interleaved runs too.
\<close>

section \<open>Signals\<close>

text \<open>What another context may do: set signal bits, the pending marker and the semaphore.\<close>

lemma flag_rep_signal:
  assumes "flag_rep s as" "below_flags s s'" "armed_next_of s' = armed_next_of s" "waiter_of s' = waiter_of s"
    "armed_head s' = armed_head s"
  shows "flag_rep s' as" "flag_parked s' = flag_parked s"
  using flag_rep_keep [OF assms(1,3-5)] flag_parked_cong [OF assms(4)] below_flagsD(1,2) [OF assms(2)]
  by simp_all

lemma signal_views:
  "armed_next_of (set_signaled f b s) = armed_next_of s" "waiter_of (set_signaled f b s) = waiter_of s"
  "signaled (set_signaled f b s) = (signaled s)(f := b)" "armed_head (set_signaled f b s) = armed_head s"
  "below_flags s (set_signaled f b s)"
  by (simp_all add: fun_eq_iff)

lemma signal_keep:
  assumes "flag_rep s as"
  shows "flag_rep (set_signaled f b s) as" "flag_parked (set_signaled f b s) = flag_parked s"
  by (rule flag_rep_signal [OF assms signal_views(5,1,2,4)])+

text \<open>The critical section of one armed flag.\<close>

lemma take_signal_eq:
  assumes "flag_rep s as" "g \<in> set as"
  shows "take_signal g s = (signaled s g, if signaled s g then set_signaled g False s else s)"
  using flag_repD(3) [OF assms(1), of g] assms(2) by (auto simp: take_signal_def)

section \<open>The resolution loop\<close>

text \<open>What the loop has done when it ends: \<open>xs\<close> are the flags it still had to visit.\<close>

definition resolved :: "nat list \<Rightarrow> 'a flag_world_scheme \<Rightarrow> 'a flag_world_scheme \<Rightarrow> bool" where
  "resolved xs s s' \<longleftrightarrow> sched_inv s' \<and> quiet s s' \<and>
     ready_list s' = ready_list s @ map (\<lambda>g. the (waiter_of s g)) (filter (signaled s) xs) \<and>
     signaled s' = (\<lambda>g. signaled s g \<and> g \<notin> set xs) \<and>
     waiter_of s' = (\<lambda>g. if g \<in> set xs \<and> signaled s g then None else waiter_of s g) \<and>
     st_of s' = (\<lambda>i. if \<exists>g \<in> set xs. signaled s g \<and> waiter_of s g = Some i then Ready else st_of s i) \<and>
     locals_kept (flag_parked s) s s' \<and> events s' = events s \<and> flag_world.more s' = flag_world.more s \<and>
     pending s' = pending s \<and> wake_created s' = wake_created s \<and> wake_given s' = wake_given s \<and>
     max_tasks s' = max_tasks s"

lemma resolved_Nil [simp]: "sched_inv s \<Longrightarrow> resolved [] s s"
  by (simp add: resolved_def)

lemma resolved_parked: "waiter_of s' = (waiter_of s)(g := None) \<Longrightarrow> flag_parked s' \<subseteq> flag_parked s"
  by (auto simp: flag_parked_def split: if_splits)

lemma resolved_skip:
  assumes "resolved xs s s'" "\<not> signaled s g"
  shows "resolved (g # xs) s s'"
  using assms unfolding resolved_def by (auto simp: fun_eq_iff)

lemma resolved_wake:
  assumes rep: "flag_rep s (pre @ g # xs)" and sg: "signaled s g" and i: "waiter_of s g = Some i"
    and t: "quiet s t" "ready_list t = ready_list s @ [i]"
      "signaled t = (signaled s)(g := False)" "waiter_of t = (waiter_of s)(g := None)" "st_of t = (st_of s)(i := Ready)"
      "locals_kept (flag_parked s) s t" "events t = events s" "flag_world.more t = flag_world.more s"
      "pending t = pending s" "wake_created t = wake_created s" "wake_given t = wake_given s" "max_tasks t = max_tasks s"
    and r: "resolved xs t s'"
  shows "resolved (g # xs) s s'"
proof -
  note R = flag_repD [OF rep]
  have g: "g \<notin> set xs" using R(2) by simp
  then have f: "filter (signaled t) xs = filter (signaled s) xs" by (intro filter_cong) (auto simp: t(3))
  have m: "map (\<lambda>h. the (waiter_of t h)) (filter (signaled s) xs) = map (\<lambda>h. the (waiter_of s h)) (filter (signaled s) xs)"
    using g by (intro map_cong) (auto simp: t(4))
  have "locals_kept (flag_parked s) t s'"
    by (rule locals_kept_mono [OF _ resolved_parked [OF t(4)]]) (use r in \<open>simp add: resolved_def\<close>)
  then have l: "locals_kept (flag_parked s) s s'" by (rule locals_kept_trans [OF t(6)])
  have q: "quiet s s'" using quiet_trans [OF t(1)] r by (simp add: resolved_def)
  have st: "st_of s' = (\<lambda>j. if \<exists>h \<in> set (g # xs). signaled s h \<and> waiter_of s h = Some j then Ready else st_of s j)"
  proof
    fix j
    have "(\<exists>h \<in> set xs. signaled t h \<and> waiter_of t h = Some j) = (\<exists>h \<in> set xs. signaled s h \<and> waiter_of s h = Some j)"
      using g by (intro bex_cong) (auto simp: t(3,4))
    then show "st_of s' j = (if \<exists>h \<in> set (g # xs). signaled s h \<and> waiter_of s h = Some j then Ready else st_of s j)"
      using r sg i by (auto simp: resolved_def t(5))
  qed
  have w: "waiter_of s' = (\<lambda>h. if h \<in> set (g # xs) \<and> signaled s h then None else waiter_of s h)"
    "signaled s' = (\<lambda>h. signaled s h \<and> h \<notin> set (g # xs))"
    using r sg g unfolding resolved_def by (auto simp: fun_eq_iff t(3,4))
  show ?thesis
    using r q l st w unfolding resolved_def f m by (simp add: t(2,7-12) sg i)
qed

lemma resolve_loop_ends:
  assumes "sched_inv s" "flag_rep s (pre @ xs)" "prev = (if pre = [] then None else Some (last pre))"
  shows "\<exists>s'. resolve_loop prev (if xs = [] then None else Some (hd xs)) s = Some s' \<and>
    flag_rep s' (pre @ filter (\<lambda>g. \<not> signaled s g) xs) \<and> resolved xs s s'"
  using assms
proof (induction xs arbitrary: pre prev s)
  case Nil
  then show ?case by (subst resolve_loop.simps) simp
next
  case (Cons g xs)
  have ts: "take_signal g s = (signaled s g, if signaled s g then set_signaled g False s else s)"
    by (rule take_signal_eq [OF Cons.prems(2)]) simp
  have g: "g \<notin> set xs" using flag_repD(2) [OF Cons.prems(2)] by simp
  show ?case
  proof (cases "signaled s g")
    case False
    have "flag_rep s ((pre @ [g]) @ xs)" using Cons.prems(2) by simp
    from Cons.IH [OF Cons.prems(1) this, of "Some g"]
    obtain s' where s': "resolve_loop (Some g) (if xs = [] then None else Some (hd xs)) s = Some s'"
      "flag_rep s' ((pre @ [g]) @ filter (\<lambda>g. \<not> signaled s g) xs)" "resolved xs s s'" by auto
    have "chain (armed_next_of s) h (ys @ g # xs) \<Longrightarrow> chain (armed_next_of s) (armed_next_of s g) xs" for h ys
      by (induction ys arbitrary: h) auto
    then have "chain (armed_next_of s) (armed_next_of s g) xs" using flag_repD(1) [OF Cons.prems(2)] by blast
    then have nxt: "armed_next_of s g = (if xs = [] then None else Some (hd xs))" by (cases xs) auto
    have "resolve_loop prev (Some g) s = Some s'"
      using s'(1) False by (subst resolve_loop.simps) (simp add: ts resolve_flag_def Let_def nxt)
    then show ?thesis using s'(2) resolved_skip [OF s'(3) False] False by simp
  next
    case True
    let ?s1 = "set_signaled g False s"
    have inv1: "sched_inv ?s1" using Cons.prems(1) below_flagsD(4) [OF signal_views(5)] by metis
    note rep1 = signal_keep [OF Cons.prems(2), of g False]
    obtain i t where t: "resolve_flag True prev g ?s1 = (prev, if xs = [] then None else Some (hd xs), t)"
      "waiter_of ?s1 g = Some i" "sched_inv t" "flag_rep t (pre @ xs)" "quiet ?s1 t"
      "ready_list t = ready_list ?s1 @ [i]" "signaled t = signaled ?s1" "waiter_of t = (waiter_of ?s1)(g := None)"
      "st_of t = (st_of ?s1)(i := Ready)" "locals_kept (flag_parked ?s1) ?s1 t" "events t = events ?s1"
      "flag_world.more t = flag_world.more ?s1" "pending t = pending ?s1" "wake_created t = wake_created ?s1"
      "wake_given t = wake_given ?s1" "max_tasks t = max_tasks ?s1"
      by (rule wake_flag [OF inv1 rep1(1) Cons.prems(3)])
    note B = below_flagsD [OF signal_views(5) [of s g False]]
    from Cons.IH [OF t(3,4) Cons.prems(3)] obtain s' where
      s': "resolve_loop prev (if xs = [] then None else Some (hd xs)) t = Some s'"
      "flag_rep s' (pre @ filter (\<lambda>g. \<not> signaled t g) xs)" "resolved xs t s'" by auto
    have sgt: "signaled t = (signaled s)(g := False)" using t(7) signal_views(3) by metis
    have "filter (\<lambda>g. \<not> signaled t g) xs = filter (\<lambda>g. \<not> signaled s g) xs"
      using g by (intro filter_cong) (auto simp: sgt)
    then have rep': "flag_rep s' (pre @ filter (\<lambda>h. \<not> signaled s h) (g # xs))" using s'(2) True by simp
    have "resolve_loop prev (Some g) s = Some s'"
      using s'(1) True by (subst resolve_loop.simps) (simp only: ts t(1) option.case prod.case if_True)
    moreover have "resolved (g # xs) s s'"
      by (rule resolved_wake [OF Cons.prems(2) True _ quiet_trans [OF B(5) t(5)] _ sgt _ _ _ _ _ _ _ _ _ s'(3)])
        (use t B rep1(2) signal_views locals_kept_trans [OF B(10)] in simp_all)
    ultimately show ?thesis using rep' by auto
  qed
qed

end
