(* ===== verification/Flag_Props.thy ===== *)
theory Flag_Props
  imports Flag_Ops
begin

text \<open>
  The contracts of \<open>ThreadSafeFlag\<close> in scheduler context (threadsafeflag.h): waiting,
  setting, resolving, unarming and destruction, when no other context interferes.
\<close>

section \<open>Parking and unarming\<close>

lemma flag_park_inv:
  assumes inv: "sched_inv s" and rep: "flag_rep s as" and run: "current s = Some i" "st_of s i = Running" "handle_of s i = h"
    and w: "waiter_of s f = None"
  obtains s' where "flag_park f h s = (True, s')" "sched_inv s'" "evolves s s'" "flag_rep s' (f # as)"
    "ready_list s' = ready_list s" "st_of s' = (st_of s)(i := Waiting_local)" "waiter_of s' = (waiter_of s)(f := Some i)"
    "signaled s' = signaled s" "flag_parked s' = insert i (flag_parked s)" "locals_kept P s s'"
    "events s' = events s" "flag_world.more s' = flag_world.more s" "pending s' = pending s"
    "wake_created s' = wake_created s" "wake_given s' = wake_given s" "hook_log s' = hook_log s"
    "max_tasks s' = max_tasks s"
proof -
  let ?p = "set_state i Waiting_local s"
  let ?s' = "(set_armed_next f (armed_head s) (set_waiter f (Some i) ?p))\<lparr>armed_head := Some f\<rparr>"
  note r = flag_repD [OF rep]
  have i: "i < max_tasks s" using sched_invD(8) [OF inv] run(1) by (simp add: current_ok_def)
  have m: "flags ?p = flags s" "armed_head ?p = armed_head s" "pending ?p = pending s"
    "wake_created ?p = wake_created s" "wake_given ?p = wake_given s" "flag_world.more ?p = flag_world.more s"
    by (rule flags_of_more; simp)+
  have ep: "events ?p = events s" by (rule events_of_more) simp
  have b: "below_flags ?p ?s'" by simp
  note B = below_flagsD [OF b]
  have f: "f \<notin> set as" using r(3) w by simp
  have eq: "flag_park f h s = (True, ?s')"
    using run w by (simp add: flag_park_def running_is_def park_running_def flag_arm_def Let_def m)
  have v: "waiter_of ?s' = (waiter_of s)(f := Some i)" "signaled ?s' = signaled s" "pending ?s' = pending s"
    "wake_created ?s' = wake_created s" "wake_given ?s' = wake_given s" "armed_head ?s' = Some f"
    "armed_next_of ?s' = (armed_next_of s)(f := armed_head s)"
    by (simp_all add: fun_eq_iff m)
  have stt: "st_of ?s' = (st_of s)(i := Waiting_local)" "max_tasks ?s' = max_tasks s" using B(1,2) by simp_all
  have ni: "waiter_of s g \<noteq> Some i" for g using r(5) [of g i] run(2) by auto
  have rep': "flag_rep ?s' (f # as)"
  proof (rule flag_repI)
    show "chain (armed_next_of ?s') (armed_head ?s') (f # as)" unfolding v using r(1) f by simp
    show "distinct (f # as)" using r(2) f by simp
    show "g \<in> set (f # as) \<longleftrightarrow> waiter_of ?s' g \<noteq> None" for g unfolding v using r(3) [of g] by simp
    fix g j assume j: "waiter_of ?s' g = Some j"
    then show "j < max_tasks ?s' \<and> st_of ?s' j = Waiting_local"
      unfolding v stt using r(4,5) [of g j] i by (auto split: if_splits)
    fix k assume "waiter_of ?s' k = Some j"
    with j show "g = k" unfolding v using r(6) ni by (auto split: if_splits)
  qed
  have "\<exists>g. ((waiter_of s)(f := Some i)) g = Some j" if "waiter_of s g = Some j" for g j
    using that w by (intro exI [of _ g]) auto
  then have "flag_parked ?s' = insert i (flag_parked s)"
    unfolding flag_parked_def v by (auto simp del: fun_upd_apply) (auto split: if_splits)
  moreover have "sched_inv ?s'" using park_inv [OF inv run(2), of Waiting_local] B(4) by simp
  moreover have "evolves s ?s'"
    by (rule evolves_trans [OF park_evolves quiet_evolves [OF B(5)]]) (use run in auto)
  moreover have "locals_kept P s ?p" using run(2) by (auto simp: locals_kept_def)
  then have "locals_kept P s ?s'" by (rule locals_kept_trans [OF _ B(10)])
  moreover have "ready_list ?p = ready_list s" by (rule ready_list_cong) simp_all
  ultimately show thesis
    by (intro that [OF eq _ _ rep']) (use B m ep v stt in simp_all)
qed

lemma unarm_loop_finds:
  assumes "chain (armed_next_of s) (read_link link s) (pre @ f # post)" and "f \<notin> set pre"
  shows "unarm_loop f link s =
    Some (write_link (if pre = [] then link else Some (last pre)) (armed_next_of s f) s)"
  using assms
proof (induction pre arbitrary: link)
  case Nil
  then show ?case by (subst unarm_loop.simps) simp
next
  case (Cons g pre)
  then have g: "read_link link s = Some g" "g \<noteq> f" "chain (armed_next_of s) (read_link (Some g) s) (pre @ f # post)"
    by (auto simp: read_link_def)
  have "unarm_loop f link s = unarm_loop f (Some g) s" using g(1,2) by (subst unarm_loop.simps) simp
  then show ?case using Cons.IH [OF g(3)] Cons.prems(2) by simp
qed

lemma flag_unarm_inv:
  assumes rep: "flag_rep s as" and w: "waiter_of s f = Some i"
  obtains s' where "flag_unarm f s = Some s'" "flag_rep s' (filter (\<lambda>g. g \<noteq> f) as)" "below_flags s s'"
    "waiter_of s' = (waiter_of s)(f := None)" "signaled s' = signaled s" "pending s' = pending s"
    "wake_created s' = wake_created s" "wake_given s' = wake_given s"
proof -
  note r = flag_repD [OF rep]
  have "f \<in> set as" using r(3) w by simp
  then obtain pre post where as: "as = pre @ f # post" by (meson split_list)
  have f: "f \<notin> set pre" "f \<notin> set post" using r(2) as by auto
  let ?u = "write_link (if pre = [] then None else Some (last pre)) (armed_next_of s f) s"
  let ?s' = "set_waiter f None (set_armed_next f None ?u)"
  have "unarm_loop f None s = Some ?u"
    by (rule unarm_loop_finds [OF _ f(1)]) (use r(1) in \<open>simp add: read_link_def as\<close>)
  then have eq: "flag_unarm f s = Some ?s'" by (simp add: flag_unarm_def)
  have lp: "pre \<noteq> [] \<Longrightarrow> last pre \<noteq> f" using f(1) last_in_set by metis
  have b: "below_flags s ?s'" by (simp add: write_link_def)
  have v: "waiter_of ?s' = (waiter_of s)(f := None)" "signaled ?s' = signaled s" "pending ?s' = pending s"
    "wake_created ?s' = wake_created s" "wake_given ?s' = wake_given s"
    "armed_head ?s' = (if pre = [] then armed_next_of s f else armed_head s)"
    by (simp_all add: fun_eq_iff write_link_def)
  have nx: "armed_next_of ?s' x = (if pre \<noteq> [] \<and> x = last pre then armed_next_of s f else armed_next_of s x)"
    if "x \<noteq> f" for x
    using that lp by (auto simp: write_link_def)
  have ch: "chain (armed_next_of ?s') (armed_head ?s') (pre @ post)"
  proof -
    have "chain (armed_next_of ?s') h (pre @ post) =
        chain (if pre = [] then armed_next_of s else (armed_next_of s)(last pre := armed_next_of s f)) h (pre @ post)" for h
    proof (rule chain_cong)
      fix x assume "x \<in> set (pre @ post)"
      then have "x \<noteq> f" using f by auto
      then show "armed_next_of ?s' x = (if pre = [] then armed_next_of s else (armed_next_of s)(last pre := armed_next_of s f)) x"
        unfolding nx [OF \<open>x \<noteq> f\<close>] by simp
    qed
    then show ?thesis using chain_remove [OF r(1,2) [unfolded as]] by (simp only: v(6))
  qed
  have "filter (\<lambda>g. g \<noteq> f) pre = pre" "filter (\<lambda>g. g \<noteq> f) post = post" using f by (auto simp: filter_id_conv)
  then have fl: "filter (\<lambda>g. g \<noteq> f) as = pre @ post" by (simp add: as)
  have "flag_rep ?s' (pre @ post)"
  proof (rule flag_repI [OF ch])
    show "distinct (pre @ post)" using r(2) as by simp
    show "g \<in> set (pre @ post) \<longleftrightarrow> waiter_of ?s' g \<noteq> None" for g using r(3) [of g] f unfolding v(1) as by auto
    fix g j assume j: "waiter_of ?s' g = Some j"
    then show "j < max_tasks ?s' \<and> st_of ?s' j = Waiting_local"
      using r(4,5) [of g j] below_flagsD(1,2) [OF b] unfolding v(1) by (simp split: if_splits)
    fix h assume "waiter_of ?s' h = Some j"
    with j show "g = h" using r(6) [of g j h] unfolding v(1) by (simp split: if_splits)
  qed
  then show thesis by (intro that [OF eq _ b v(1-5)]) (simp only: fl)
qed

section \<open>Properties\<close>

text \<open>C11. \<open>poll_external_signals\<close> always returns. Without a pending signal it
  does nothing; otherwise it wakes exactly the waiters of the armed flags that are signaled,
  each once, in the order of the armed list, behind the tasks that are ready; those flags are
  reset and unarmed, the others stay armed with their waiters, and signals of flags nobody waits
  for are kept.\<close>

theorem flag_resolution:
  assumes "sched_inv s" and "flags_ok s"
  shows "\<exists>s'. poll_external_signals s = Some s' \<and> sched_inv s' \<and> flags_ok s' \<and>
    (if \<not> pending s then s' = s
     else \<not> pending s' \<and>
       ready_list s' = ready_list s @ map (\<lambda>f. the (waiter_of s f)) (filter (signaled s) (armed s)) \<and>
       armed s' = filter (\<lambda>f. \<not> signaled s f) (armed s) \<and>
       (\<forall>f. signaled s' f = (signaled s f \<and> f \<notin> set (armed s))) \<and>
       (\<forall>f. waiter_of s' f = (if signaled s f then None else waiter_of s f)))"
proof (cases "pending s")
  case False
  then have "poll_external_signals s = Some s" by (simp add: poll_external_signals_def take_pending_def)
  then show ?thesis using False assms by auto
next
  case True
  let ?s1 = "s\<lparr>pending := False\<rparr>"
  have b: "below_flags s ?s1" by simp
  note B = below_flagsD [OF b]
  have inv1: "sched_inv ?s1" using assms(1) B(4) by simp
  have rep1: "flag_rep ?s1 ([] @ armed s)"
    by (simp, rule flag_rep_signal [OF flags_okD [OF assms(2)] b]) simp_all
  have hd: "armed_head ?s1 = (if armed s = [] then None else Some (hd (armed s)))"
    using flag_repD(1) [OF flags_okD [OF assms(2)]] by (cases "armed s") auto
  obtain s' where s': "resolve_loop None (armed_head ?s1) ?s1 = Some s'"
    "flag_rep s' (filter (\<lambda>g. \<not> signaled ?s1 g) (armed s))" "resolved (armed s) ?s1 s'"
    using resolve_loop_ends [OF inv1 rep1, of None] unfolding hd by auto
  have "poll_external_signals s = Some s'"
    using True s'(1) by (simp add: poll_external_signals_def take_pending_def)
  moreover have "waiter_of s' f = (if signaled s f then None else waiter_of s f)" for f
    using s'(3) flag_repD(3) [OF flags_okD [OF assms(2)], of f] by (auto simp: resolved_def)
  ultimately show ?thesis
    using True s'(2,3) flag_rep_armed [OF s'(2)] B(3) by (auto simp: resolved_def)
qed

text \<open>\<open>co_await flag.wait()\<close>: a set flag is consumed at once and nobody
  is suspended; otherwise the running task becomes the flag's single waiter and is parked. A
  foreign coroutine is refused with \<open>invalid_task\<close>, even when the flag has a waiter, and a
  second waiter with \<open>multiple_flag_waiters\<close>; neither refusal changes the flag.\<close>

theorem flag_wait_contract:
  assumes "sched_inv s" and "flags_ok s"
  shows "(flag_is_set f s \<longrightarrow> flag_consume f s = (True, flag_clear f s) \<and> flags_ok (flag_clear f s) \<and>
      armed (flag_clear f s) = armed s) \<and>
    (\<not> flag_is_set f s \<longrightarrow> flag_consume f s = (False, s)) \<and>
    ((\<nexists>i. current s = Some i \<and> st_of s i = Running \<and> handle_of s i = h) \<longrightarrow>
      flag_park f h s = (False, on_error Invalid_task s)) \<and>
    (\<forall>i. current s = Some i \<and> st_of s i = Running \<and> handle_of s i = h \<longrightarrow>
      (if waiter_of s f \<noteq> None then flag_park f h s = (False, on_error Multiple_flag_waiters s)
       else \<exists>s'. flag_park f h s = (True, s') \<and> waiter_of s' f = Some i \<and> armed s' = f # armed s \<and>
         st_of s' = (st_of s)(i := Waiting_local) \<and> ready_list s' = ready_list s \<and> sched_inv s' \<and> flags_ok s'))"
proof (intro conjI impI allI)
  assume "flag_is_set f s"
  then show "flag_consume f s = (True, flag_clear f s)"
    by (simp add: flag_is_set_def flag_consume_def flag_clear_def)
  note k = flag_rep_armed [OF signal_keep(1) [OF flags_okD [OF assms(2)], of f False]]
  show "flags_ok (flag_clear f s)" "armed (flag_clear f s) = armed s" using k by (simp_all only: flag_clear_def)
next
  assume "\<not> flag_is_set f s"
  then show "flag_consume f s = (False, s)" by (simp add: flag_is_set_def flag_consume_def)
next
  assume "\<nexists>i. current s = Some i \<and> st_of s i = Running \<and> handle_of s i = h"
  then have "running_is h s = (False, on_error Invalid_task s)"
    using running_is_iff [of h s] by (cases "running_is h s") auto
  then show "flag_park f h s = (False, on_error Invalid_task s)" by (simp add: flag_park_def)
next
  fix i assume r: "current s = Some i \<and> st_of s i = Running \<and> handle_of s i = h"
  show "if waiter_of s f \<noteq> None then flag_park f h s = (False, on_error Multiple_flag_waiters s)
       else \<exists>s'. flag_park f h s = (True, s') \<and> waiter_of s' f = Some i \<and> armed s' = f # armed s \<and>
         st_of s' = (st_of s)(i := Waiting_local) \<and> ready_list s' = ready_list s \<and> sched_inv s' \<and> flags_ok s'"
  proof (cases "waiter_of s f")
    case (Some j)
    have "running_is h s = (True, s)" using r by (simp add: running_is_def)
    then show ?thesis using Some by (simp add: flag_park_def)
  next
    case None
    from r have run: "current s = Some i" "st_of s i = Running" "handle_of s i = h" by simp_all
    obtain s' where s': "flag_park f h s = (True, s')" "sched_inv s'" "flag_rep s' (f # armed s)"
      "ready_list s' = ready_list s" "st_of s' = (st_of s)(i := Waiting_local)" "waiter_of s' = (waiter_of s)(f := Some i)"
      by (rule flag_park_inv [OF assms(1) flags_okD [OF assms(2)] run None]) (rule that; assumption)
    then show ?thesis using None flag_rep_armed [OF s'(3)] by simp
  qed
qed

text \<open>Repeated \<open>set()\<close> before the flag is consumed coalesces: the second
  call changes nothing, not even the wake-up of the scheduler, and one \<open>wait()\<close> consumes all.
  \<open>set()\<close> touches nothing but the signal, the pending marker and the semaphore.\<close>

theorem flag_set_coalesces:
  shows "flag_set f (flag_set f s) = flag_set f s \<and> flag_is_set f (flag_set f s) \<and> pending (flag_set f s) \<and>
    below_flags s (flag_set f s) \<and> armed (flag_set f s) = armed s \<and> waiter_of (flag_set f s) = waiter_of s \<and>
    signaled (flag_set f s) = (signaled s)(f := True) \<and>
    fst (flag_consume f (flag_set f s)) \<and> \<not> fst (flag_consume f (snd (flag_consume f (flag_set f s))))"
proof -
  have e: "flag_set f s = (let t = (set_signaled f True s)\<lparr>pending := True\<rparr>
      in if signaled s f \<or> \<not> wake_created s then t else t\<lparr>wake_given := True\<rparr>)"
    by (simp add: flag_set_def flag_signal_def platform_wake_scheduler_def Let_def)
  have b: "below_flags s (flag_set f s)" by (simp add: e Let_def)
  have v: "signaled (flag_set f s) = (signaled s)(f := True)" "waiter_of (flag_set f s) = waiter_of s"
    "pending (flag_set f s)" "armed_next_of (flag_set f s) = armed_next_of s" "armed_head (flag_set f s) = armed_head s"
    by (simp_all add: e Let_def fun_eq_iff)
  have idem: "flag_set f (flag_set f s) = flag_set f s"
  proof -
    have s: "signaled (flag_set f s) f" by (simp add: v)
    have "(set_signaled f True (flag_set f s))\<lparr>pending := True\<rparr> = flag_set f s"
      by (simp add: e Let_def upd_flag_def)
    then show ?thesis using s by (simp add: flag_set_def [of f "flag_set f s"] flag_signal_def Let_def)
  qed
  have "armed (flag_set f s) = armed s" using v(4,5) below_flagsD(2) [OF b] by (simp add: armed_def)
  then show ?thesis using b v idem by (simp add: flag_is_set_def flag_consume_def)
qed

text \<open>Destroying a flag with a waiter takes it out of the armed list first,
  so that \<open>poll()\<close> never looks at it again, and reports the error; other flags stay armed. A
  flag without a waiter is destroyed silently.\<close>

theorem flag_destruction:
  assumes "flags_ok s"
  shows "\<exists>s'. flag_destructor f s = Some s' \<and> flags_ok s' \<and> armed s' = filter (\<lambda>g. g \<noteq> f) (armed s) \<and>
    waiter_of s' = (waiter_of s)(f := None) \<and>
    hook_log s' = hook_log s @ (if waiter_of s f = None then [] else [Object_destroyed_with_waiters])"
proof (cases "waiter_of s f")
  case None
  then have "f \<notin> set (armed s)" using flag_repD(3) [OF flags_okD [OF assms], of f] by simp
  then have "filter (\<lambda>g. g \<noteq> f) (armed s) = armed s" by (auto simp: filter_id_conv)
  then show ?thesis using None assms by (simp add: flag_destructor_def fun_upd_idem)
next
  case (Some i)
  obtain t where t: "flag_unarm f s = Some t" "flag_rep t (filter (\<lambda>g. g \<noteq> f) (armed s))" "below_flags s t"
    "waiter_of t = (waiter_of s)(f := None)" "signaled t = signaled s" "pending t = pending s"
    "wake_created t = wake_created s" "wake_given t = wake_given s"
    by (rule flag_unarm_inv [OF flags_okD [OF assms] Some])
  let ?s' = "on_error Object_destroyed_with_waiters t"
  have m: "flags ?s' = flags t" "armed_head ?s' = armed_head t" by (rule flags_of_more; simp)+
  have r: "flag_rep ?s' (filter (\<lambda>g. g \<noteq> f) (armed s))"
    by (rule flag_rep_keep [OF t(2)]) (simp_all add: m)
  have "flag_destructor f s = Some ?s'" using Some t(1) by (simp add: flag_destructor_def)
  moreover have "hook_log ?s' = hook_log s @ [Object_destroyed_with_waiters]"
    using below_flagsD(8) [OF t(3)] by (simp add: on_error_def)
  ultimately show ?thesis using flag_rep_armed [OF r] t(4) m Some by simp
qed

end
