(* ===== verification/Queue.thy ===== *)
theory Queue
  imports Thread_Safe_Flag
begin

text \<open>
  \<open>class Queue<T, Capacity>\<close> (queue.h): the ring of cells, the two lists of parked awaiters
  and every operation, in the order of the file. The program's queues and the awaiter objects
  that live on the coroutine frames are functions of a number, their address; the payload type
  is a type variable and \<open>Capacity\<close> a field. A cell is raw storage (\<open>None\<close>) or holds a
  constructed object, so that placement construction and explicit destruction are visible.
  Moving a payload leaves a source nobody reads again; the model copies the value.
  \<open>size_t\<close> is \<open>nat\<close>: head and count stay below \<open>2 * Capacity\<close>, and an object of that many
  cells exists in memory.
\<close>

section \<open>Objects\<close>

record 'v queue =
  q_capacity :: nat
  q_cells :: "nat \<Rightarrow> 'v option"
  q_head :: nat
  q_count :: nat
  send_head :: "nat option"
  send_tail :: "nat option"
  recv_head :: "nat option"
  recv_tail :: "nat option"

record 'v send_awaiter =
  sa_queue :: nat
  sa_value :: 'v
  sa_next :: "nat option"
  sa_slot :: "nat option"
  sa_linked :: bool

record 'v receive_awaiter =
  ra_queue :: nat
  ra_storage :: "'v option"
  ra_has_result :: bool
  ra_next :: "nat option"
  ra_slot :: "nat option"
  ra_linked :: bool

record 'v q_world = flag_world +
  queues :: "nat \<Rightarrow> 'v queue"
  senders :: "nat \<Rightarrow> 'v send_awaiter"
  receivers :: "nat \<Rightarrow> 'v receive_awaiter"

definition queue_init :: "nat \<Rightarrow> 'v queue" where
  "queue_init capacity = \<lparr>q_capacity = capacity, q_cells = (\<lambda>_. None), q_head = 0, q_count = 0,
     send_head = None, send_tail = None, recv_head = None, recv_tail = None\<rparr>"

definition upd_queue :: "nat \<Rightarrow> ('v queue \<Rightarrow> 'v queue) \<Rightarrow> ('v, 'a) q_world_scheme \<Rightarrow> ('v, 'a) q_world_scheme" where
  "upd_queue q f s = s\<lparr>queues := (queues s)(q := f (queues s q))\<rparr>"

definition upd_sender ::
    "nat \<Rightarrow> ('v send_awaiter \<Rightarrow> 'v send_awaiter) \<Rightarrow> ('v, 'a) q_world_scheme \<Rightarrow> ('v, 'a) q_world_scheme" where
  "upd_sender a f s = s\<lparr>senders := (senders s)(a := f (senders s a))\<rparr>"

definition upd_receiver ::
    "nat \<Rightarrow> ('v receive_awaiter \<Rightarrow> 'v receive_awaiter) \<Rightarrow> ('v, 'a) q_world_scheme \<Rightarrow> ('v, 'a) q_world_scheme" where
  "upd_receiver a f s = s\<lparr>receivers := (receivers s)(a := f (receivers s a))\<rparr>"

abbreviation "set_send_head q x \<equiv> upd_queue q (send_head_update (\<lambda>_. x))"
abbreviation "set_send_tail q x \<equiv> upd_queue q (send_tail_update (\<lambda>_. x))"
abbreviation "set_recv_head q x \<equiv> upd_queue q (recv_head_update (\<lambda>_. x))"
abbreviation "set_recv_tail q x \<equiv> upd_queue q (recv_tail_update (\<lambda>_. x))"
abbreviation "set_sa_next a x \<equiv> upd_sender a (sa_next_update (\<lambda>_. x))"
abbreviation "set_sa_slot a x \<equiv> upd_sender a (sa_slot_update (\<lambda>_. x))"
abbreviation "set_sa_linked a x \<equiv> upd_sender a (sa_linked_update (\<lambda>_. x))"
abbreviation "set_ra_next a x \<equiv> upd_receiver a (ra_next_update (\<lambda>_. x))"
abbreviation "set_ra_slot a x \<equiv> upd_receiver a (ra_slot_update (\<lambda>_. x))"
abbreviation "set_ra_linked a x \<equiv> upd_receiver a (ra_linked_update (\<lambda>_. x))"

definition queue_construct :: "nat \<Rightarrow> nat \<Rightarrow> ('v, 'a) q_world_scheme \<Rightarrow> ('v, 'a) q_world_scheme" where
  "queue_construct q capacity s = upd_queue q (\<lambda>_. queue_init capacity) s"

text \<open>\<open>send(value)\<close> and \<open>receive()\<close> construct the awaiter object \<open>a\<close>.\<close>

definition queue_send :: "nat \<Rightarrow> 'v \<Rightarrow> nat \<Rightarrow> ('v, 'a) q_world_scheme \<Rightarrow> ('v, 'a) q_world_scheme" where
  "queue_send q value a s =
     upd_sender a (\<lambda>_. \<lparr>sa_queue = q, sa_value = value, sa_next = None, sa_slot = None, sa_linked = False\<rparr>) s"

definition queue_receive :: "nat \<Rightarrow> nat \<Rightarrow> ('v, 'a) q_world_scheme \<Rightarrow> ('v, 'a) q_world_scheme" where
  "queue_receive q a s =
     upd_receiver a (\<lambda>_. \<lparr>ra_queue = q, ra_storage = None, ra_has_result = False, ra_next = None,
       ra_slot = None, ra_linked = False\<rparr>) s"

definition construct_result :: "nat \<Rightarrow> 'v \<Rightarrow> ('v, 'a) q_world_scheme \<Rightarrow> ('v, 'a) q_world_scheme" where
  "construct_result r value s =
     (let s1 = upd_receiver r (ra_storage_update (\<lambda>_. Some value)) s
      in upd_receiver r (ra_has_result_update (\<lambda>_. True)) s1)"

section \<open>The ring\<close>

definition queue_empty :: "nat \<Rightarrow> ('v, 'a) q_world_scheme \<Rightarrow> bool" where
  "queue_empty q s \<longleftrightarrow> q_count (queues s q) = 0"

definition queue_full :: "nat \<Rightarrow> ('v, 'a) q_world_scheme \<Rightarrow> bool" where
  "queue_full q s \<longleftrightarrow> q_count (queues s q) = q_capacity (queues s q)"

definition queue_size :: "nat \<Rightarrow> ('v, 'a) q_world_scheme \<Rightarrow> nat" where
  "queue_size q s = q_count (queues s q)"

definition next_index :: "nat \<Rightarrow> nat \<Rightarrow> nat" where
  "next_index capacity i = (if i + 1 = capacity then 0 else i + 1)"

definition tail_index :: "'v queue \<Rightarrow> nat" where
  "tail_index qu = (let t = q_head qu + q_count qu in if t \<ge> q_capacity qu then t - q_capacity qu else t)"

definition store_back :: "'v \<Rightarrow> 'v queue \<Rightarrow> 'v queue" where
  "store_back value qu =
     (let qu1 = qu\<lparr>q_cells := (q_cells qu)(tail_index qu := Some value)\<rparr>
      in qu1\<lparr>q_count := q_count qu1 + 1\<rparr>)"

definition pop_front_storage :: "'v queue \<Rightarrow> 'v queue" where
  "pop_front_storage qu =
     (let qu1 = qu\<lparr>q_cells := (q_cells qu)(q_head qu := None)\<rparr>;
          qu2 = qu1\<lparr>q_head := next_index (q_capacity qu1) (q_head qu1)\<rparr>
      in qu2\<lparr>q_count := q_count qu2 - 1\<rparr>)"

section \<open>The lists of parked awaiters\<close>

text \<open>The enqueueing half of \<open>park_sender\<close> and \<open>park_receiver\<close>, without \<open>linked_\<close>.\<close>

definition send_enqueue :: "nat \<Rightarrow> nat \<Rightarrow> ('v, 'a) q_world_scheme \<Rightarrow> ('v, 'a) q_world_scheme" where
  "send_enqueue q a s =
     (let s1 = set_sa_next a None s;
          s2 = (case send_tail (queues s1 q) of
                  None \<Rightarrow> set_send_head q (Some a) s1
                | Some t \<Rightarrow> set_sa_next t (Some a) s1)
      in set_send_tail q (Some a) s2)"

definition recv_enqueue :: "nat \<Rightarrow> nat \<Rightarrow> ('v, 'a) q_world_scheme \<Rightarrow> ('v, 'a) q_world_scheme" where
  "recv_enqueue q a s =
     (let s1 = set_ra_next a None s;
          s2 = (case recv_tail (queues s1 q) of
                  None \<Rightarrow> set_recv_head q (Some a) s1
                | Some t \<Rightarrow> set_ra_next t (Some a) s1)
      in set_recv_tail q (Some a) s2)"

text \<open>The callers of the pop operations have tested the head pointer.\<close>

definition send_pop_front :: "nat \<Rightarrow> ('v, 'a) q_world_scheme \<Rightarrow> nat option \<times> ('v, 'a) q_world_scheme" where
  "send_pop_front q s =
     (case send_head (queues s q) of
        None \<Rightarrow> (None, s)
      | Some a \<Rightarrow>
          let s1 = set_send_head q (sa_next (senders s a)) s;
              s2 = (if send_head (queues s1 q) = None then set_send_tail q None s1 else s1);
              s3 = set_sa_next a None s2
          in (Some a, set_sa_linked a False s3))"

definition recv_pop_front :: "nat \<Rightarrow> ('v, 'a) q_world_scheme \<Rightarrow> nat option \<times> ('v, 'a) q_world_scheme" where
  "recv_pop_front q s =
     (case recv_head (queues s q) of
        None \<Rightarrow> (None, s)
      | Some a \<Rightarrow>
          let s1 = set_recv_head q (ra_next (receivers s a)) s;
              s2 = (if recv_head (queues s1 q) = None then set_recv_tail q None s1 else s1);
              s3 = set_ra_next a None s2
          in (Some a, set_ra_linked a False s3))"

definition park_sender :: "nat \<Rightarrow> nat \<Rightarrow> nat option \<Rightarrow> ('v, 'a) q_world_scheme \<Rightarrow> bool \<times> ('v, 'a) q_world_scheme" where
  "park_sender q a awaiting s =
     (case running_is awaiting s of (ok, s1) \<Rightarrow>
        if ok then
          (case park_running s1 of (p, s2) \<Rightarrow>
             let s3 = set_sa_slot a p s2;
                 s4 = send_enqueue q a s3
             in (True, set_sa_linked a True s4))
        else (False, s1))"

definition park_receiver :: "nat \<Rightarrow> nat \<Rightarrow> nat option \<Rightarrow> ('v, 'a) q_world_scheme \<Rightarrow> bool \<times> ('v, 'a) q_world_scheme" where
  "park_receiver q a awaiting s =
     (case running_is awaiting s of (ok, s1) \<Rightarrow>
        if ok then
          (case park_running s1 of (p, s2) \<Rightarrow>
             let s3 = set_ra_slot a p s2;
                 s4 = recv_enqueue q a s3
             in (True, set_ra_linked a True s4))
        else (False, s1))"

text \<open>The search loops; \<open>None\<close> is a loop that does not end.\<close>

partial_function (option) unlink_sender_loop ::
    "nat \<Rightarrow> nat \<Rightarrow> nat option \<Rightarrow> nat option \<Rightarrow> ('v, 'a) q_world_scheme \<Rightarrow> ('v, 'a) q_world_scheme option" where
  "unlink_sender_loop q a prev p s =
     (case p of
        None \<Rightarrow> Some s
      | Some x \<Rightarrow>
          if x = a then
            let s1 = (case prev of
                        None \<Rightarrow> set_send_head q (sa_next (senders s x)) s
                      | Some y \<Rightarrow> set_sa_next y (sa_next (senders s x)) s)
            in Some (if send_tail (queues s1 q) = Some x then set_send_tail q prev s1 else s1)
          else unlink_sender_loop q a (Some x) (sa_next (senders s x)) s)"

definition unlink_sender :: "nat \<Rightarrow> nat \<Rightarrow> ('v, 'a) q_world_scheme \<Rightarrow> ('v, 'a) q_world_scheme option" where
  "unlink_sender q a s =
     map_option (\<lambda>s1. set_sa_linked a False (set_sa_next a None s1))
       (unlink_sender_loop q a None (send_head (queues s q)) s)"

partial_function (option) unlink_receiver_loop ::
    "nat \<Rightarrow> nat \<Rightarrow> nat option \<Rightarrow> nat option \<Rightarrow> ('v, 'a) q_world_scheme \<Rightarrow> ('v, 'a) q_world_scheme option" where
  "unlink_receiver_loop q a prev p s =
     (case p of
        None \<Rightarrow> Some s
      | Some x \<Rightarrow>
          if x = a then
            let s1 = (case prev of
                        None \<Rightarrow> set_recv_head q (ra_next (receivers s x)) s
                      | Some y \<Rightarrow> set_ra_next y (ra_next (receivers s x)) s)
            in Some (if recv_tail (queues s1 q) = Some x then set_recv_tail q prev s1 else s1)
          else unlink_receiver_loop q a (Some x) (ra_next (receivers s x)) s)"

definition unlink_receiver :: "nat \<Rightarrow> nat \<Rightarrow> ('v, 'a) q_world_scheme \<Rightarrow> ('v, 'a) q_world_scheme option" where
  "unlink_receiver q a s =
     map_option (\<lambda>s1. set_ra_linked a False (set_ra_next a None s1))
       (unlink_receiver_loop q a None (recv_head (queues s q)) s)"

section \<open>Sending and receiving\<close>

text \<open>\<open>do_send\<close>; \<open>recv_pop_front\<close> returns the head that was tested.\<close>

definition do_send :: "nat \<Rightarrow> 'v \<Rightarrow> ('v, 'a) q_world_scheme \<Rightarrow> bool \<times> ('v, 'a) q_world_scheme" where
  "do_send q value s =
     (case recv_pop_front q s of
        (Some r, s1) \<Rightarrow>
          let s2 = construct_result r value s1;
              s3 = wake_slot (ra_slot (receivers s2 r)) s2
          in (True, s3)
      | (None, s1) \<Rightarrow>
          if q_count (queues s1 q) < q_capacity (queues s1 q)
          then (True, upd_queue q (store_back value) s1)
          else (False, s1))"

definition admit_oldest_sender :: "nat \<Rightarrow> ('v, 'a) q_world_scheme \<Rightarrow> ('v, 'a) q_world_scheme" where
  "admit_oldest_sender q s =
     (case send_pop_front q s of
        (Some a, s1) \<Rightarrow>
          let s2 = upd_queue q (store_back (sa_value (senders s1 a))) s1
          in wake_slot (sa_slot (senders s2 a)) s2
      | (None, s1) \<Rightarrow> s1)"

definition try_send :: "nat \<Rightarrow> 'v \<Rightarrow> ('v, 'a) q_world_scheme \<Rightarrow> bool \<times> ('v, 'a) q_world_scheme" where
  "try_send q value s = do_send q value s"

text \<open>
  \<open>tryReceive(out)\<close>: \<open>None\<close> is \<open>false\<close>, with \<open>out\<close> unchanged. A counted front cell holds a
  constructed object; reading a raw cell would be the undefined value of \<open>the\<close>.
\<close>

definition try_receive :: "nat \<Rightarrow> ('v, 'a) q_world_scheme \<Rightarrow> 'v option \<times> ('v, 'a) q_world_scheme" where
  "try_receive q s =
     (if q_count (queues s q) = 0 then (None, s)
      else let out = the (q_cells (queues s q) (q_head (queues s q)));
               s1 = upd_queue q pop_front_storage s
           in (Some out, admit_oldest_sender q s1))"

definition send_ready :: "nat \<Rightarrow> ('v, 'a) q_world_scheme \<Rightarrow> bool \<times> ('v, 'a) q_world_scheme" where
  "send_ready a s = do_send (sa_queue (senders s a)) (sa_value (senders s a)) s"

definition send_suspend :: "nat \<Rightarrow> nat option \<Rightarrow> ('v, 'a) q_world_scheme \<Rightarrow> bool \<times> ('v, 'a) q_world_scheme" where
  "send_suspend a awaiting s = park_sender (sa_queue (senders s a)) a awaiting s"

definition send_destructor :: "nat \<Rightarrow> ('v, 'a) q_world_scheme \<Rightarrow> ('v, 'a) q_world_scheme option" where
  "send_destructor a s = (if sa_linked (senders s a) then unlink_sender (sa_queue (senders s a)) a s else Some s)"

definition receive_ready :: "nat \<Rightarrow> ('v, 'a) q_world_scheme \<Rightarrow> bool \<times> ('v, 'a) q_world_scheme" where
  "receive_ready a s =
     (let q = ra_queue (receivers s a)
      in if q_count (queues s q) = 0 then (False, s)
         else let s1 = construct_result a (the (q_cells (queues s q) (q_head (queues s q)))) s;
                  s2 = upd_queue q pop_front_storage s1
              in (True, admit_oldest_sender q s2))"

definition receive_suspend :: "nat \<Rightarrow> nat option \<Rightarrow> ('v, 'a) q_world_scheme \<Rightarrow> bool \<times> ('v, 'a) q_world_scheme" where
  "receive_suspend a awaiting s = park_receiver (ra_queue (receivers s a)) a awaiting s"

text \<open>
  \<open>await_resume()\<close>: \<open>fallback\<close> is \<open>T{}\<close> when \<open>T\<close> is default constructible; without it, and
  without a result, the code reports \<open>invalid_task\<close> for ever and the value is \<open>None\<close>.
\<close>

definition receive_resume ::
    "'v option \<Rightarrow> nat \<Rightarrow> ('v, 'a) q_world_scheme \<Rightarrow> ('v \<times> ('v, 'a) q_world_scheme) option" where
  "receive_resume fallback a s =
     (if \<not> ra_has_result (receivers s a) then map_option (\<lambda>v. (v, s)) fallback
      else let v = the (ra_storage (receivers s a));
               s1 = upd_receiver a (ra_storage_update (\<lambda>_. None)) s;
               s2 = upd_receiver a (ra_has_result_update (\<lambda>_. False)) s1
           in Some (v, s2))"

definition receive_destructor :: "nat \<Rightarrow> ('v, 'a) q_world_scheme \<Rightarrow> ('v, 'a) q_world_scheme option" where
  "receive_destructor a s =
     map_option (\<lambda>s1. if ra_has_result (receivers s1 a)
                      then upd_receiver a (ra_storage_update (\<lambda>_. None)) s1 else s1)
       (if ra_linked (receivers s a) then unlink_receiver (ra_queue (receivers s a)) a s else Some s)"

section \<open>Destroying a queue\<close>

partial_function (option) detach_senders :: "nat option \<Rightarrow> ('v, 'a) q_world_scheme \<Rightarrow> ('v, 'a) q_world_scheme option" where
  "detach_senders p s =
     (case p of
        None \<Rightarrow> Some s
      | Some a \<Rightarrow> let s1 = set_sa_linked a False s in detach_senders (sa_next (senders s1 a)) s1)"

partial_function (option) detach_receivers :: "nat option \<Rightarrow> ('v, 'a) q_world_scheme \<Rightarrow> ('v, 'a) q_world_scheme option" where
  "detach_receivers p s =
     (case p of
        None \<Rightarrow> Some s
      | Some a \<Rightarrow> let s1 = set_ra_linked a False s in detach_receivers (ra_next (receivers s1 a)) s1)"

function drain :: "'v queue \<Rightarrow> 'v queue" where
  "drain qu = (if q_count qu > 0 then drain (pop_front_storage qu) else qu)"
  by pat_completeness auto
termination
  by (relation "measure q_count") (auto simp: pop_front_storage_def Let_def)

declare drain.simps [simp del]

definition queue_destructor :: "nat \<Rightarrow> ('v, 'a) q_world_scheme \<Rightarrow> ('v, 'a) q_world_scheme option" where
  "queue_destructor q s =
     (case detach_senders (send_head (queues s q)) s of
        None \<Rightarrow> None
      | Some s1 \<Rightarrow>
          (case detach_receivers (recv_head (queues s1 q)) s1 of
             None \<Rightarrow> None
           | Some s2 \<Rightarrow>
               let s3 = (if send_head (queues s2 q) \<noteq> None \<or> recv_head (queues s2 q) \<noteq> None
                         then on_error Object_destroyed_with_waiters s2 else s2)
               in Some (upd_queue q drain s3)))"

end
