(* ===== verification/Queue_Spec.thy ===== *)
theory Queue_Spec
  imports Queue
begin

text \<open>
  What the pieces of \<open>Queue\<close> (queue.h) represent: the ring of cells a list of payloads, the
  two pointer lists the parked awaiters in their order. The invariant of all queues of a
  program, and its preservation by the primitive steps.
\<close>

section \<open>The ring\<close>

text \<open>How many cells behind the head a cell is.\<close>

definition ring_pos :: "'v queue \<Rightarrow> nat \<Rightarrow> nat" where
  "ring_pos qu i = (if q_head qu \<le> i then i - q_head qu else i + q_capacity qu - q_head qu)"

text \<open>The payloads, oldest first; every other cell is raw storage.\<close>

definition ring_rep :: "'v queue \<Rightarrow> 'v list \<Rightarrow> bool" where
  "ring_rep qu vs \<longleftrightarrow> q_head qu < q_capacity qu \<and> q_count qu = length vs \<and> length vs \<le> q_capacity qu \<and>
     (\<forall>i. q_cells qu i = (if i < q_capacity qu \<and> ring_pos qu i < length vs then Some (vs ! ring_pos qu i) else None))"

definition ring_index :: "'v queue \<Rightarrow> nat \<Rightarrow> nat" where
  "ring_index qu k = (if q_head qu + k < q_capacity qu then q_head qu + k else q_head qu + k - q_capacity qu)"

definition contents :: "'v queue \<Rightarrow> 'v list" where
  "contents qu = map (\<lambda>k. the (q_cells qu (ring_index qu k))) [0..<q_count qu]"

lemma ring_repD:
  assumes "ring_rep qu vs"
  shows "q_head qu < q_capacity qu" "q_count qu = length vs" "length vs \<le> q_capacity qu"
    "q_cells qu i = (if i < q_capacity qu \<and> ring_pos qu i < length vs then Some (vs ! ring_pos qu i) else None)"
  using assms by (simp_all add: ring_rep_def)

lemma ring_rep_contents:
  assumes "ring_rep qu vs"
  shows "contents qu = vs"
proof (rule nth_equalityI)
  show "length (contents qu) = length vs" using assms by (simp add: contents_def ring_rep_def)
  fix k assume "k < length (contents qu)"
  then have k: "k < length vs" "q_count qu = length vs" using assms by (simp_all add: contents_def ring_rep_def)
  note r = ring_repD [OF assms]
  have "ring_index qu k < q_capacity qu" "ring_pos qu (ring_index qu k) = k"
    using k r(1-3) by (auto simp: ring_index_def ring_pos_def)
  then show "contents qu ! k = vs ! k" using k r(4) [of "ring_index qu k"] by (simp add: contents_def)
qed

lemma ring_rep_init: "0 < capacity \<Longrightarrow> ring_rep (queue_init capacity) []"
  by (simp add: ring_rep_def queue_init_def)

text \<open>A new payload is constructed in raw storage, and comes last.\<close>

lemma ring_store:
  assumes "ring_rep qu vs" and "length vs < q_capacity qu"
  shows "ring_rep (store_back v qu) (vs @ [v])" "q_cells qu (tail_index qu) = None"
proof -
  note r = ring_repD [OF assms(1)]
  let ?t = "tail_index qu"
  have t: "?t < q_capacity qu" and pt: "ring_pos qu ?t = length vs"
    using r(1-3) assms(2) by (auto simp: tail_index_def ring_pos_def Let_def)
  have uniq: "i < q_capacity qu \<Longrightarrow> ring_pos qu i = length vs \<Longrightarrow> i = ?t" for i
    using r(1-3) assms(2) by (auto simp: tail_index_def ring_pos_def Let_def split: if_splits)
  show "q_cells qu ?t = None" using r(4) [of ?t] pt by simp
  have pos: "ring_pos (store_back v qu) = ring_pos qu" by (simp add: fun_eq_iff ring_pos_def store_back_def Let_def)
  have cells: "q_cells (store_back v qu) i =
      (if i < q_capacity qu \<and> ring_pos qu i < Suc (length vs) then Some ((vs @ [v]) ! ring_pos qu i) else None)" for i
  proof (cases "i = ?t")
    case True
    then show ?thesis using t pt by (simp add: store_back_def Let_def)
  next
    case False
    then have "i < q_capacity qu \<Longrightarrow> ring_pos qu i \<noteq> length vs" using uniq by blast
    then show ?thesis using False r(4) [of i] by (auto simp: store_back_def Let_def nth_append)
  qed
  have "q_head (store_back v qu) = q_head qu" "q_capacity (store_back v qu) = q_capacity qu"
    "q_count (store_back v qu) = Suc (length vs)"
    using r(2) by (simp_all add: store_back_def Let_def)
  then show "ring_rep (store_back v qu) (vs @ [v])"
    using r(1) assms(2) cells by (simp add: ring_rep_def pos)
qed

text \<open>The oldest payload is a constructed object; it is destroyed and leaves raw storage.\<close>

lemma ring_pop:
  assumes "ring_rep qu (v # vs)"
  shows "ring_rep (pop_front_storage qu) vs" "q_cells qu (q_head qu) = Some v"
proof -
  note r = ring_repD [OF assms]
  show "q_cells qu (q_head qu) = Some v" using r(1) r(4) [of "q_head qu"] by (simp add: ring_pos_def)
  let ?qu = "pop_front_storage qu"
  have f: "q_capacity ?qu = q_capacity qu" "q_count ?qu = length vs"
    "q_head ?qu = (if q_head qu + 1 = q_capacity qu then 0 else q_head qu + 1)"
    "q_cells ?qu = (q_cells qu)(q_head qu := None)"
    using r(2) by (simp_all add: pop_front_storage_def next_index_def Let_def)
  have cells: "q_cells ?qu i = (if i < q_capacity qu \<and> ring_pos ?qu i < length vs then Some (vs ! ring_pos ?qu i) else None)" for i
  proof (cases "i < q_capacity qu")
    case False
    then show ?thesis using r(1) r(4) [of i] by (simp add: f)
  next
    case True
    show ?thesis
    proof (cases "i = q_head qu")
      case True
      then have "ring_pos ?qu i = q_capacity qu - 1" using r(1) by (auto simp: ring_pos_def f)
      then show ?thesis using True r(3) by (auto simp: f)
    next
      case False
      then have "ring_pos qu i = Suc (ring_pos ?qu i)" using \<open>i < q_capacity qu\<close> r(1) by (auto simp: ring_pos_def f)
      then show ?thesis using False r(4) [of i] by (simp add: f)
    qed
  qed
  show "ring_rep ?qu vs" using r(1,3) cells by (simp add: ring_rep_def f)
qed

lemma ring_drain: "ring_rep qu vs \<Longrightarrow> ring_rep (drain qu) []"
proof (induction vs arbitrary: qu)
  case Nil
  then show ?case by (subst drain.simps) (simp add: ring_repD(2))
next
  case (Cons v vs)
  then have "drain qu = drain (pop_front_storage qu)" by (subst drain.simps) (simp add: ring_repD(2))
  then show ?case using Cons.IH [OF ring_pop(1) [OF Cons.prems]] by simp
qed

lemma ring_fields [simp]:
  "q_capacity (store_back v qu) = q_capacity qu" "q_capacity (pop_front_storage qu) = q_capacity qu"
  "send_head (store_back v qu) = send_head qu" "send_head (pop_front_storage qu) = send_head qu"
  "send_tail (store_back v qu) = send_tail qu" "send_tail (pop_front_storage qu) = send_tail qu"
  "recv_head (store_back v qu) = recv_head qu" "recv_head (pop_front_storage qu) = recv_head qu"
  "recv_tail (store_back v qu) = recv_tail qu" "recv_tail (pop_front_storage qu) = recv_tail qu"
  by (simp_all add: store_back_def pop_front_storage_def Let_def)

text \<open>Only the ring fields matter.\<close>

lemma ring_rep_cong:
  assumes "q_capacity qu' = q_capacity qu" "q_cells qu' = q_cells qu" "q_head qu' = q_head qu" "q_count qu' = q_count qu"
  shows "ring_rep qu' vs = ring_rep qu vs"
  using assms by (simp add: ring_rep_def ring_pos_def)

lemma ring_rep_pointers [simp]:
  "ring_rep (qu\<lparr>send_head := h, send_tail := l\<rparr>) vs = ring_rep qu vs"
  "ring_rep (qu\<lparr>recv_head := h, recv_tail := l\<rparr>) vs = ring_rep qu vs"
  by (rule ring_rep_cong; simp)+

section \<open>Views and projections\<close>

definition sa_nexts :: "(nat \<Rightarrow> 'v send_awaiter) \<Rightarrow> nat \<Rightarrow> nat option" where
  "sa_nexts f a = sa_next (f a)"

definition ra_nexts :: "(nat \<Rightarrow> 'v receive_awaiter) \<Rightarrow> nat \<Rightarrow> nat option" where
  "ra_nexts f a = ra_next (f a)"

abbreviation "sa_next_of s \<equiv> sa_nexts (senders s)"
abbreviation "ra_next_of s \<equiv> ra_nexts (receivers s)"

lemma awaiter_views [simp]:
  "sa_next (senders s a) = sa_next_of s a" "ra_next (receivers s a) = ra_next_of s a"
  by (simp_all add: sa_nexts_def ra_nexts_def)

lemma awaiter_views_upd [simp]:
  "sa_nexts (f(a := x)) = (sa_nexts f)(a := sa_next x)" "ra_nexts (g(a := y)) = (ra_nexts g)(a := ra_next y)"
  by (simp_all add: fun_eq_iff sa_nexts_def ra_nexts_def)

lemma q_world_upd [simp]:
  "queues (upd_queue q f s) = (queues s)(q := f (queues s q))" "queues (upd_sender a g s) = queues s"
  "queues (upd_receiver a h s) = queues s"
  "senders (upd_queue q f s) = senders s" "senders (upd_sender a g s) = (senders s)(a := g (senders s a))"
  "senders (upd_receiver a h s) = senders s"
  "receivers (upd_queue q f s) = receivers s" "receivers (upd_sender a g s) = receivers s"
  "receivers (upd_receiver a h s) = (receivers s)(a := h (receivers s a))"
  by (simp_all add: upd_queue_def upd_sender_def upd_receiver_def)

text \<open>Everything below the queues: the scheduler, the events and the flags.\<close>

definition below_queues :: "('v, 'a) q_world_scheme \<Rightarrow> ('v, 'a) q_world_scheme \<Rightarrow> bool" where
  "below_queues s s' \<longleftrightarrow> slots s' = slots s \<and> max_tasks s' = max_tasks s \<and> ready_head s' = ready_head s \<and>
     ready_tail s' = ready_tail s \<and> ready_count s' = ready_count s \<and> active_count s' = active_count s \<and>
     peak_count s' = peak_count s \<and> current s' = current s \<and> in_poll s' = in_poll s \<and>
     shutting_down s' = shutting_down s \<and> now_us s' = now_us s \<and> nearest_deadline s' = nearest_deadline s \<and>
     hook_log s' = hook_log s \<and> tasks s' = tasks s \<and> fpool s' = fpool s \<and> events s' = events s \<and>
     flags s' = flags s \<and> armed_head s' = armed_head s \<and> pending s' = pending s \<and>
     wake_created s' = wake_created s \<and> wake_given s' = wake_given s \<and> q_world.more s' = q_world.more s"

lemma below_refl [simp]: "below_queues s s"
  by (simp add: below_queues_def)

lemma below_trans: "below_queues s s' \<Longrightarrow> below_queues s' s'' \<Longrightarrow> below_queues s s''"
  by (simp add: below_queues_def)

lemma below_upd [simp]:
  "below_queues s (upd_queue q f s') = below_queues s s'" "below_queues s (upd_sender a g s') = below_queues s s'"
  "below_queues s (upd_receiver a h s') = below_queues s s'"
  by (simp_all add: below_queues_def upd_queue_def upd_sender_def upd_receiver_def)

lemma belowD:
  assumes "below_queues s s'"
  shows "slots s' = slots s" "max_tasks s' = max_tasks s" "ready_list s' = ready_list s"
    "sched_inv s' = sched_inv s" "quiet s s'" "current s' = current s" "events s' = events s" "flags s' = flags s"
    "hook_log s' = hook_log s" "armed_head s' = armed_head s" "pending s' = pending s"
proof -
  have f: "slots s' = slots s" "max_tasks s' = max_tasks s" "ready_head s' = ready_head s"
     "ready_tail s' = ready_tail s" "ready_count s' = ready_count s" "active_count s' = active_count s"
     "peak_count s' = peak_count s" "current s' = current s" "in_poll s' = in_poll s"
     "shutting_down s' = shutting_down s" "now_us s' = now_us s" "nearest_deadline s' = nearest_deadline s"
     "hook_log s' = hook_log s"
    using assms by (simp_all add: below_queues_def)
  show "slots s' = slots s" "max_tasks s' = max_tasks s" "current s' = current s" "events s' = events s"
    "flags s' = flags s" "hook_log s' = hook_log s" "armed_head s' = armed_head s" "pending s' = pending s"
    using assms by (simp_all add: below_queues_def)
  show "ready_list s' = ready_list s" using f by (simp add: ready_list_def)
  show "sched_inv s' = sched_inv s" by (rule sched_inv_more) (simp_all add: f)
  show "quiet s s'" by (rule quiet_core) (simp_all add: f ready_list_def)
qed

text \<open>The scheduler does not touch the queues.\<close>

lemma queues_of_more:
  "sched.more s' = sched.more s \<Longrightarrow> queues s' = queues s"
  "sched.more s' = sched.more s \<Longrightarrow> senders s' = senders s"
  "sched.more s' = sched.more s \<Longrightarrow> receivers s' = receivers s"
  for s :: "('v, 'a) q_world_scheme"
  by (cases s; cases s'; simp)+

end
