(* ===== verification/Queue_Inv.thy ===== *)
theory Queue_Inv
  imports Queue_Spec
begin

text \<open>
  The invariant of the queues of a program (queue.h) and the abstract channel a queue
  implements: a bounded buffer, the senders that wait with their values and the receivers that
  wait, each in order. The intrusive lists of awaiters are instances of the FIFO interface.
\<close>

section \<open>The awaiter lists are FIFOs\<close>

interpretation sq: intrusive_queue sa_next_of "\<lambda>s. send_head (queues s q)" "\<lambda>s. send_tail (queues s q)"
    "send_enqueue q" "send_pop_front q" for q
  by unfold_locales
    (auto simp: send_enqueue_def send_pop_front_def Let_def split: option.split)

interpretation wr: intrusive_queue ra_next_of "\<lambda>s. recv_head (queues s q)" "\<lambda>s. recv_tail (queues s q)"
    "recv_enqueue q" "recv_pop_front q" for q
  by unfold_locales
    (auto simp: recv_enqueue_def recv_pop_front_def Let_def split: option.split)

section \<open>The invariant\<close>

text \<open>A parked awaiter is a sender (left) or a receiver (right).\<close>

definition q_linked :: "('v, 'a) q_world_scheme \<Rightarrow> nat + nat \<Rightarrow> bool" where
  "q_linked s x = (case x of Inl a \<Rightarrow> sa_linked (senders s a) | Inr r \<Rightarrow> ra_linked (receivers s r))"

definition q_slot :: "('v, 'a) q_world_scheme \<Rightarrow> nat + nat \<Rightarrow> nat option" where
  "q_slot s x = (case x of Inl a \<Rightarrow> sa_slot (senders s a) | Inr r \<Rightarrow> ra_slot (receivers s r))"

lemma q_linked_simps [simp]:
  "q_linked s (Inl a) = sa_linked (senders s a)" "q_linked s (Inr r) = ra_linked (receivers s r)"
  "q_slot s (Inl a) = sa_slot (senders s a)" "q_slot s (Inr r) = ra_slot (receivers s r)"
  by (simp_all add: q_linked_def q_slot_def)

text \<open>Each parked awaiter belongs to a parked task, and no task to two awaiters.\<close>

definition parked_ok :: "('v, 'a) q_world_scheme \<Rightarrow> bool" where
  "parked_ok s \<longleftrightarrow>
     (\<forall>x. q_linked s x \<longrightarrow> (\<exists>i. q_slot s x = Some i \<and> i < max_tasks s \<and> st_of s i = Waiting_local)) \<and>
     (\<forall>x y. q_linked s x \<and> q_linked s y \<and> q_slot s x = q_slot s y \<longrightarrow> x = y)"

lemma parked_okD:
  assumes "parked_ok s" "q_linked s x"
  shows "\<exists>i. q_slot s x = Some i \<and> i < max_tasks s \<and> st_of s i = Waiting_local"
    "q_linked s y \<Longrightarrow> q_slot s x = q_slot s y \<Longrightarrow> x = y"
  using assms unfolding parked_ok_def by blast+

lemma parked_okI:
  assumes "\<And>x. q_linked s x \<Longrightarrow> \<exists>i. q_slot s x = Some i \<and> i < max_tasks s \<and> st_of s i = Waiting_local"
    and "\<And>x y. q_linked s x \<Longrightarrow> q_linked s y \<Longrightarrow> q_slot s x = q_slot s y \<Longrightarrow> x = y"
  shows "parked_ok s"
  using assms unfolding parked_ok_def by blast

text \<open>The result flag tells whether the result storage holds an object; a parked receiver has none.\<close>

definition results_ok :: "('v, 'a) q_world_scheme \<Rightarrow> bool" where
  "results_ok s \<longleftrightarrow> (\<forall>r. ra_has_result (receivers s r) = (ra_storage (receivers s r) \<noteq> None) \<and>
     (ra_linked (receivers s r) \<longrightarrow> \<not> ra_has_result (receivers s r)))"

definition send_list :: "nat \<Rightarrow> ('v, 'a) q_world_scheme \<Rightarrow> nat list" where
  "send_list q s = walk (max_tasks s) (sa_next_of s) (send_head (queues s q))"

definition recv_list :: "nat \<Rightarrow> ('v, 'a) q_world_scheme \<Rightarrow> nat list" where
  "recv_list q s = walk (max_tasks s) (ra_next_of s) (recv_head (queues s q))"

text \<open>One queue with buffer \<open>vs\<close>, parked senders \<open>as\<close> and parked receivers \<open>rs\<close>.\<close>

definition queue_rep ::
    "nat \<Rightarrow> ('v, 'a) q_world_scheme \<Rightarrow> 'v list \<Rightarrow> nat list \<Rightarrow> nat list \<Rightarrow> bool" where
  "queue_rep q s vs as rs \<longleftrightarrow> ring_rep (queues s q) vs \<and>
     fifo (sa_next_of s) (send_head (queues s q)) (send_tail (queues s q)) as \<and>
     fifo (ra_next_of s) (recv_head (queues s q)) (recv_tail (queues s q)) rs \<and>
     (\<forall>a. a \<in> set as \<longleftrightarrow> sa_linked (senders s a) \<and> sa_queue (senders s a) = q) \<and>
     (\<forall>r. r \<in> set rs \<longleftrightarrow> ra_linked (receivers s r) \<and> ra_queue (receivers s r) = q) \<and>
     (as \<noteq> [] \<longrightarrow> length vs = q_capacity (queues s q)) \<and> (rs \<noteq> [] \<longrightarrow> vs = [])"

definition queues_ok :: "('v, 'a) q_world_scheme \<Rightarrow> bool" where
  "queues_ok s \<longleftrightarrow> parked_ok s \<and> results_ok s \<and>
     (\<forall>q. queue_rep q s (contents (queues s q)) (send_list q s) (recv_list q s))"

lemma queue_repD:
  assumes "queue_rep q s vs as rs"
  shows "ring_rep (queues s q) vs"
    "fifo (sa_next_of s) (send_head (queues s q)) (send_tail (queues s q)) as"
    "fifo (ra_next_of s) (recv_head (queues s q)) (recv_tail (queues s q)) rs"
    "a \<in> set as \<longleftrightarrow> sa_linked (senders s a) \<and> sa_queue (senders s a) = q"
    "r \<in> set rs \<longleftrightarrow> ra_linked (receivers s r) \<and> ra_queue (receivers s r) = q"
    "as \<noteq> [] \<Longrightarrow> length vs = q_capacity (queues s q)" "rs \<noteq> [] \<Longrightarrow> vs = []"
    "distinct as" "distinct rs"
  using assms by (auto simp: queue_rep_def fifo_distinct)

text \<open>The awaiters of a list are fewer than the slots.\<close>

lemma parked_few:
  assumes "parked_ok s" "distinct xs" "\<And>x. x \<in> set xs \<Longrightarrow> q_linked s x"
  shows "length xs \<le> max_tasks s"
proof -
  let ?f = "\<lambda>x. the (q_slot s x)"
  have "inj_on ?f (set xs)"
  proof (rule inj_onI)
    fix x y assume xy: "x \<in> set xs" "y \<in> set xs" "the (q_slot s x) = the (q_slot s y)"
    then have "q_slot s x = q_slot s y"
      using parked_okD(1) [OF assms(1) assms(3)] by (metis option.sel)
    then show "x = y" using parked_okD(2) [OF assms(1)] assms(3) xy by blast
  qed
  moreover have "?f ` set xs \<subseteq> {..<max_tasks s}"
    using parked_okD(1) [OF assms(1) assms(3)] by fastforce
  ultimately have "card (set xs) \<le> max_tasks s"
    using card_inj_on_le [of ?f "set xs" "{..<max_tasks s}"] by simp
  then show ?thesis using assms(2) by (simp add: distinct_card)
qed

lemma queue_rep_lists:
  assumes "parked_ok s" "queue_rep q s vs as rs"
  shows "contents (queues s q) = vs" "send_list q s = as" "recv_list q s = rs"
proof -
  note r = queue_repD [OF assms(2)]
  show "contents (queues s q) = vs" by (rule ring_rep_contents [OF r(1)])
  have "length (map Inl as :: (nat + nat) list) \<le> max_tasks s"
    by (rule parked_few [OF assms(1)]) (use r(4,8) in \<open>auto simp: distinct_map\<close>)
  then show "send_list q s = as" using walk_long [of "sa_next_of s" _ as] r(2) by (simp add: fifo_def send_list_def)
  have "length (map Inr rs :: (nat + nat) list) \<le> max_tasks s"
    by (rule parked_few [OF assms(1)]) (use r(5,9) in \<open>auto simp: distinct_map\<close>)
  then show "recv_list q s = rs" using walk_long [of "ra_next_of s" _ rs] r(3) by (simp add: fifo_def recv_list_def)
qed

lemma queues_okI:
  assumes "parked_ok s" "results_ok s" and "\<And>q. queue_rep q s (vs q) (as q) (rs q)"
  shows "queues_ok s" "contents (queues s q) = vs q" "send_list q s = as q" "recv_list q s = rs q"
  using assms queue_rep_lists [OF assms(1,3)] by (simp_all add: queues_ok_def)

lemma queues_okD:
  assumes "queues_ok s"
  shows "parked_ok s" "results_ok s" "queue_rep q s (contents (queues s q)) (send_list q s) (recv_list q s)"
  using assms by (simp_all add: queues_ok_def)

lemma results_okD:
  assumes "results_ok s"
  shows "ra_has_result (receivers s r) = (ra_storage (receivers s r) \<noteq> None)"
    "ra_linked (receivers s r) \<Longrightarrow> \<not> ra_has_result (receivers s r)"
  using assms unfolding results_ok_def by blast+

text \<open>The slots of the tasks parked on queues.\<close>

definition queue_parked :: "('v, 'a) q_world_scheme \<Rightarrow> nat set" where
  "queue_parked s = {i. \<exists>x. q_linked s x \<and> q_slot s x = Some i}"

text \<open>Steps elsewhere keep the queues when the tasks parked on them stay parked.\<close>

lemma queues_ok_keep:
  assumes ok: "queues_ok s" and eq: "queues s' = queues s" "senders s' = senders s" "receivers s' = receivers s"
    and m: "max_tasks s' = max_tasks s"
    and st: "\<And>i. i \<in> queue_parked s \<Longrightarrow> st_of s i = Waiting_local \<Longrightarrow> st_of s' i = Waiting_local"
  shows "queues_ok s'" "send_list q s' = send_list q s" "recv_list q s' = recv_list q s"
    "queue_parked s' = queue_parked s"
proof -
  have l: "q_linked s' = q_linked s" "q_slot s' = q_slot s"
    by (simp_all add: fun_eq_iff q_linked_def q_slot_def eq split: sum.split)
  show "send_list q s' = send_list q s" "recv_list q s' = recv_list q s"
    by (simp_all add: send_list_def recv_list_def eq m)
  show "queue_parked s' = queue_parked s" by (simp add: queue_parked_def l)
  have p: "parked_ok s'"
  proof (rule parked_okI)
    fix x assume x: "q_linked s' x"
    then obtain i where "q_slot s x = Some i" "i < max_tasks s" "st_of s i = Waiting_local"
      using parked_okD(1) [OF queues_okD(1) [OF ok], of x] by (auto simp: l)
    moreover from this x have "i \<in> queue_parked s" by (auto simp: queue_parked_def l)
    ultimately show "\<exists>i. q_slot s' x = Some i \<and> i < max_tasks s' \<and> st_of s' i = Waiting_local"
      using st by (auto simp: l m)
  qed (use parked_okD(2) [OF queues_okD(1) [OF ok]] in \<open>simp add: l\<close>)
  have r: "results_ok s'" using queues_okD(2) [OF ok] unfolding results_ok_def eq .
  have "queue_rep d s' (contents (queues s d)) (send_list d s) (recv_list d s)" for d
    using queues_okD(3) [OF ok, of d] by (simp add: queue_rep_def eq)
  from queues_okI(1) [OF p r this] show "queues_ok s'" .
qed

section \<open>The abstract channel\<close>

text \<open>\<open>ch_senders\<close> holds the waiting awaiters with the values they carry.\<close>

record 'v chan =
  ch_capacity :: nat
  ch_buffer :: "'v list"
  ch_senders :: "(nat \<times> 'v) list"
  ch_receivers :: "nat list"

definition chan_of :: "nat \<Rightarrow> ('v, 'a) q_world_scheme \<Rightarrow> 'v chan" where
  "chan_of q s = \<lparr>ch_capacity = q_capacity (queues s q), ch_buffer = contents (queues s q),
     ch_senders = map (\<lambda>a. (a, sa_value (senders s a))) (send_list q s), ch_receivers = recv_list q s\<rparr>"

datatype delivery = Handed nat | Buffered | Full

definition chan_send :: "'v \<Rightarrow> 'v chan \<Rightarrow> delivery \<times> 'v chan" where
  "chan_send v c =
     (case ch_receivers c of
        r # rs \<Rightarrow> (Handed r, c\<lparr>ch_receivers := rs\<rparr>)
      | [] \<Rightarrow> if length (ch_buffer c) < ch_capacity c then (Buffered, c\<lparr>ch_buffer := ch_buffer c @ [v]\<rparr>)
              else (Full, c))"

definition chan_receive :: "'v chan \<Rightarrow> 'v option \<times> 'v chan" where
  "chan_receive c =
     (case ch_buffer c of
        [] \<Rightarrow> (None, c)
      | v # vs \<Rightarrow>
          (case ch_senders c of
             [] \<Rightarrow> (Some v, c\<lparr>ch_buffer := vs\<rparr>)
           | (a, w) # as \<Rightarrow> (Some v, c\<lparr>ch_buffer := vs @ [w], ch_senders := as\<rparr>)))"

text \<open>The order in which accepted values will leave the channel.\<close>

definition in_flight :: "'v chan \<Rightarrow> 'v list" where
  "in_flight c = ch_buffer c @ map snd (ch_senders c)"

lemma chan_receive_order:
  "(case fst (chan_receive c) of None \<Rightarrow> [] | Some v \<Rightarrow> [v]) @ in_flight (snd (chan_receive c)) = in_flight c"
  by (auto simp: chan_receive_def in_flight_def split: list.split)

end
