(* ===== verification/Queue_Ops.thy ===== *)
theory Queue_Ops
  imports Queue_Inv
begin

text \<open>
  The operations of \<open>Queue\<close> (queue.h) keep the invariant and do to the abstract channel what
  the specification says: sending, receiving, parking and leaving the lists.
\<close>

section \<open>What an operation on queues leaves alone\<close>

definition q_outside :: "('v, 'a) q_world_scheme \<Rightarrow> ('v, 'a) q_world_scheme \<Rightarrow> bool" where
  "q_outside s s' \<longleftrightarrow> events s' = events s \<and> flags s' = flags s \<and> armed_head s' = armed_head s \<and>
     pending s' = pending s \<and> wake_created s' = wake_created s \<and> wake_given s' = wake_given s \<and>
     q_world.more s' = q_world.more s"

lemma q_outside_refl [simp]: "q_outside s s"
  by (simp add: q_outside_def)

lemma q_outside_trans: "q_outside s s' \<Longrightarrow> q_outside s' s'' \<Longrightarrow> q_outside s s''"
  by (simp add: q_outside_def)

lemma below_outside: "below_queues s s' \<Longrightarrow> q_outside s s'"
  by (simp add: below_queues_def q_outside_def)

lemma more_outside: "sched.more s' = sched.more s \<Longrightarrow> q_outside s s'"
  for s :: "('v, 'a) q_world_scheme"
  by (cases s; cases s'; simp add: q_outside_def)

lemma below_locals: "below_queues s s' \<Longrightarrow> locals_kept P s s'"
  by (simp add: locals_kept_def belowD)

text \<open>The common part of the contracts: the invariants, and the rest of the world.\<close>

definition q_step :: "('v, 'a) q_world_scheme \<Rightarrow> ('v, 'a) q_world_scheme \<Rightarrow> bool" where
  "q_step s s' \<longleftrightarrow> sched_inv s' \<and> queues_ok s' \<and> q_outside s s' \<and> locals_kept (queue_parked s) s s'"

section \<open>Waking the task of an awaiter that left its list\<close>

text \<open>
  \<open>t\<close> is the state after the pointers were changed: the awaiter \<open>x\<close> is no longer linked.
\<close>

lemma unlink_parked:
  assumes ok: "parked_ok s" and x: "q_linked s x" "q_slot s x = Some i"
    and below: "slots t = slots s" "max_tasks t = max_tasks s"
    and l: "q_linked t = (q_linked s)(x := False)" and sl: "\<And>y. q_linked t y \<Longrightarrow> q_slot t y = q_slot s y"
  shows "parked_ok t" "i \<notin> queue_parked t" "queue_parked t = queue_parked s - {i}"
    "i < max_tasks t" "st_of t i = Waiting_local"
proof -
  have lk: "q_linked t y \<Longrightarrow> q_linked s y \<and> y \<noteq> x" for y by (simp add: l split: if_splits)
  show "parked_ok t"
  proof (rule parked_okI)
    fix y assume y: "q_linked t y"
    show "\<exists>i. q_slot t y = Some i \<and> i < max_tasks t \<and> st_of t i = Waiting_local"
      using parked_okD(1) [OF ok, of y] lk [OF y] sl [OF y] below by simp
    fix z assume "q_linked t z" "q_slot t y = q_slot t z"
    then show "y = z" using parked_okD(2) [OF ok, of y z] lk [OF y] lk [of z] sl y by simp
  qed
  have other: "q_slot t y \<noteq> Some i" if "q_linked t y" for y
    using parked_okD(2) [OF ok x(1), of y] lk [OF that] sl [OF that] x(2) by auto
  then show n: "i \<notin> queue_parked t" by (auto simp: queue_parked_def)
  have "j \<in> queue_parked t \<longleftrightarrow> j \<in> queue_parked s \<and> j \<noteq> i" for j
  proof
    assume "j \<in> queue_parked t"
    then obtain y where y: "q_linked t y" "q_slot t y = Some j" by (auto simp: queue_parked_def)
    then have "q_linked s y" "q_slot s y = Some j" using lk sl by auto
    then show "j \<in> queue_parked s \<and> j \<noteq> i" using other [OF y(1)] y(2) by (auto simp: queue_parked_def)
  next
    assume j: "j \<in> queue_parked s \<and> j \<noteq> i"
    then obtain y where y: "q_linked s y" "q_slot s y = Some j" by (auto simp: queue_parked_def)
    then have "q_linked t y" using j x(2) by (auto simp: l)
    then show "j \<in> queue_parked t" using y(2) sl by (auto simp: queue_parked_def)
  qed
  then show "queue_parked t = queue_parked s - {i}" by blast
  show "i < max_tasks t" "st_of t i = Waiting_local" using parked_okD(1) [OF ok x(1)] x(2) below by auto
qed

text \<open>From the changed pointers to the state in which the task is ready.\<close>

lemma wake_queue_step:
  assumes inv: "sched_inv s" and below: "below_queues s t"
    and ok: "queues_ok t" and i: "i \<notin> queue_parked t" "i \<in> queue_parked s" "i < max_tasks t" "st_of t i = Waiting_local"
  shows "q_step s (make_ready i t)" "quiet s (make_ready i t)" "ready_list (make_ready i t) = ready_list s @ [i]"
    "chan_of d (make_ready i t) = chan_of d t" "wake_slot (Some i) t = make_ready i t"
    "queue_parked (make_ready i t) = queue_parked t" "receivers (make_ready i t) = receivers t"
    "senders (make_ready i t) = senders t" "st_of (make_ready i t) = (st_of s)(i := Ready)"
proof -
  note b = belowD [OF below]
  have invt: "sched_inv t" using inv b by simp
  note w = wake_slot_inv [OF invt i(3,4)]
  show e: "wake_slot (Some i) t = make_ready i t" by (rule w(4))
  have m: "queues (make_ready i t) = queues t" "senders (make_ready i t) = senders t"
    "receivers (make_ready i t) = receivers t"
    by (rule queues_of_more; simp)+
  note k = queues_ok_keep [OF ok m make_ready_fields(1)]
  have st: "st_of (make_ready i t) j = Waiting_local" if "j \<in> queue_parked t" "st_of t j = Waiting_local" for j
    using that i(1) by auto
  show "queue_parked (make_ready i t) = queue_parked t" "receivers (make_ready i t) = receivers t"
    "senders (make_ready i t) = senders t"
    using k(4) [OF st] m by simp_all
  show "chan_of d (make_ready i t) = chan_of d t" using k(2,3) [OF st] m by (simp add: chan_of_def)
  have "q_outside t (make_ready i t)" by (rule more_outside) simp
  then have "q_outside s (make_ready i t)" by (rule q_outside_trans [OF below_outside [OF below]])
  moreover have "locals_kept (queue_parked s) s (make_ready i t)"
    by (rule locals_kept_trans [OF below_locals [OF below] make_ready_locals [OF invt i(2)]])
  ultimately show "q_step s (make_ready i t)" using k(1) [OF st] w(1) e by (simp add: q_step_def)
  show "quiet s (make_ready i t)" using quiet_trans [OF b(5) w(2)] e by simp
  show "ready_list (make_ready i t) = ready_list s @ [i]" using w(3) e b(3) by simp
  show "st_of (make_ready i t) = (st_of s)(i := Ready)" using b(1) by simp
qed

section \<open>Changing one queue\<close>

text \<open>
  A step on queue \<open>q\<close> may change its own fields, the links of its own awaiters and which
  awaiters are its members; then the other queues represent what they represented before.
\<close>

lemma queues_ok_change:
  assumes ok: "queues_ok s" and p: "parked_ok t" and r: "results_ok t" and rep: "queue_rep q t vs as rs"
    and others: "\<And>d. d \<noteq> q \<Longrightarrow> queues t d = queues s d"
    and sn: "\<And>a. a \<notin> set (send_list q s) \<Longrightarrow> a \<notin> set as \<Longrightarrow> sa_next_of t a = sa_next_of s a"
    and rn: "\<And>a. a \<notin> set (recv_list q s) \<Longrightarrow> a \<notin> set rs \<Longrightarrow> ra_next_of t a = ra_next_of s a"
    and sl: "\<And>a d. d \<noteq> q \<Longrightarrow> (sa_linked (senders t a) \<and> sa_queue (senders t a) = d) =
        (sa_linked (senders s a) \<and> sa_queue (senders s a) = d)"
    and rl: "\<And>a d. d \<noteq> q \<Longrightarrow> (ra_linked (receivers t a) \<and> ra_queue (receivers t a) = d) =
        (ra_linked (receivers s a) \<and> ra_queue (receivers s a) = d)"
    and val: "\<And>a. sa_linked (senders s a) \<Longrightarrow> sa_value (senders t a) = sa_value (senders s a)"
  shows "queues_ok t"
    "chan_of q t = \<lparr>ch_capacity = q_capacity (queues t q), ch_buffer = vs,
       ch_senders = map (\<lambda>a. (a, sa_value (senders t a))) as, ch_receivers = rs\<rparr>"
    "d \<noteq> q \<Longrightarrow> chan_of d t = chan_of d s"
proof -
  have rep': "queue_rep d t (if d = q then vs else contents (queues s d)) (if d = q then as else send_list d s)
      (if d = q then rs else recv_list d s)" for d
  proof (cases "d = q")
    case False
    note D = queue_repD [OF queues_okD(3) [OF ok, of d]]
    have a: "sa_next_of t a = sa_next_of s a" if "a \<in> set (send_list d s)" for a
    proof (rule sn)
      show "a \<notin> set (send_list q s)"
        using that D(4) [of a] queue_repD(4) [OF queues_okD(3) [OF ok, of q], of a] False by simp
      show "a \<notin> set as" using sl [OF False, of a] that D(4) [of a] queue_repD(4) [OF rep, of a] False by auto
    qed
    have b: "ra_next_of t a = ra_next_of s a" if "a \<in> set (recv_list d s)" for a
    proof (rule rn)
      show "a \<notin> set (recv_list q s)"
        using that D(5) [of a] queue_repD(5) [OF queues_okD(3) [OF ok, of q], of a] False by simp
      show "a \<notin> set rs" using rl [OF False, of a] that D(5) [of a] queue_repD(5) [OF rep, of a] False by auto
    qed
    have f: "fifo (sa_next_of t) h e (send_list d s) = fifo (sa_next_of s) h e (send_list d s)"
      "fifo (ra_next_of t) h e (recv_list d s) = fifo (ra_next_of s) h e (recv_list d s)" for h e
      by (rule fifo_cong, erule a, rule fifo_cong, erule b)
    have "queue_rep d t (contents (queues s d)) (send_list d s) (recv_list d s)"
      unfolding queue_rep_def others [OF False] sl [OF False] rl [OF False] f
      using D(1-7) by blast
    then show ?thesis using False by simp
  qed (use rep in simp)
  note q = queues_okI [where vs = "\<lambda>d. if d = q then vs else contents (queues s d)"
      and as = "\<lambda>d. if d = q then as else send_list d s" and rs = "\<lambda>d. if d = q then rs else recv_list d s",
      OF p r rep']
  show "queues_ok t" by (rule q(1))
  show "chan_of q t = \<lparr>ch_capacity = q_capacity (queues t q), ch_buffer = vs,
       ch_senders = map (\<lambda>a. (a, sa_value (senders t a))) as, ch_receivers = rs\<rparr>"
    using q(2-4) [of q] by (simp add: chan_of_def)
  assume d: "d \<noteq> q"
  have "sa_value (senders t a) = sa_value (senders s a)" if "a \<in> set (send_list d s)" for a
    by (rule val) (use that queue_repD(4) [OF queues_okD(3) [OF ok, of d], of a] in simp)
  then show "chan_of d t = chan_of d s" using d q(2-4) [of d] others [OF d] by (simp add: chan_of_def)
qed

section \<open>Sending\<close>

lemma recv_pop:
  assumes f: "fifo (ra_next_of s) (recv_head (queues s q)) (recv_tail (queues s q)) (r # rs)"
  obtains h t s1 where "recv_pop_front q s = (Some r, s1)" "below_queues s s1" "senders s1 = senders s"
    "receivers s1 = (receivers s)(r := (receivers s r)\<lparr>ra_next := None, ra_linked := False\<rparr>)"
    "queues s1 = (queues s)(q := (queues s q)\<lparr>recv_head := h, recv_tail := t\<rparr>)"
    "fifo (ra_next_of s1) h t rs" "ra_next_of s1 = (ra_next_of s)(r := None)"
proof -
  from f have h: "recv_head (queues s q) = Some r" by (simp add: fifo_def)
  let ?s1 = "snd (recv_pop_front q s)"
  let ?h = "ra_next_of s r" and ?t = "if ra_next_of s r = None then None else recv_tail (queues s q)"
  have d: "recv_pop_front q s = (Some r, ?s1)" by (simp add: recv_pop_front_def h Let_def)
  have qs: "queues ?s1 = (queues s)(q := (queues s q)\<lparr>recv_head := ?h, recv_tail := ?t\<rparr>)"
    by (simp add: recv_pop_front_def h Let_def fun_eq_iff)
  have n: "ra_next_of ?s1 = (ra_next_of s)(r := None)" by (simp add: recv_pop_front_def h Let_def)
  have "fifo (ra_next_of ?s1) ?h ?t rs" using wr.pop_fifo(2) [OF f] by (simp add: qs)
  then show thesis
    by (intro that [OF d _ _ _ qs _ n]) (simp_all add: recv_pop_front_def h Let_def)
qed

lemma send_pop:
  assumes f: "fifo (sa_next_of s) (send_head (queues s q)) (send_tail (queues s q)) (a # as)"
  obtains h t s1 where "send_pop_front q s = (Some a, s1)" "below_queues s s1" "receivers s1 = receivers s"
    "senders s1 = (senders s)(a := (senders s a)\<lparr>sa_next := None, sa_linked := False\<rparr>)"
    "queues s1 = (queues s)(q := (queues s q)\<lparr>send_head := h, send_tail := t\<rparr>)"
    "fifo (sa_next_of s1) h t as" "sa_next_of s1 = (sa_next_of s)(a := None)"
proof -
  from f have h: "send_head (queues s q) = Some a" by (simp add: fifo_def)
  let ?s1 = "snd (send_pop_front q s)"
  let ?h = "sa_next_of s a" and ?t = "if sa_next_of s a = None then None else send_tail (queues s q)"
  have d: "send_pop_front q s = (Some a, ?s1)" by (simp add: send_pop_front_def h Let_def)
  have qs: "queues ?s1 = (queues s)(q := (queues s q)\<lparr>send_head := ?h, send_tail := ?t\<rparr>)"
    by (simp add: send_pop_front_def h Let_def fun_eq_iff)
  have n: "sa_next_of ?s1 = (sa_next_of s)(a := None)" by (simp add: send_pop_front_def h Let_def)
  have "fifo (sa_next_of ?s1) ?h ?t as" using sq.pop_fifo(2) [OF f] by (simp add: qs)
  then show thesis
    by (intro that [OF d _ _ _ qs _ n]) (simp_all add: send_pop_front_def h Let_def)
qed


text \<open>Hand-off: the oldest waiting receiver gets the value in its own storage.\<close>

lemma do_send_handoff:
  assumes inv: "sched_inv s" and ok: "queues_ok s" and rl: "recv_list q s = r # rs"
  obtains i s' where "do_send q v s = (True, s')" "q_step s s'" "quiet s s'" "ready_list s' = ready_list s @ [i]"
    "ra_slot (receivers s r) = Some i" "queue_parked s' = queue_parked s - {i}" "i \<in> queue_parked s"
    "chan_of q s' = (chan_of q s)\<lparr>ch_receivers := rs\<rparr>" "\<forall>d. d \<noteq> q \<longrightarrow> chan_of d s' = chan_of d s"
    "receivers s' = (receivers s)(r := (receivers s r)\<lparr>ra_next := None, ra_linked := False,
       ra_storage := Some v, ra_has_result := True\<rparr>)"
    "senders s' = senders s" "st_of s' = (st_of s)(i := Ready)"
proof -
  note D = queues_okD(3) [OF ok, of q, unfolded rl]
  have r: "ra_linked (receivers s r)" "ra_queue (receivers s r) = q" using queue_repD(5) [OF D, of r] by simp_all
  obtain h tl s1 where pop: "recv_pop_front q s = (Some r, s1)" "below_queues s s1" "senders s1 = senders s"
    "receivers s1 = (receivers s)(r := (receivers s r)\<lparr>ra_next := None, ra_linked := False\<rparr>)"
    "queues s1 = (queues s)(q := (queues s q)\<lparr>recv_head := h, recv_tail := tl\<rparr>)"
    "fifo (ra_next_of s1) h tl rs" "ra_next_of s1 = (ra_next_of s)(r := None)"
    by (rule recv_pop [OF queue_repD(3) [OF D]])
  let ?t = "construct_result r v s1"
  have rt: "receivers ?t = (receivers s)(r := (receivers s r)\<lparr>ra_next := None, ra_linked := False,
       ra_storage := Some v, ra_has_result := True\<rparr>)" "senders ?t = senders s" "queues ?t = queues s1"
    "below_queues s ?t" "ra_next_of ?t = (ra_next_of s)(r := None)"
    using pop(2,3,7) by (simp_all add: construct_result_def Let_def pop(4) fun_eq_iff)
  obtain i where i: "ra_slot (receivers s r) = Some i"
    using parked_okD(1) [OF queues_okD(1) [OF ok], of "Inr r"] r(1) by auto
  have lk: "q_linked ?t = (q_linked s)(Inr r := False)"
    by (simp add: fun_eq_iff q_linked_def rt split: sum.split)
  have sl: "q_slot ?t y = q_slot s y" for y by (simp add: q_slot_def rt split: sum.split)
  note u = unlink_parked [where x = "Inr r", OF queues_okD(1) [OF ok] _ _ belowD(1,2) [OF rt(4)] lk sl, simplified, OF r(1) i]
  have res: "results_ok ?t" using queues_okD(2) [OF ok] by (auto simp: results_ok_def rt)
  have rep: "queue_rep q ?t (contents (queues s q)) (send_list q s) rs"
  proof -
    have "ring_rep (queues ?t q) (contents (queues s q))"
      using queue_repD(1) [OF D] by (subst ring_rep_cong [of _ "queues s q"]) (simp_all add: rt pop)
    moreover have "fifo (ra_next_of ?t) (recv_head (queues ?t q)) (recv_tail (queues ?t q)) rs"
      using pop(5-7) by (simp add: rt)
    moreover have "a \<in> set rs \<longleftrightarrow> ra_linked (receivers ?t a) \<and> ra_queue (receivers ?t a) = q" for a
      using queue_repD(5) [OF D, of a] queue_repD(9) [OF D] by (auto simp: rt)
    ultimately show ?thesis
      using queue_repD(2,4,6,7) [OF D] by (simp add: queue_rep_def rt(2,3) pop(5))
  qed
  note c = queues_ok_change [OF ok u(1) res rep]
  have ch: "queues_ok ?t" "chan_of q ?t = (chan_of q s)\<lparr>ch_receivers := rs\<rparr>" "\<And>d. d \<noteq> q \<Longrightarrow> chan_of d ?t = chan_of d s"
    by (use c r(2) rl in \<open>auto simp: rt(1,2,3,5) pop(5) chan_of_def\<close>)
  have ip: "i \<in> queue_parked s" using r(1) i by (auto simp: queue_parked_def intro!: exI [of _ "Inr r"])
  note w = wake_queue_step [OF inv rt(4) ch(1) u(2) ip u(4,5)]
  have "do_send q v s = (True, make_ready i ?t)"
    using w(5) i by (simp add: do_send_def pop(1) rt(1) Let_def)
  then show thesis
    by (rule that [OF _ w(1-3) i]) (use w ch u(3) ip rt in simp_all)
qed

text \<open>Buffering: the value is constructed in the raw cell behind the others.\<close>

lemma do_send_buffer:
  assumes inv: "sched_inv s" and ok: "queues_ok s" and rl: "recv_list q s = []"
    and room: "length (contents (queues s q)) < q_capacity (queues s q)"
  shows "do_send q v s = (True, upd_queue q (store_back v) s)" "q_step s (upd_queue q (store_back v) s)"
    "q_cells (queues s q) (tail_index (queues s q)) = None"
    "queue_parked (upd_queue q (store_back v) s) = queue_parked s"
    "chan_of q (upd_queue q (store_back v) s) = (chan_of q s)\<lparr>ch_buffer := contents (queues s q) @ [v]\<rparr>"
    "d \<noteq> q \<Longrightarrow> chan_of d (upd_queue q (store_back v) s) = chan_of d s"
proof -
  let ?t = "upd_queue q (store_back v) s"
  note D = queue_repD [OF queues_okD(3) [OF ok, of q]]
  have h: "recv_head (queues s q) = None" using D(3) rl by (simp add: fifo_def)
  have sl: "send_list q s = []" using D(6) room by fastforce
  show "do_send q v s = (True, ?t)"
    using room ring_repD(2) [OF D(1)] by (simp add: do_send_def recv_pop_front_def h)
  have b: "below_queues s ?t" by simp
  note st = ring_store [OF D(1) room]
  show "q_cells (queues s q) (tail_index (queues s q)) = None" by (rule st(2))
  have lk: "q_linked ?t = q_linked s" "q_slot ?t = q_slot s"
    by (simp_all add: fun_eq_iff q_linked_def q_slot_def split: sum.split)
  have p: "parked_ok ?t" using queues_okD(1) [OF ok] belowD(1,2) [OF b] by (simp add: parked_ok_def lk)
  have r: "results_ok ?t" using queues_okD(2) [OF ok] unfolding results_ok_def q_world_upd .
  have rep: "queue_rep q ?t (contents (queues s q) @ [v]) [] []"
    unfolding queue_rep_def using st(1) D(2-5) sl rl by simp
  note c = queues_ok_change [OF ok p r rep]
  have ok': "queues_ok ?t" by (rule c(1)) simp_all
  show "chan_of q ?t = (chan_of q s)\<lparr>ch_buffer := contents (queues s q) @ [v]\<rparr>"
    by (subst c(2)) (simp_all add: chan_of_def sl rl)
  show "d \<noteq> q \<Longrightarrow> chan_of d ?t = chan_of d s" by (rule c(3)) simp_all
  show "queue_parked ?t = queue_parked s" by (simp add: queue_parked_def lk)
  show "q_step s ?t"
    using inv ok' below_outside [OF b] below_locals [OF b] belowD(4) [OF b] by (simp add: q_step_def)
qed

lemma do_send_full:
  assumes ok: "queues_ok s" and rl: "recv_list q s = []"
    and full: "\<not> length (contents (queues s q)) < q_capacity (queues s q)"
  shows "do_send q v s = (False, s)"
proof -
  note D = queue_repD [OF queues_okD(3) [OF ok, of q]]
  have "recv_head (queues s q) = None" using D(3) rl by (simp add: fifo_def)
  then show ?thesis using full ring_repD(2) [OF D(1)] by (simp add: do_send_def recv_pop_front_def)
qed

section \<open>Receiving\<close>

text \<open>
  Taking the oldest payload, and moving the oldest waiting sender's value to the tail:
  common to \<open>tryReceive\<close> and \<open>receive\<close>.
\<close>

lemma pop_admit_none:
  assumes inv: "sched_inv s" and ok: "queues_ok s" and vs: "contents (queues s q) = v # vs"
    and sl: "send_list q s = []"
  shows "admit_oldest_sender q (upd_queue q pop_front_storage s) = upd_queue q pop_front_storage s"
    "q_step s (upd_queue q pop_front_storage s)"
    "queue_parked (upd_queue q pop_front_storage s) = queue_parked s"
    "chan_of q (upd_queue q pop_front_storage s) = (chan_of q s)\<lparr>ch_buffer := vs\<rparr>"
    "d \<noteq> q \<Longrightarrow> chan_of d (upd_queue q pop_front_storage s) = chan_of d s"
proof -
  let ?t = "upd_queue q pop_front_storage s"
  note D = queue_repD [OF queues_okD(3) [OF ok, of q], unfolded vs]
  have h: "send_head (queues s q) = None" using D(2) sl by (simp add: fifo_def)
  have rl: "recv_list q s = []" using D(7) by fastforce
  show "admit_oldest_sender q ?t = ?t" by (simp add: admit_oldest_sender_def send_pop_front_def h)
  have b: "below_queues s ?t" by simp
  have lk: "q_linked ?t = q_linked s" "q_slot ?t = q_slot s"
    by (simp_all add: fun_eq_iff q_linked_def q_slot_def split: sum.split)
  have p: "parked_ok ?t" using queues_okD(1) [OF ok] belowD(1,2) [OF b] by (simp add: parked_ok_def lk)
  have r: "results_ok ?t" using queues_okD(2) [OF ok] unfolding results_ok_def q_world_upd .
  have rep: "queue_rep q ?t vs [] []"
    unfolding queue_rep_def using ring_pop(1) [OF D(1)] D(2-5) sl rl by simp
  note c = queues_ok_change [OF ok p r rep]
  have ok': "queues_ok ?t" by (rule c(1)) simp_all
  show "chan_of q ?t = (chan_of q s)\<lparr>ch_buffer := vs\<rparr>" by (subst c(2)) (simp_all add: chan_of_def sl rl)
  show "d \<noteq> q \<Longrightarrow> chan_of d ?t = chan_of d s" by (rule c(3)) simp_all
  show "queue_parked ?t = queue_parked s" by (simp add: queue_parked_def lk)
  show "q_step s ?t"
    using inv ok' below_outside [OF b] below_locals [OF b] belowD(4) [OF b] by (simp add: q_step_def)
qed

lemma pop_admit_sender:
  assumes inv: "sched_inv s" and ok: "queues_ok s" and vs: "contents (queues s q) = v # vs"
    and sl: "send_list q s = a # as"
  obtains i s' where "admit_oldest_sender q (upd_queue q pop_front_storage s) = s'" "q_step s s'" "quiet s s'"
    "ready_list s' = ready_list s @ [i]" "sa_slot (senders s a) = Some i" "queue_parked s' = queue_parked s - {i}"
    "i \<in> queue_parked s"
    "chan_of q s' = (chan_of q s)\<lparr>ch_buffer := vs @ [sa_value (senders s a)],
       ch_senders := map (\<lambda>a. (a, sa_value (senders s a))) as\<rparr>"
    "\<forall>d. d \<noteq> q \<longrightarrow> chan_of d s' = chan_of d s"
    "senders s' = (senders s)(a := (senders s a)\<lparr>sa_next := None, sa_linked := False\<rparr>)"
    "receivers s' = receivers s" "st_of s' = (st_of s)(i := Ready)"
proof -
  let ?w = "sa_value (senders s a)"
  let ?u = "upd_queue q pop_front_storage s"
  note D = queue_repD [OF queues_okD(3) [OF ok, of q], unfolded vs sl]
  have a: "sa_linked (senders s a)" "sa_queue (senders s a) = q" using D(4) [of a] by simp_all
  have rl: "recv_list q s = []" using D(7) by fastforce
  have f: "fifo (sa_next_of ?u) (send_head (queues ?u q)) (send_tail (queues ?u q)) (a # as)" using D(2) by simp
  obtain h tl s1 where pop: "send_pop_front q ?u = (Some a, s1)" "below_queues ?u s1" "receivers s1 = receivers ?u"
    "senders s1 = (senders ?u)(a := (senders ?u a)\<lparr>sa_next := None, sa_linked := False\<rparr>)"
    "queues s1 = (queues ?u)(q := (queues ?u q)\<lparr>send_head := h, send_tail := tl\<rparr>)"
    "fifo (sa_next_of s1) h tl as" "sa_next_of s1 = (sa_next_of ?u)(a := None)"
    by (rule send_pop [OF f])
  let ?t = "upd_queue q (store_back ?w) s1"
  have "below_queues s s1" by (rule below_trans [OF _ pop(2)]) simp
  then have b: "below_queues s ?t" by simp
  have rt: "senders ?t = (senders s)(a := (senders s a)\<lparr>sa_next := None, sa_linked := False\<rparr>)"
    "receivers ?t = receivers s" "sa_next_of ?t = (sa_next_of s)(a := None)"
    "queues ?t = (queues s)(q := store_back ?w ((pop_front_storage (queues s q))\<lparr>send_head := h, send_tail := tl\<rparr>))"
    using pop(3-5,7) by (simp_all add: fun_eq_iff)
  obtain i where i: "sa_slot (senders s a) = Some i"
    using parked_okD(1) [OF queues_okD(1) [OF ok], of "Inl a"] a(1) by auto
  have lk: "q_linked ?t = (q_linked s)(Inl a := False)"
    by (simp add: fun_eq_iff q_linked_def pop(3,4) split: sum.split)
  have slt: "q_slot ?t y = q_slot s y" for y by (simp add: q_slot_def pop(3,4) split: sum.split)
  note u = unlink_parked [where x = "Inl a", OF queues_okD(1) [OF ok] _ _ belowD(1,2) [OF b] lk slt, simplified, OF a(1) i]
  have res: "results_ok ?t" using queues_okD(2) [OF ok] unfolding results_ok_def rt(2) .
  have cap: "Suc (length vs) = q_capacity (queues s q)" using D(6) by simp
  have rep: "queue_rep q ?t (vs @ [?w]) as []"
  proof -
    let ?q = "(pop_front_storage (queues s q))\<lparr>send_head := h, send_tail := tl\<rparr>"
    have "ring_rep ?q vs" using ring_pop(1) [OF D(1)] by (subst ring_rep_cong [of _ "pop_front_storage (queues s q)"]) simp_all
    then have "ring_rep (queues ?t q) (vs @ [?w])" using ring_store(1) [of ?q vs ?w] cap by (simp add: pop(5))
    moreover have "fifo (sa_next_of ?t) (send_head (queues ?t q)) (send_tail (queues ?t q)) as"
      using pop(6) by (simp add: pop(5,7))
    moreover have "x \<in> set as \<longleftrightarrow> sa_linked (senders ?t x) \<and> sa_queue (senders ?t x) = q" for x
      using D(4) [of x] D(8) by (auto simp: pop(4))
    moreover have "fifo (ra_next_of ?t) (recv_head (queues ?t q)) (recv_tail (queues ?t q)) []"
      using D(3) rl by (simp add: pop(3,5))
    ultimately show ?thesis
      using D(5) rl cap unfolding queue_rep_def by (simp add: pop(3,5))
  qed
  note c = queues_ok_change [OF ok u(1) res rep]
  have ch: "queues_ok ?t" "chan_of q ?t = (chan_of q s)\<lparr>ch_buffer := vs @ [?w],
       ch_senders := map (\<lambda>a. (a, sa_value (senders s a))) as\<rparr>" "\<And>d. d \<noteq> q \<Longrightarrow> chan_of d ?t = chan_of d s"
    by (use c a(2) rl sl in \<open>auto simp: pop(3-5,7) chan_of_def\<close>)
  have ip: "i \<in> queue_parked s" using a(1) i by (auto simp: queue_parked_def intro!: exI [of _ "Inl a"])
  note w = wake_queue_step [OF inv b ch(1) u(2) ip u(4,5)]
  have "admit_oldest_sender q ?u = make_ready i ?t"
    using w(5) i pop(4) by (simp add: admit_oldest_sender_def pop(1) Let_def)
  then show thesis
    by (rule that [OF _ w(1-3) i]) (use w ch u(3) ip pop(3,4) in simp_all)
qed

end
