(* ===== verification/Queue_Park.thy ===== *)
theory Queue_Park
  imports Queue_Ops
begin

text \<open>
  Parking on a queue, leaving its lists when a coroutine frame is destroyed, and the awaiter
  objects themselves (queue.h).
\<close>

section \<open>Awaiter objects outside the lists\<close>

text \<open>Changing an awaiter that is not linked changes no queue.\<close>

lemma receiver_touch:
  assumes inv: "sched_inv s" and ok: "queues_ok s" and a: "\<not> ra_linked (receivers s a)"
    and f: "\<not> ra_linked (f (receivers s a))" "ra_has_result (f (receivers s a)) = (ra_storage (f (receivers s a)) \<noteq> None)"
  shows "q_step s (upd_receiver a f s)" "chan_of q (upd_receiver a f s) = chan_of q s"
    "queue_parked (upd_receiver a f s) = queue_parked s"
proof -
  let ?t = "upd_receiver a f s"
  have b: "below_queues s ?t" by simp
  have lk: "q_linked ?t = q_linked s" "\<And>x. q_linked s x \<Longrightarrow> q_slot ?t x = q_slot s x"
    using a f(1) by (auto simp: fun_eq_iff q_linked_def q_slot_def split: sum.splits)
  have p: "parked_ok ?t"
    using queues_okD(1) [OF ok] belowD(1,2) [OF b] unfolding parked_ok_def lk(1) by (metis lk(2))
  have r: "results_ok ?t" using queues_okD(2) [OF ok] f by (auto simp: results_ok_def)
  have rep: "queue_rep d ?t (contents (queues s d)) (send_list d s) (recv_list d s)" for d
  proof -
    note D = queue_repD [OF queues_okD(3) [OF ok, of d]]
    have "a \<notin> set (recv_list d s)" using D(5) [of a] a by simp
    then have "fifo (ra_next_of ?t) h t (recv_list d s) = fifo (ra_next_of s) h t (recv_list d s)" for h t
      by (intro fifo_cong) auto
    moreover have "x \<in> set (recv_list d s) \<longleftrightarrow> ra_linked (receivers ?t x) \<and> ra_queue (receivers ?t x) = d" for x
      using D(5) [of x] a f(1) by auto
    ultimately show ?thesis using D(1-4,6,7) by (simp add: queue_rep_def)
  qed
  note c = queues_okI [OF p r rep]
  show "chan_of q ?t = chan_of q s" using c(3,4) [of q] by (simp add: chan_of_def)
  show "queue_parked ?t = queue_parked s" unfolding queue_parked_def lk(1) using lk(2) by auto
  show "q_step s ?t"
    using inv c(1) below_outside [OF b] below_locals [OF b] belowD(4) [OF b] by (simp add: q_step_def)
qed

lemma sender_touch:
  assumes inv: "sched_inv s" and ok: "queues_ok s" and a: "\<not> sa_linked (senders s a)"
    and f: "\<not> sa_linked (f (senders s a))"
  shows "q_step s (upd_sender a f s)" "chan_of q (upd_sender a f s) = chan_of q s"
    "queue_parked (upd_sender a f s) = queue_parked s"
proof -
  let ?t = "upd_sender a f s"
  have b: "below_queues s ?t" by simp
  have lk: "q_linked ?t = q_linked s" "\<And>x. q_linked s x \<Longrightarrow> q_slot ?t x = q_slot s x"
    using a f(1) by (auto simp: fun_eq_iff q_linked_def q_slot_def split: sum.splits)
  have p: "parked_ok ?t"
    using queues_okD(1) [OF ok] belowD(1,2) [OF b] unfolding parked_ok_def lk(1) by (metis lk(2))
  have r: "results_ok ?t" using queues_okD(2) [OF ok] unfolding results_ok_def q_world_upd .
  have na: "a \<notin> set (send_list d s)" for d using queue_repD(4) [OF queues_okD(3) [OF ok, of d], of a] a by simp
  have rep: "queue_rep d ?t (contents (queues s d)) (send_list d s) (recv_list d s)" for d
  proof -
    note D = queue_repD [OF queues_okD(3) [OF ok, of d]]
    have "fifo (sa_next_of ?t) h t (send_list d s) = fifo (sa_next_of s) h t (send_list d s)" for h t
      using na [of d] by (intro fifo_cong) auto
    moreover have "x \<in> set (send_list d s) \<longleftrightarrow> sa_linked (senders ?t x) \<and> sa_queue (senders ?t x) = d" for x
      using D(4) [of x] a f(1) by auto
    ultimately show ?thesis using D(1-3,5-7) by (simp add: queue_rep_def)
  qed
  note c = queues_okI [OF p r rep]
  show "chan_of q ?t = chan_of q s" using c(3,4) [of q] na [of q] by (auto simp: chan_of_def)
  show "queue_parked ?t = queue_parked s" unfolding queue_parked_def lk(1) using lk(2) by auto
  show "q_step s ?t"
    using inv c(1) below_outside [OF b] below_locals [OF b] belowD(4) [OF b] by (simp add: q_step_def)
qed

lemma construct_result_eq:
  "construct_result r v s = upd_receiver r (\<lambda>x. x\<lparr>ra_storage := Some v, ra_has_result := True\<rparr>) s"
  by (simp add: construct_result_def upd_receiver_def Let_def)

section \<open>Parking\<close>

lemma link_parked:
  assumes ok: "parked_ok s" and x: "\<not> q_linked s x" "q_slot t x = Some i" and i: "i < max_tasks s" "st_of s i = Running"
    and t: "max_tasks t = max_tasks s" "st_of t = (st_of s)(i := Waiting_local)"
    and l: "q_linked t = (q_linked s)(x := True)" and sl: "\<And>y. q_linked s y \<Longrightarrow> q_slot t y = q_slot s y"
  shows "parked_ok t" "queue_parked t = insert i (queue_parked s)"
proof -
  have ni: "q_slot s y \<noteq> Some i" if "q_linked s y" for y
    using parked_okD(1) [OF ok that] i(2) by auto
  have lk: "q_linked t y \<Longrightarrow> y \<noteq> x \<Longrightarrow> q_linked s y" for y by (simp add: l)
  show "parked_ok t"
  proof (rule parked_okI)
    fix y assume y: "q_linked t y"
    show "\<exists>i. q_slot t y = Some i \<and> i < max_tasks t \<and> st_of t i = Waiting_local"
    proof (cases "y = x")
      case False
      from lk [OF y this] parked_okD(1) [OF ok, of y] sl [of y] show ?thesis by (auto simp: t)
    qed (use x i t in simp)
    fix z assume z: "q_linked t z" "q_slot t y = q_slot t z"
    show "y = z"
    proof (cases "y = x \<or> z = x")
      case True
      then show ?thesis using lk [OF y] lk [OF z(1)] ni sl x(2) z(2) by metis
    next
      case False
      then show ?thesis using parked_okD(2) [OF ok, of y z] lk [OF y] lk [OF z(1)] sl z(2) by simp
    qed
  qed
  show "queue_parked t = insert i (queue_parked s)"
  proof (rule set_eqI)
    fix j show "j \<in> queue_parked t \<longleftrightarrow> j \<in> insert i (queue_parked s)"
    proof
      assume "j \<in> queue_parked t"
      then obtain y where y: "q_linked t y" "q_slot t y = Some j" by (auto simp: queue_parked_def)
      show "j \<in> insert i (queue_parked s)"
      proof (cases "y = x")
        case False
        from lk [OF y(1) this] sl y(2) show ?thesis by (auto simp: queue_parked_def)
      qed (use x y in simp)
    next
      assume j: "j \<in> insert i (queue_parked s)"
      show "j \<in> queue_parked t"
      proof (cases "j = i")
        case True
        then show ?thesis using x by (auto simp: queue_parked_def l intro: exI [of _ x])
      next
        case False
        with j obtain y where y: "q_linked s y" "q_slot s y = Some j" by (auto simp: queue_parked_def)
        then have "q_linked t y" "q_slot t y = Some j" using x sl by (auto simp: l)
        then show ?thesis by (auto simp: queue_parked_def)
      qed
    qed
  qed
qed

text \<open>The pointer part of \<open>park_sender\<close>.\<close>

lemma send_link:
  assumes f: "fifo (sa_next_of p) (send_head (queues p q)) (send_tail (queues p q)) as" and a: "a \<notin> set as"
  obtains t where "set_sa_linked a True (send_enqueue q a (set_sa_slot a (Some i) p)) = t" "below_queues p t"
    "receivers t = receivers p" "\<forall>d. d \<noteq> q \<longrightarrow> queues t d = queues p d"
    "\<exists>h l. queues t q = (queues p q)\<lparr>send_head := h, send_tail := l\<rparr>"
    "fifo (sa_next_of t) (send_head (queues t q)) (send_tail (queues t q)) (as @ [a])"
    "\<forall>x. x \<notin> set (as @ [a]) \<longrightarrow> sa_next_of t x = sa_next_of p x"
    "\<forall>x. sa_linked (senders t x) = (x = a \<or> sa_linked (senders p x))"
    "\<forall>x. sa_slot (senders t x) = (if x = a then Some i else sa_slot (senders p x))"
    "\<forall>x. sa_queue (senders t x) = sa_queue (senders p x)" "\<forall>x. sa_value (senders t x) = sa_value (senders p x)"
proof -
  let ?p = "set_sa_slot a (Some i) p"
  let ?e = "send_enqueue q a ?p"
  have "fifo (sa_next_of ?p) (send_head (queues ?p q)) (send_tail (queues ?p q)) as"
    using f by (simp add: fun_upd_idem)
  then have e: "fifo (sa_next_of ?e) (send_head (queues ?e q)) (send_tail (queues ?e q)) (as @ [a])"
    by (rule sq.push_fifo [OF _ a])
  have tail: "send_tail (queues p q) = Some l \<Longrightarrow> l \<in> set as" for l
    using f by (simp add: fifo_tail_in)
  show thesis
  proof (rule that [OF refl])
    show "fifo (sa_next_of (set_sa_linked a True ?e)) (send_head (queues (set_sa_linked a True ?e) q))
        (send_tail (queues (set_sa_linked a True ?e) q)) (as @ [a])"
      using e by (simp add: fun_upd_idem)
    show "\<forall>x. x \<notin> set (as @ [a]) \<longrightarrow> sa_next_of (set_sa_linked a True ?e) x = sa_next_of p x"
      using tail by (auto simp: send_enqueue_def Let_def split: option.split)
    show "\<exists>h l. queues (set_sa_linked a True ?e) q = (queues p q)\<lparr>send_head := h, send_tail := l\<rparr>"
    proof (intro exI)
      show "queues (set_sa_linked a True ?e) q = (queues p q)
          \<lparr>send_head := send_head (queues ?e q), send_tail := send_tail (queues ?e q)\<rparr>"
        by (simp add: send_enqueue_def Let_def split: option.split)
    qed
  qed (auto simp: send_enqueue_def Let_def split: option.split)
qed

lemma recv_link:
  assumes f: "fifo (ra_next_of p) (recv_head (queues p q)) (recv_tail (queues p q)) rs" and a: "a \<notin> set rs"
  obtains t where "set_ra_linked a True (recv_enqueue q a (set_ra_slot a (Some i) p)) = t" "below_queues p t"
    "senders t = senders p" "\<forall>d. d \<noteq> q \<longrightarrow> queues t d = queues p d"
    "\<exists>h l. queues t q = (queues p q)\<lparr>recv_head := h, recv_tail := l\<rparr>"
    "fifo (ra_next_of t) (recv_head (queues t q)) (recv_tail (queues t q)) (rs @ [a])"
    "\<forall>x. x \<notin> set (rs @ [a]) \<longrightarrow> ra_next_of t x = ra_next_of p x"
    "\<forall>x. ra_linked (receivers t x) = (x = a \<or> ra_linked (receivers p x))"
    "\<forall>x. ra_slot (receivers t x) = (if x = a then Some i else ra_slot (receivers p x))"
    "\<forall>x. ra_queue (receivers t x) = ra_queue (receivers p x)"
    "\<forall>x. ra_storage (receivers t x) = ra_storage (receivers p x)"
    "\<forall>x. ra_has_result (receivers t x) = ra_has_result (receivers p x)"
proof -
  let ?p = "set_ra_slot a (Some i) p"
  let ?e = "recv_enqueue q a ?p"
  have "fifo (ra_next_of ?p) (recv_head (queues ?p q)) (recv_tail (queues ?p q)) rs"
    using f by (simp add: fun_upd_idem)
  then have e: "fifo (ra_next_of ?e) (recv_head (queues ?e q)) (recv_tail (queues ?e q)) (rs @ [a])"
    by (rule wr.push_fifo [OF _ a])
  have tail: "recv_tail (queues p q) = Some l \<Longrightarrow> l \<in> set rs" for l
    using f by (simp add: fifo_tail_in)
  show thesis
  proof (rule that [OF refl])
    show "fifo (ra_next_of (set_ra_linked a True ?e)) (recv_head (queues (set_ra_linked a True ?e) q))
        (recv_tail (queues (set_ra_linked a True ?e) q)) (rs @ [a])"
      using e by (simp add: fun_upd_idem)
    show "\<forall>x. x \<notin> set (rs @ [a]) \<longrightarrow> ra_next_of (set_ra_linked a True ?e) x = ra_next_of p x"
      using tail by (auto simp: recv_enqueue_def Let_def split: option.split)
    show "\<exists>h l. queues (set_ra_linked a True ?e) q = (queues p q)\<lparr>recv_head := h, recv_tail := l\<rparr>"
    proof (intro exI)
      show "queues (set_ra_linked a True ?e) q = (queues p q)
          \<lparr>recv_head := recv_head (queues ?e q), recv_tail := recv_tail (queues ?e q)\<rparr>"
        by (simp add: recv_enqueue_def Let_def split: option.split)
    qed
  qed (auto simp: recv_enqueue_def Let_def split: option.split)
qed

text \<open>The running task parks; nothing of the queues has changed yet.\<close>

lemma park_world:
  fixes s :: "('v, 'a) q_world_scheme"
  assumes inv: "sched_inv s" and run: "current s = Some i" "st_of s i = Running"
  defines "p \<equiv> set_state i Waiting_local s"
  shows "sched_inv p" "evolves s p" "senders p = senders s" "queues p = queues s" "receivers p = receivers s"
    "q_outside s p" "locals_kept P s p" "ready_list p = ready_list s" "i < max_tasks s"
    "max_tasks p = max_tasks s" "st_of p = (st_of s)(i := Waiting_local)" "hook_log p = hook_log s"
proof -
  show "i < max_tasks s" using sched_invD(8) [OF inv] run(1) by (simp add: current_ok_def)
  show "sched_inv p" unfolding p_def by (rule park_inv [OF inv run(2)]) simp_all
  show "evolves s p" unfolding p_def by (rule park_evolves) (use run in auto)
  show "senders p = senders s" "queues p = queues s" "receivers p = receivers s"
    unfolding p_def by (rule queues_of_more; simp)+
  show "q_outside s p" unfolding p_def by (rule more_outside) simp
  show "locals_kept P s p" using run(2) by (auto simp: locals_kept_def p_def)
  show "ready_list p = ready_list s" unfolding p_def by (rule ready_list_cong) simp_all
  show "max_tasks p = max_tasks s" "st_of p = (st_of s)(i := Waiting_local)" "hook_log p = hook_log s"
    by (simp_all add: p_def)
qed

text \<open>\<open>await_suspend\<close> of a sender that found the queue full: it waits behind the others.\<close>

lemma send_park:
  assumes inv: "sched_inv s" and ok: "queues_ok s" and run: "current s = Some i" "st_of s i = Running" "handle_of s i = h"
    and a: "\<not> sa_linked (senders s a)" "sa_queue (senders s a) = q"
    and full: "recv_list q s = []" "length (contents (queues s q)) = q_capacity (queues s q)"
  obtains s' where "send_suspend a h s = (True, s')" "q_step s s'" "evolves s s'" "ready_list s' = ready_list s"
    "st_of s' = (st_of s)(i := Waiting_local)" "queue_parked s' = insert i (queue_parked s)"
    "chan_of q s' = (chan_of q s)\<lparr>ch_senders := ch_senders (chan_of q s) @ [(a, sa_value (senders s a))]\<rparr>"
    "\<forall>d. d \<noteq> q \<longrightarrow> chan_of d s' = chan_of d s" "hook_log s' = hook_log s"
    "\<forall>x. x \<noteq> a \<longrightarrow> sa_linked (senders s' x) = sa_linked (senders s x) \<and> sa_queue (senders s' x) = sa_queue (senders s x) \<and>
       sa_value (senders s' x) = sa_value (senders s x)" "receivers s' = receivers s"
proof -
  let ?p = "set_state i Waiting_local s"
  note pw = park_world [OF inv run(1,2)]
  note D = queue_repD [OF queues_okD(3) [OF ok, of q], unfolded full(1)]
  have na: "a \<notin> set (send_list q s)" using D(4) [of a] a by simp
  have f: "fifo (sa_next_of ?p) (send_head (queues ?p q)) (send_tail (queues ?p q)) (send_list q s)"
    using D(2) by (simp add: pw(3,4))
  obtain t where t0: "set_sa_linked a True (send_enqueue q a (set_sa_slot a (Some i) ?p)) = t" "below_queues ?p t"
    "receivers t = receivers s" "\<forall>d. d \<noteq> q \<longrightarrow> queues t d = queues s d"
    "\<exists>h l. queues t q = (queues s q)\<lparr>send_head := h, send_tail := l\<rparr>"
    "fifo (sa_next_of t) (send_head (queues t q)) (send_tail (queues t q)) (send_list q s @ [a])"
    "\<forall>x. x \<notin> set (send_list q s @ [a]) \<longrightarrow> sa_next_of t x = sa_next_of s x"
    "\<forall>x. sa_linked (senders t x) = (x = a \<or> sa_linked (senders s x))"
    "\<forall>x. sa_slot (senders t x) = (if x = a then Some i else sa_slot (senders s x))"
    "\<forall>x. sa_queue (senders t x) = sa_queue (senders s x)" "\<forall>x. sa_value (senders t x) = sa_value (senders s x)"
    by (rule send_link [OF f na, of i, unfolded pw(3-5)])
  note t = t0 [rule_format]
  have qt: "q_capacity (queues t q) = q_capacity (queues s q)" "recv_head (queues t q) = recv_head (queues s q)"
    "recv_tail (queues t q) = recv_tail (queues s q)" "ring_rep (queues t q) vs = ring_rep (queues s q) vs" for vs
    using t(5) by auto
  have lk: "q_linked t = (q_linked s)(Inl a := True)"
    by (auto simp: fun_eq_iff q_linked_def t(3,8) split: sum.split)
  have sl: "q_slot t y = q_slot s y" if "q_linked s y" for y
    using that a(1) by (auto simp: q_linked_def q_slot_def t(3,9) split: sum.splits)
  have stt: "max_tasks t = max_tasks s" "st_of t = (st_of s)(i := Waiting_local)"
    using belowD(1,2) [OF t(2)] by simp_all
  have sla: "q_slot t (Inl a) = Some i" and nla: "\<not> q_linked s (Inl a)" using t(9) [of a] a(1) by simp_all
  note lp = link_parked [OF queues_okD(1) [OF ok] nla sla pw(9) run(2) stt lk sl]
  have res: "results_ok t" using queues_okD(2) [OF ok] unfolding results_ok_def t(3) .
  have rep: "queue_rep q t (contents (queues s q)) (send_list q s @ [a]) []"
  proof -
    have "x \<in> set (send_list q s @ [a]) \<longleftrightarrow> sa_linked (senders t x) \<and> sa_queue (senders t x) = q" for x
      using D(4) [of x] a by (auto simp: t(8,10))
    then show ?thesis using D(1,3,5) t(6) full(2) by (simp add: queue_rep_def qt t(3))
  qed
  have hs: "(sa_linked (senders t x) \<and> sa_queue (senders t x) = d) = (sa_linked (senders s x) \<and> sa_queue (senders s x) = d)"
    if "d \<noteq> q" for x d using that a(2) by (auto simp: t(8,10))
  note c = queues_ok_change [OF ok lp(1) res rep t(4) t(7) _ hs]
  have c1: "queues_ok t" by (rule c(1)) (simp_all add: t(3,11))
  have c2: "chan_of q t = \<lparr>ch_capacity = q_capacity (queues t q), ch_buffer = contents (queues s q),
       ch_senders = map (\<lambda>a. (a, sa_value (senders t a))) (send_list q s @ [a]), ch_receivers = []\<rparr>"
    by (rule c(2)) (simp_all add: t(3,11))
  show thesis
  proof (rule that)
    show "send_suspend a h s = (True, t)"
      using run a(2) t(1) by (simp add: send_suspend_def park_sender_def running_is_def park_running_def Let_def)
    show "q_step s t" unfolding q_step_def
      using c1 pw(1) belowD(4) [OF t(2)] q_outside_trans [OF pw(6) below_outside [OF t(2)]]
        locals_kept_trans [OF pw(7) below_locals [OF t(2)]] by simp
    show "evolves s t" by (rule evolves_trans [OF pw(2) quiet_evolves [OF belowD(5) [OF t(2)]]])
    show "ready_list t = ready_list s" using belowD(3) [OF t(2)] pw(8) by simp
    show "st_of t = (st_of s)(i := Waiting_local)" by (rule stt(2))
    show "queue_parked t = insert i (queue_parked s)" by (rule lp(2))
    show "chan_of q t = (chan_of q s)\<lparr>ch_senders := ch_senders (chan_of q s) @ [(a, sa_value (senders s a))]\<rparr>"
      unfolding c2 qt t(11) by (simp add: chan_of_def full(1))
    show "\<forall>d. d \<noteq> q \<longrightarrow> chan_of d t = chan_of d s"
      by (intro allI impI, rule c(3)) (simp_all add: t(3,11))
    show "hook_log t = hook_log s" using belowD(9) [OF t(2)] by simp
    show "receivers t = receivers s" by (rule t(3))
    show "\<forall>x. x \<noteq> a \<longrightarrow> sa_linked (senders t x) = sa_linked (senders s x) \<and> sa_queue (senders t x) = sa_queue (senders s x) \<and>
       sa_value (senders t x) = sa_value (senders s x)"
      by (simp add: t(8,10,11))
  qed
qed

text \<open>\<open>await_suspend\<close> of a receiver that found the queue empty.\<close>

lemma recv_park:
  assumes inv: "sched_inv s" and ok: "queues_ok s" and run: "current s = Some i" "st_of s i = Running" "handle_of s i = h"
    and a: "\<not> ra_linked (receivers s a)" "ra_queue (receivers s a) = q" "\<not> ra_has_result (receivers s a)"
    and empty: "send_list q s = []" "contents (queues s q) = []"
  obtains s' where "receive_suspend a h s = (True, s')" "q_step s s'" "evolves s s'" "ready_list s' = ready_list s"
    "st_of s' = (st_of s)(i := Waiting_local)" "queue_parked s' = insert i (queue_parked s)"
    "chan_of q s' = (chan_of q s)\<lparr>ch_receivers := ch_receivers (chan_of q s) @ [a]\<rparr>"
    "\<forall>d. d \<noteq> q \<longrightarrow> chan_of d s' = chan_of d s" "hook_log s' = hook_log s"
    "\<forall>x. ra_storage (receivers s' x) = ra_storage (receivers s x)" "senders s' = senders s"
proof -
  let ?p = "set_state i Waiting_local s"
  note pw = park_world [OF inv run(1,2)]
  note D = queue_repD [OF queues_okD(3) [OF ok, of q], unfolded empty]
  have na: "a \<notin> set (recv_list q s)" using D(5) [of a] a by simp
  have f: "fifo (ra_next_of ?p) (recv_head (queues ?p q)) (recv_tail (queues ?p q)) (recv_list q s)"
    using D(3) by (simp add: pw(4,5))
  obtain t where t0: "set_ra_linked a True (recv_enqueue q a (set_ra_slot a (Some i) ?p)) = t" "below_queues ?p t"
    "senders t = senders s" "\<forall>d. d \<noteq> q \<longrightarrow> queues t d = queues s d"
    "\<exists>h l. queues t q = (queues s q)\<lparr>recv_head := h, recv_tail := l\<rparr>"
    "fifo (ra_next_of t) (recv_head (queues t q)) (recv_tail (queues t q)) (recv_list q s @ [a])"
    "\<forall>x. x \<notin> set (recv_list q s @ [a]) \<longrightarrow> ra_next_of t x = ra_next_of s x"
    "\<forall>x. ra_linked (receivers t x) = (x = a \<or> ra_linked (receivers s x))"
    "\<forall>x. ra_slot (receivers t x) = (if x = a then Some i else ra_slot (receivers s x))"
    "\<forall>x. ra_queue (receivers t x) = ra_queue (receivers s x)"
    "\<forall>x. ra_storage (receivers t x) = ra_storage (receivers s x)"
    "\<forall>x. ra_has_result (receivers t x) = ra_has_result (receivers s x)"
    by (rule recv_link [OF f na, of i, unfolded pw(3-5)])
  note t = t0 [rule_format]
  have qt: "q_capacity (queues t q) = q_capacity (queues s q)" "send_head (queues t q) = send_head (queues s q)"
    "send_tail (queues t q) = send_tail (queues s q)" "ring_rep (queues t q) vs = ring_rep (queues s q) vs" for vs
    using t(5) by auto
  have lk: "q_linked t = (q_linked s)(Inr a := True)"
    by (auto simp: fun_eq_iff q_linked_def t(3,8) split: sum.split)
  have sl: "q_slot t y = q_slot s y" if "q_linked s y" for y
    using that a(1) by (auto simp: q_linked_def q_slot_def t(3,9) split: sum.splits)
  have stt: "max_tasks t = max_tasks s" "st_of t = (st_of s)(i := Waiting_local)"
    using belowD(1,2) [OF t(2)] by simp_all
  have sla: "q_slot t (Inr a) = Some i" and nla: "\<not> q_linked s (Inr a)" using t(9) [of a] a(1) by simp_all
  note lp = link_parked [OF queues_okD(1) [OF ok] nla sla pw(9) run(2) stt lk sl]
  have res: "results_ok t" unfolding results_ok_def t(8,11,12) using queues_okD(2) [OF ok] a(3)
    by (auto simp: results_ok_def)
  have rep: "queue_rep q t [] [] (recv_list q s @ [a])"
  proof -
    have "x \<in> set (recv_list q s @ [a]) \<longleftrightarrow> ra_linked (receivers t x) \<and> ra_queue (receivers t x) = q" for x
      using D(5) [of x] a by (auto simp: t(8,10))
    then show ?thesis using D(1,2,4) t(6) by (simp add: queue_rep_def qt t(3))
  qed
  have hs: "(ra_linked (receivers t x) \<and> ra_queue (receivers t x) = d) = (ra_linked (receivers s x) \<and> ra_queue (receivers s x) = d)"
    if "d \<noteq> q" for x d using that a(2) by (auto simp: t(8,10))
  note c = queues_ok_change [OF ok lp(1) res rep t(4) _ t(7) _ hs]
  have c1: "queues_ok t" by (rule c(1)) (simp_all add: t(3))
  have c2: "chan_of q t = \<lparr>ch_capacity = q_capacity (queues t q), ch_buffer = [],
       ch_senders = map (\<lambda>a. (a, sa_value (senders t a))) [], ch_receivers = recv_list q s @ [a]\<rparr>"
    by (rule c(2)) (simp_all add: t(3))
  show thesis
  proof (rule that)
    show "receive_suspend a h s = (True, t)"
      using run a(2) t(1) by (simp add: receive_suspend_def park_receiver_def running_is_def park_running_def Let_def)
    show "q_step s t" unfolding q_step_def
      using c1 pw(1) belowD(4) [OF t(2)] q_outside_trans [OF pw(6) below_outside [OF t(2)]]
        locals_kept_trans [OF pw(7) below_locals [OF t(2)]] by simp
    show "evolves s t" by (rule evolves_trans [OF pw(2) quiet_evolves [OF belowD(5) [OF t(2)]]])
    show "ready_list t = ready_list s" using belowD(3) [OF t(2)] pw(8) by simp
    show "st_of t = (st_of s)(i := Waiting_local)" by (rule stt(2))
    show "queue_parked t = insert i (queue_parked s)" by (rule lp(2))
    show "chan_of q t = (chan_of q s)\<lparr>ch_receivers := ch_receivers (chan_of q s) @ [a]\<rparr>"
      unfolding c2 qt by (simp add: chan_of_def empty)
    show "\<forall>d. d \<noteq> q \<longrightarrow> chan_of d t = chan_of d s"
      by (intro allI impI, rule c(3)) (simp_all add: t(3))
    show "hook_log t = hook_log s" using belowD(9) [OF t(2)] by simp
    show "\<forall>x. ra_storage (receivers t x) = ra_storage (receivers s x)" by (simp add: t(11))
    show "senders t = senders s" by (rule t(3))
  qed
qed

section \<open>Leaving the lists\<close>

text \<open>
  The destructor of an awaiter that is still linked takes it out of its list, wherever it
  stands. \<open>cut_sender\<close> and \<open>cut_receiver\<close> name what the loop does where it finds the awaiter.
\<close>

definition cut_sender :: "nat \<Rightarrow> nat option \<Rightarrow> nat \<Rightarrow> ('v, 'a) q_world_scheme \<Rightarrow> ('v, 'a) q_world_scheme" where
  "cut_sender q prev x s =
     (let s1 = (case prev of
                  None \<Rightarrow> set_send_head q (sa_next (senders s x)) s
                | Some y \<Rightarrow> set_sa_next y (sa_next (senders s x)) s)
      in if send_tail (queues s1 q) = Some x then set_send_tail q prev s1 else s1)"

lemma unlink_sender_loop_finds:
  assumes "chain (sa_next_of s) p (pre @ a # post)" and "a \<notin> set pre"
  shows "unlink_sender_loop q a prev p s = Some (cut_sender q (if pre = [] then prev else Some (last pre)) a s)"
  using assms
proof (induction pre arbitrary: p prev)
  case Nil
  then show ?case by (subst unlink_sender_loop.simps) (simp add: cut_sender_def Let_def)
next
  case (Cons x pre)
  then have p: "p = Some x" "x \<noteq> a" "chain (sa_next_of s) (sa_next_of s x) (pre @ a # post)" by auto
  have "unlink_sender_loop q a prev p s = unlink_sender_loop q a (Some x) (sa_next_of s x) s"
    using p(1,2) by (subst unlink_sender_loop.simps) simp
  then show ?case using Cons.IH [OF p(3), of "Some x"] Cons.prems(2) by simp
qed

lemma unlink_sender_links:
  assumes f: "fifo (sa_next_of s) (send_head (queues s q)) (send_tail (queues s q)) (pre @ a # post)"
  obtains t where "unlink_sender q a s = Some t" "below_queues s t" "receivers t = receivers s"
    "\<forall>d. d \<noteq> q \<longrightarrow> queues t d = queues s d"
    "\<exists>h l. queues t q = (queues s q)\<lparr>send_head := h, send_tail := l\<rparr>"
    "fifo (sa_next_of t) (send_head (queues t q)) (send_tail (queues t q)) (pre @ post)"
    "\<forall>x. x \<notin> set (pre @ a # post) \<longrightarrow> sa_next_of t x = sa_next_of s x"
    "\<forall>x. \<exists>n. senders t x = (senders s x)\<lparr>sa_next := n, sa_linked := x \<noteq> a \<and> sa_linked (senders s x)\<rparr>"
proof -
  let ?prev = "if pre = [] then None else Some (last pre)"
  let ?c = "cut_sender q ?prev a s"
  let ?t = "set_sa_linked a False (set_sa_next a None ?c)"
  have c: "chain (sa_next_of s) (send_head (queues s q)) (pre @ a # post)" and d: "distinct (pre @ a # post)"
    using f by (auto simp: fifo_def)
  have a: "a \<notin> set (pre @ post)" using d by simp
  have eq: "unlink_sender q a s = Some ?t"
    using unlink_sender_loop_finds [OF c, of q None] d by (simp add: unlink_sender_def)
  have nx: "sa_next_of ?c = (if pre = [] then sa_next_of s else (sa_next_of s)(last pre := sa_next_of s a))"
    "send_head (queues ?c q) = (if pre = [] then sa_next_of s a else send_head (queues s q))"
    "send_tail (queues ?c q) = (if send_tail (queues s q) = Some a then if pre = [] then None else Some (last pre) else send_tail (queues s q))"
    by (simp_all add: cut_sender_def Let_def)
  have "fifo (sa_next_of ?c) (send_head (queues ?c q)) (send_tail (queues ?c q)) (pre @ post)"
    unfolding nx by (rule fifo_remove [OF f])
  moreover have "fifo (sa_next_of ?t) h l (pre @ post) = fifo (sa_next_of ?c) h l (pre @ post)" for h l
    by (rule fifo_cong) (use a in auto)
  ultimately have f': "fifo (sa_next_of ?t) (send_head (queues ?t q)) (send_tail (queues ?t q)) (pre @ post)" by simp
  have lp: "pre \<noteq> [] \<Longrightarrow> last pre \<in> set pre" by simp
  show thesis
  proof (rule that [OF eq])
    show "below_queues s ?t" "receivers ?t = receivers s" "\<forall>d. d \<noteq> q \<longrightarrow> queues ?t d = queues s d"
      by (simp_all add: cut_sender_def Let_def)
    show "fifo (sa_next_of ?t) (send_head (queues ?t q)) (send_tail (queues ?t q)) (pre @ post)" by (rule f')
    show "\<forall>x. x \<notin> set (pre @ a # post) \<longrightarrow> sa_next_of ?t x = sa_next_of s x"
      using lp by (auto simp: nx)
    show "\<exists>h l. queues ?t q = (queues s q)\<lparr>send_head := h, send_tail := l\<rparr>"
      by (intro exI [of _ "send_head (queues ?c q)"] exI [of _ "send_tail (queues ?c q)"]) (simp add: cut_sender_def Let_def)
    show "\<forall>x. \<exists>n. senders ?t x = (senders s x)\<lparr>sa_next := n, sa_linked := x \<noteq> a \<and> sa_linked (senders s x)\<rparr>"
    proof
      fix x show "\<exists>n. senders ?t x = (senders s x)\<lparr>sa_next := n, sa_linked := x \<noteq> a \<and> sa_linked (senders s x)\<rparr>"
        by (rule exI [of _ "sa_next_of ?t x"]) (auto simp: cut_sender_def Let_def)
    qed
  qed
qed

definition cut_receiver :: "nat \<Rightarrow> nat option \<Rightarrow> nat \<Rightarrow> ('v, 'a) q_world_scheme \<Rightarrow> ('v, 'a) q_world_scheme" where
  "cut_receiver q prev x s =
     (let s1 = (case prev of
                  None \<Rightarrow> set_recv_head q (ra_next (receivers s x)) s
                | Some y \<Rightarrow> set_ra_next y (ra_next (receivers s x)) s)
      in if recv_tail (queues s1 q) = Some x then set_recv_tail q prev s1 else s1)"

lemma unlink_receiver_loop_finds:
  assumes "chain (ra_next_of s) p (pre @ a # post)" and "a \<notin> set pre"
  shows "unlink_receiver_loop q a prev p s = Some (cut_receiver q (if pre = [] then prev else Some (last pre)) a s)"
  using assms
proof (induction pre arbitrary: p prev)
  case Nil
  then show ?case by (subst unlink_receiver_loop.simps) (simp add: cut_receiver_def Let_def)
next
  case (Cons x pre)
  then have p: "p = Some x" "x \<noteq> a" "chain (ra_next_of s) (ra_next_of s x) (pre @ a # post)" by auto
  have "unlink_receiver_loop q a prev p s = unlink_receiver_loop q a (Some x) (ra_next_of s x) s"
    using p(1,2) by (subst unlink_receiver_loop.simps) simp
  then show ?case using Cons.IH [OF p(3), of "Some x"] Cons.prems(2) by simp
qed

lemma unlink_receiver_links:
  assumes f: "fifo (ra_next_of s) (recv_head (queues s q)) (recv_tail (queues s q)) (pre @ a # post)"
  obtains t where "unlink_receiver q a s = Some t" "below_queues s t" "senders t = senders s"
    "\<forall>d. d \<noteq> q \<longrightarrow> queues t d = queues s d"
    "\<exists>h l. queues t q = (queues s q)\<lparr>recv_head := h, recv_tail := l\<rparr>"
    "fifo (ra_next_of t) (recv_head (queues t q)) (recv_tail (queues t q)) (pre @ post)"
    "\<forall>x. x \<notin> set (pre @ a # post) \<longrightarrow> ra_next_of t x = ra_next_of s x"
    "\<forall>x. \<exists>n. receivers t x = (receivers s x)\<lparr>ra_next := n, ra_linked := x \<noteq> a \<and> ra_linked (receivers s x)\<rparr>"
proof -
  let ?prev = "if pre = [] then None else Some (last pre)"
  let ?c = "cut_receiver q ?prev a s"
  let ?t = "set_ra_linked a False (set_ra_next a None ?c)"
  have c: "chain (ra_next_of s) (recv_head (queues s q)) (pre @ a # post)" and d: "distinct (pre @ a # post)"
    using f by (auto simp: fifo_def)
  have a: "a \<notin> set (pre @ post)" using d by simp
  have eq: "unlink_receiver q a s = Some ?t"
    using unlink_receiver_loop_finds [OF c, of q None] d by (simp add: unlink_receiver_def)
  have nx: "ra_next_of ?c = (if pre = [] then ra_next_of s else (ra_next_of s)(last pre := ra_next_of s a))"
    "recv_head (queues ?c q) = (if pre = [] then ra_next_of s a else recv_head (queues s q))"
    "recv_tail (queues ?c q) = (if recv_tail (queues s q) = Some a then if pre = [] then None else Some (last pre) else recv_tail (queues s q))"
    by (simp_all add: cut_receiver_def Let_def)
  have "fifo (ra_next_of ?c) (recv_head (queues ?c q)) (recv_tail (queues ?c q)) (pre @ post)"
    unfolding nx by (rule fifo_remove [OF f])
  moreover have "fifo (ra_next_of ?t) h l (pre @ post) = fifo (ra_next_of ?c) h l (pre @ post)" for h l
    by (rule fifo_cong) (use a in auto)
  ultimately have f': "fifo (ra_next_of ?t) (recv_head (queues ?t q)) (recv_tail (queues ?t q)) (pre @ post)" by simp
  have lp: "pre \<noteq> [] \<Longrightarrow> last pre \<in> set pre" by simp
  show thesis
  proof (rule that [OF eq])
    show "below_queues s ?t" "senders ?t = senders s" "\<forall>d. d \<noteq> q \<longrightarrow> queues ?t d = queues s d"
      by (simp_all add: cut_receiver_def Let_def)
    show "fifo (ra_next_of ?t) (recv_head (queues ?t q)) (recv_tail (queues ?t q)) (pre @ post)" by (rule f')
    show "\<forall>x. x \<notin> set (pre @ a # post) \<longrightarrow> ra_next_of ?t x = ra_next_of s x"
      using lp by (auto simp: nx)
    show "\<exists>h l. queues ?t q = (queues s q)\<lparr>recv_head := h, recv_tail := l\<rparr>"
      by (intro exI [of _ "recv_head (queues ?c q)"] exI [of _ "recv_tail (queues ?c q)"]) (simp add: cut_receiver_def Let_def)
    show "\<forall>x. \<exists>n. receivers ?t x = (receivers s x)\<lparr>ra_next := n, ra_linked := x \<noteq> a \<and> ra_linked (receivers s x)\<rparr>"
    proof
      fix x show "\<exists>n. receivers ?t x = (receivers s x)\<lparr>ra_next := n, ra_linked := x \<noteq> a \<and> ra_linked (receivers s x)\<rparr>"
        by (rule exI [of _ "ra_next_of ?t x"]) (auto simp: cut_receiver_def Let_def)
    qed
  qed
qed

text \<open>A frame that is destroyed while its awaiter is parked: only that awaiter leaves.\<close>

lemma send_leave:
  assumes inv: "sched_inv s" and ok: "queues_ok s" and a: "sa_linked (senders s a)" "sa_queue (senders s a) = q"
  obtains s' where "send_destructor a s = Some s'" "q_step s s'" "quiet s s'" "queue_parked s' \<subseteq> queue_parked s"
    "chan_of q s' = (chan_of q s)\<lparr>ch_senders := filter (\<lambda>p. fst p \<noteq> a) (ch_senders (chan_of q s))\<rparr>"
    "\<forall>d. d \<noteq> q \<longrightarrow> chan_of d s' = chan_of d s" "\<not> sa_linked (senders s' a)" "below_queues s s'"
    "receivers s' = receivers s"
proof -
  note D = queue_repD [OF queues_okD(3) [OF ok, of q]]
  have "a \<in> set (send_list q s)" using D(4) [of a] a by simp
  then obtain pre post where sp: "send_list q s = pre @ a # post" by (meson split_list)
  obtain t where t0: "unlink_sender q a s = Some t" "below_queues s t" "receivers t = receivers s"
    "\<forall>d. d \<noteq> q \<longrightarrow> queues t d = queues s d"
    "\<exists>h l. queues t q = (queues s q)\<lparr>send_head := h, send_tail := l\<rparr>"
    "fifo (sa_next_of t) (send_head (queues t q)) (send_tail (queues t q)) (pre @ post)"
    "\<forall>x. x \<notin> set (pre @ a # post) \<longrightarrow> sa_next_of t x = sa_next_of s x"
    "\<forall>x. \<exists>n. senders t x = (senders s x)\<lparr>sa_next := n, sa_linked := x \<noteq> a \<and> sa_linked (senders s x)\<rparr>"
    by (rule unlink_sender_links [OF D(2) [unfolded sp]])
  note t = t0 [rule_format]
  have sx: "sa_linked (senders t x) = (x \<noteq> a \<and> sa_linked (senders s x))" "sa_queue (senders t x) = sa_queue (senders s x)"
    "sa_value (senders t x) = sa_value (senders s x)" "sa_slot (senders t x) = sa_slot (senders s x)" for x
    using t(8) [of x] by auto
  have qt: "q_capacity (queues t q) = q_capacity (queues s q)" "recv_head (queues t q) = recv_head (queues s q)"
    "recv_tail (queues t q) = recv_tail (queues s q)" "ring_rep (queues t q) vs = ring_rep (queues s q) vs" for vs
    using t(5) by auto
  obtain i where i: "sa_slot (senders s a) = Some i"
    using parked_okD(1) [OF queues_okD(1) [OF ok], of "Inl a"] a(1) by auto
  have lk: "q_linked t = (q_linked s)(Inl a := False)"
    by (auto simp: fun_eq_iff q_linked_def t(3) sx split: sum.split)
  have sl: "q_slot t y = q_slot s y" for y by (simp add: q_slot_def t(3) sx split: sum.split)
  note u = unlink_parked [where x = "Inl a", OF queues_okD(1) [OF ok] _ _ belowD(1,2) [OF t(2)] lk sl, simplified, OF a(1) i]
  have res: "results_ok t" using queues_okD(2) [OF ok] unfolding results_ok_def t(3) .
  have rep: "queue_rep q t (contents (queues s q)) (pre @ post) (recv_list q s)"
  proof -
    have "x \<in> set (pre @ post) \<longleftrightarrow> sa_linked (senders t x) \<and> sa_queue (senders t x) = q" for x
      using D(4) [of x] D(8) by (auto simp: sx sp)
    then show ?thesis using D(1,3,5-7) t(6) by (simp add: queue_rep_def qt t(3) sp)
  qed
  have sn: "sa_next_of t x = sa_next_of s x" if "x \<notin> set (send_list q s)" for x using t(7) [of x] that by (simp add: sp)
  have hs: "(sa_linked (senders t x) \<and> sa_queue (senders t x) = d) = (sa_linked (senders s x) \<and> sa_queue (senders s x) = d)"
    if "d \<noteq> q" for x d using that a(2) by (auto simp: sx)
  note c = queues_ok_change [OF ok u(1) res rep t(4) sn _ hs]
  have c1: "queues_ok t" by (rule c(1)) (simp_all add: t(3) sx)
  have c2: "chan_of q t = \<lparr>ch_capacity = q_capacity (queues t q), ch_buffer = contents (queues s q),
       ch_senders = map (\<lambda>a. (a, sa_value (senders t a))) (pre @ post), ch_receivers = recv_list q s\<rparr>"
    by (rule c(2)) (simp_all add: t(3) sx)
  show thesis
  proof (rule that)
    show "send_destructor a s = Some t" using a t(1) by (simp add: send_destructor_def)
    show "q_step s t" unfolding q_step_def
      using c1 inv belowD(4) [OF t(2)] below_outside [OF t(2)] below_locals [OF t(2)] by simp
    show "quiet s t" by (rule belowD(5) [OF t(2)])
    show "queue_parked t \<subseteq> queue_parked s" using u(3) by auto
    have "a \<notin> set pre" "a \<notin> set post" using D(8) by (auto simp: sp)
    then have fl: "filter (\<lambda>x. x \<noteq> a) pre = pre" "filter (\<lambda>x. x \<noteq> a) post = post"
      by (auto simp: filter_id_conv)
    show "chan_of q t = (chan_of q s)\<lparr>ch_senders := filter (\<lambda>p. fst p \<noteq> a) (ch_senders (chan_of q s))\<rparr>"
      unfolding c2 qt sx by (simp add: chan_of_def sp filter_map comp_def fl)
    show "\<forall>d. d \<noteq> q \<longrightarrow> chan_of d t = chan_of d s"
      by (intro allI impI, rule c(3)) (simp_all add: t(3) sx)
    show "\<not> sa_linked (senders t a)" by (simp add: sx)
    show "below_queues s t" "receivers t = receivers s" by (rule t(2), rule t(3))
  qed
qed

lemma recv_leave:
  assumes inv: "sched_inv s" and ok: "queues_ok s" and a: "ra_linked (receivers s a)" "ra_queue (receivers s a) = q"
  obtains s' where "receive_destructor a s = Some s'" "q_step s s'" "quiet s s'" "queue_parked s' \<subseteq> queue_parked s"
    "chan_of q s' = (chan_of q s)\<lparr>ch_receivers := filter (\<lambda>r. r \<noteq> a) (ch_receivers (chan_of q s))\<rparr>"
    "\<forall>d. d \<noteq> q \<longrightarrow> chan_of d s' = chan_of d s" "\<not> ra_linked (receivers s' a)" "below_queues s s'"
    "senders s' = senders s" "ra_storage (receivers s' a) = None"
proof -
  note D = queue_repD [OF queues_okD(3) [OF ok, of q]]
  have "a \<in> set (recv_list q s)" using D(5) [of a] a by simp
  then obtain pre post where sp: "recv_list q s = pre @ a # post" by (meson split_list)
  obtain t where t0: "unlink_receiver q a s = Some t" "below_queues s t" "senders t = senders s"
    "\<forall>d. d \<noteq> q \<longrightarrow> queues t d = queues s d"
    "\<exists>h l. queues t q = (queues s q)\<lparr>recv_head := h, recv_tail := l\<rparr>"
    "fifo (ra_next_of t) (recv_head (queues t q)) (recv_tail (queues t q)) (pre @ post)"
    "\<forall>x. x \<notin> set (pre @ a # post) \<longrightarrow> ra_next_of t x = ra_next_of s x"
    "\<forall>x. \<exists>n. receivers t x = (receivers s x)\<lparr>ra_next := n, ra_linked := x \<noteq> a \<and> ra_linked (receivers s x)\<rparr>"
    by (rule unlink_receiver_links [OF D(3) [unfolded sp]])
  note t = t0 [rule_format]
  have sx: "ra_linked (receivers t x) = (x \<noteq> a \<and> ra_linked (receivers s x))" "ra_queue (receivers t x) = ra_queue (receivers s x)"
    "ra_storage (receivers t x) = ra_storage (receivers s x)" "ra_has_result (receivers t x) = ra_has_result (receivers s x)"
    "ra_slot (receivers t x) = ra_slot (receivers s x)" for x
    using t(8) [of x] by auto
  have qt: "q_capacity (queues t q) = q_capacity (queues s q)" "send_head (queues t q) = send_head (queues s q)"
    "send_tail (queues t q) = send_tail (queues s q)" "ring_rep (queues t q) vs = ring_rep (queues s q) vs" for vs
    using t(5) by auto
  obtain i where i: "ra_slot (receivers s a) = Some i"
    using parked_okD(1) [OF queues_okD(1) [OF ok], of "Inr a"] a(1) by auto
  have lk: "q_linked t = (q_linked s)(Inr a := False)"
    by (auto simp: fun_eq_iff q_linked_def t(3) sx split: sum.split)
  have sl: "q_slot t y = q_slot s y" for y by (simp add: q_slot_def t(3) sx split: sum.split)
  note u = unlink_parked [where x = "Inr a", OF queues_okD(1) [OF ok] _ _ belowD(1,2) [OF t(2)] lk sl, simplified, OF a(1) i]
  have res: "results_ok t" using queues_okD(2) [OF ok] by (auto simp: results_ok_def sx)
  have nr: "\<not> ra_has_result (receivers s a)" "ra_storage (receivers s a) = None"
    using results_okD(2) [OF queues_okD(2) [OF ok] a(1)] results_okD(1) [OF queues_okD(2) [OF ok], of a] by simp_all
  have rep: "queue_rep q t (contents (queues s q)) (send_list q s) (pre @ post)"
  proof -
    have "x \<in> set (pre @ post) \<longleftrightarrow> ra_linked (receivers t x) \<and> ra_queue (receivers t x) = q" for x
      using D(5) [of x] D(9) by (auto simp: sx sp)
    then show ?thesis using D(1,2,4,6,7) t(6) by (simp add: queue_rep_def qt t(3) sp)
  qed
  have sn: "ra_next_of t x = ra_next_of s x" if "x \<notin> set (recv_list q s)" for x using t(7) [of x] that by (simp add: sp)
  have hs: "(ra_linked (receivers t x) \<and> ra_queue (receivers t x) = d) = (ra_linked (receivers s x) \<and> ra_queue (receivers s x) = d)"
    if "d \<noteq> q" for x d using that a(2) by (auto simp: sx)
  note c = queues_ok_change [OF ok u(1) res rep t(4) _ sn _ hs]
  have c1: "queues_ok t" by (rule c(1)) (simp_all add: t(3))
  have c2: "chan_of q t = \<lparr>ch_capacity = q_capacity (queues t q), ch_buffer = contents (queues s q),
       ch_senders = map (\<lambda>a. (a, sa_value (senders t a))) (send_list q s), ch_receivers = pre @ post\<rparr>"
    by (rule c(2)) (simp_all add: t(3))
  show thesis
  proof (rule that)
    show "receive_destructor a s = Some t" using a t(1) nr by (simp add: receive_destructor_def sx)
    show "q_step s t" unfolding q_step_def
      using c1 inv belowD(4) [OF t(2)] below_outside [OF t(2)] below_locals [OF t(2)] by simp
    show "quiet s t" by (rule belowD(5) [OF t(2)])
    show "queue_parked t \<subseteq> queue_parked s" using u(3) by auto
    have "a \<notin> set pre" "a \<notin> set post" using D(9) by (auto simp: sp)
    then have fl: "filter (\<lambda>x. x \<noteq> a) pre = pre" "filter (\<lambda>x. x \<noteq> a) post = post"
      by (auto simp: filter_id_conv)
    show "chan_of q t = (chan_of q s)\<lparr>ch_receivers := filter (\<lambda>r. r \<noteq> a) (ch_receivers (chan_of q s))\<rparr>"
      unfolding c2 qt t(3) by (simp add: chan_of_def sp fl)
    show "\<forall>d. d \<noteq> q \<longrightarrow> chan_of d t = chan_of d s"
      by (intro allI impI, rule c(3)) (simp_all add: t(3))
    show "\<not> ra_linked (receivers t a)" "ra_storage (receivers t a) = None" using nr by (simp_all add: sx)
    show "below_queues s t" "senders t = senders s" by (rule t(2), rule t(3))
  qed
qed

end
