(* ===== verification/Queue_Props.thy ===== *)
theory Queue_Props
  imports Queue_Park
begin

text \<open>
  The properties of \<open>Queue\<close> (queue.h): its operations implement the abstract channel, values
  leave in the order in which they were sent, tasks wait only when they have to, objects in the
  ring are constructed and destroyed once, and destruction leaves nothing dangling.
\<close>

section \<open>Refinement of the channel\<close>

text \<open>\<open>do_send\<close>, that is \<open>trySend\<close> and the first step of \<open>send\<close>, does
  what the channel specification says: a waiting receiver gets the value in its own storage and
  becomes ready behind the ready tasks, otherwise the value is buffered behind the others, and a
  full queue is left alone with result false. Other queues are untouched and the invariants hold.\<close>

lemma send_refines:
  assumes "sched_inv s" and "queues_ok s"
  shows "case (chan_send v (chan_of q s), do_send q v s) of
    ((r, c), (b, s')) \<Rightarrow> b = (r \<noteq> Full) \<and> chan_of q s' = c \<and> (\<forall>d. d \<noteq> q \<longrightarrow> chan_of d s' = chan_of d s) \<and>
      sched_inv s' \<and> queues_ok s' \<and>
      (case r of
         Handed a \<Rightarrow> ra_storage (receivers s' a) = Some v \<and> ra_has_result (receivers s' a) \<and>
           ready_list s' = ready_list s @ [the (ra_slot (receivers s a))]
       | Buffered \<Rightarrow> ready_list s' = ready_list s
       | Full \<Rightarrow> s' = s)"
proof (cases "recv_list q s")
  case (Cons a rs)
  obtain i s' where s': "do_send q v s = (True, s')" "q_step s s'" "quiet s s'" "ready_list s' = ready_list s @ [i]"
    "ra_slot (receivers s a) = Some i" "queue_parked s' = queue_parked s - {i}" "i \<in> queue_parked s"
    "chan_of q s' = (chan_of q s)\<lparr>ch_receivers := rs\<rparr>" "\<forall>d. d \<noteq> q \<longrightarrow> chan_of d s' = chan_of d s"
    "receivers s' = (receivers s)(a := (receivers s a)\<lparr>ra_next := None, ra_linked := False,
       ra_storage := Some v, ra_has_result := True\<rparr>)"
    "senders s' = senders s" "st_of s' = (st_of s)(i := Ready)"
    by (rule do_send_handoff [OF assms Cons, of v])
  have "chan_send v (chan_of q s) = (Handed a, (chan_of q s)\<lparr>ch_receivers := rs\<rparr>)"
    using Cons by (simp add: chan_send_def chan_of_def)
  then show ?thesis using s' by (simp add: q_step_def)
next
  case Nil
  show ?thesis
  proof (cases "length (contents (queues s q)) < q_capacity (queues s q)")
    case True
    note b = do_send_buffer [OF assms Nil True]
    have "chan_send v (chan_of q s) = (Buffered, (chan_of q s)\<lparr>ch_buffer := contents (queues s q) @ [v]\<rparr>)"
      using Nil True by (simp add: chan_send_def chan_of_def)
    moreover have "ready_list (upd_queue q (store_back v) s) = ready_list s" by (rule belowD(3)) simp
    ultimately show ?thesis using b by (simp add: q_step_def)
  next
    case False
    have "chan_send v (chan_of q s) = (Full, chan_of q s)"
      using Nil False by (simp add: chan_send_def chan_of_def)
    then show ?thesis using do_send_full [OF assms(2) Nil False] assms by simp
  qed
qed

text \<open>Taking a value: the common part of \<open>tryReceive\<close> and \<open>receive\<close>.\<close>

lemma receive_step:
  assumes "sched_inv s" and "queues_ok s" and vs: "contents (queues s q) = v # vs"
  obtains s' where "admit_oldest_sender q (upd_queue q pop_front_storage s) = s'" "q_step s s'" "quiet s s'"
    "chan_receive (chan_of q s) = (Some v, chan_of q s')" "\<forall>d. d \<noteq> q \<longrightarrow> chan_of d s' = chan_of d s"
    "ready_list s' = ready_list s @ (case send_list q s of [] \<Rightarrow> [] | a # _ \<Rightarrow> [the (sa_slot (senders s a))])"
    "receivers s' = receivers s" "queue_parked s' \<subseteq> queue_parked s"
proof (cases "send_list q s")
  case Nil
  note p = pop_admit_none [OF assms Nil]
  have b: "below_queues s (upd_queue q pop_front_storage s)" by simp
  show thesis
    by (rule that [OF p(1,2)])
      (use p b belowD [OF b] vs Nil in \<open>simp_all add: chan_receive_def chan_of_def\<close>)
next
  case (Cons a as)
  obtain i s' where s': "admit_oldest_sender q (upd_queue q pop_front_storage s) = s'" "q_step s s'" "quiet s s'"
    "ready_list s' = ready_list s @ [i]" "sa_slot (senders s a) = Some i" "queue_parked s' = queue_parked s - {i}"
    "i \<in> queue_parked s"
    "chan_of q s' = (chan_of q s)\<lparr>ch_buffer := vs @ [sa_value (senders s a)],
       ch_senders := map (\<lambda>a. (a, sa_value (senders s a))) as\<rparr>"
    "\<forall>d. d \<noteq> q \<longrightarrow> chan_of d s' = chan_of d s"
    "senders s' = (senders s)(a := (senders s a)\<lparr>sa_next := None, sa_linked := False\<rparr>)"
    "receivers s' = receivers s" "st_of s' = (st_of s)(i := Ready)"
    by (rule pop_admit_sender [OF assms Cons])
  have "chan_receive (chan_of q s) = (Some v, chan_of q s')"
    unfolding s'(8) using vs Cons by (simp add: chan_receive_def chan_of_def)
  then show thesis by (intro that [OF s'(1-3)]) (use s' Cons in auto)
qed

lemma empty_count: "queues_ok s \<Longrightarrow> q_count (queues s q) = 0 \<longleftrightarrow> contents (queues s q) = []"
  using queue_repD(1) [OF queues_okD(3), of s q] by (simp add: ring_repD(2))

lemma front_cell: "queues_ok s \<Longrightarrow> contents (queues s q) = v # vs \<Longrightarrow> q_cells (queues s q) (q_head (queues s q)) = Some v"
  using queue_repD(1) [OF queues_okD(3), of s q] ring_pop(2) [of "queues s q" v vs] by simp

text \<open>\<open>tryReceive\<close> returns false on an empty queue and changes
  nothing; otherwise it returns the oldest value, and the oldest waiting sender, if any, has its
  value buffered behind the others and becomes ready.\<close>

lemma try_receive_refines:
  assumes "sched_inv s" and "queues_ok s"
  shows "case (chan_receive (chan_of q s), try_receive q s) of
    ((r, c), (out, s')) \<Rightarrow> out = r \<and> chan_of q s' = c \<and> (\<forall>d. d \<noteq> q \<longrightarrow> chan_of d s' = chan_of d s) \<and>
      sched_inv s' \<and> queues_ok s' \<and> (r = None \<longrightarrow> s' = s) \<and>
      ready_list s' = ready_list s @
        (case (r, send_list q s) of (Some _, a # _) \<Rightarrow> [the (sa_slot (senders s a))] | _ \<Rightarrow> [])"
proof (cases "contents (queues s q)")
  case Nil
  then have "try_receive q s = (None, s)" "chan_receive (chan_of q s) = (None, chan_of q s)"
    using empty_count [OF assms(2), of q] by (simp_all add: try_receive_def chan_receive_def chan_of_def)
  then show ?thesis using assms by simp
next
  case (Cons v vs)
  obtain s' where s': "admit_oldest_sender q (upd_queue q pop_front_storage s) = s'" "q_step s s'" "quiet s s'"
    "chan_receive (chan_of q s) = (Some v, chan_of q s')" "\<forall>d. d \<noteq> q \<longrightarrow> chan_of d s' = chan_of d s"
    "ready_list s' = ready_list s @ (case send_list q s of [] \<Rightarrow> [] | a # _ \<Rightarrow> [the (sa_slot (senders s a))])"
    "receivers s' = receivers s" "queue_parked s' \<subseteq> queue_parked s"
    by (rule receive_step [OF assms Cons])
  have "try_receive q s = (Some v, s')"
    using empty_count [OF assms(2), of q] Cons front_cell [OF assms(2) Cons] s'(1)
    by (simp add: try_receive_def Let_def)
  then show ?thesis using s' by (auto simp: q_step_def split: list.split)
qed

text \<open>\<open>co_await receive()\<close> completes at once exactly when a value is
  buffered: the oldest value is in the awaiter's own storage, \<open>await_resume\<close> returns it and
  destroys the stored copy, and the channel is as after a receive. On an empty queue the
  awaiter is told to wait and nothing has changed.\<close>

lemma receive_ready_refines:
  assumes "sched_inv s" and "queues_ok s" and "ra_queue (receivers s a) = q"
    and "\<not> ra_linked (receivers s a)" and "\<not> ra_has_result (receivers s a)"
  shows "case (chan_receive (chan_of q s), receive_ready a s) of
    ((r, c), (b, s')) \<Rightarrow> b = (r \<noteq> None) \<and> chan_of q s' = c \<and> sched_inv s' \<and> queues_ok s' \<and> (r = None \<longrightarrow> s' = s) \<and>
      (\<forall>v. r = Some v \<longrightarrow> (\<exists>s''. receive_resume fallback a s' = Some (v, s'') \<and> ra_storage (receivers s'' a) = None \<and>
        chan_of q s'' = c \<and> queues_ok s''))"
proof (cases "contents (queues s q)")
  case Nil
  then have "receive_ready a s = (False, s)" "chan_receive (chan_of q s) = (None, chan_of q s)"
    using empty_count [OF assms(2), of q] assms(3) by (simp_all add: receive_ready_def chan_receive_def chan_of_def)
  then show ?thesis using assms by simp
next
  case (Cons v vs)
  let ?c = "construct_result a v s"
  note t = receiver_touch [of s a "\<lambda>x. x\<lparr>ra_storage := Some v, ra_has_result := True\<rparr>", OF assms(1,2,4),
      simplified, OF assms(4), folded construct_result_eq]
  have qc: "queues ?c = queues s" by (simp add: construct_result_eq)
  have ok: "sched_inv ?c" "queues_ok ?c" using t(1) by (simp_all add: q_step_def)
  have cc: "contents (queues ?c q) = v # vs" using Cons qc by simp
  obtain s' where s': "admit_oldest_sender q (upd_queue q pop_front_storage ?c) = s'" "q_step ?c s'" "quiet ?c s'"
    "chan_receive (chan_of q ?c) = (Some v, chan_of q s')" "\<forall>d. d \<noteq> q \<longrightarrow> chan_of d s' = chan_of d ?c"
    "ready_list s' = ready_list ?c @ (case send_list q ?c of [] \<Rightarrow> [] | a # _ \<Rightarrow> [the (sa_slot (senders ?c a))])"
    "receivers s' = receivers ?c" "queue_parked s' \<subseteq> queue_parked ?c"
    by (rule receive_step [OF ok cc])
  have r: "receive_ready a s = (True, s')"
    using empty_count [OF assms(2), of q] Cons front_cell [OF assms(2) Cons] s'(1) assms(3)
    by (simp add: receive_ready_def Let_def)
  have ra: "ra_has_result (receivers s' a)" "ra_storage (receivers s' a) = Some v" "\<not> ra_linked (receivers s' a)"
    using s'(7) assms(4) by (simp_all add: construct_result_eq)
  let ?r = "upd_receiver a (\<lambda>x. x\<lparr>ra_storage := None, ra_has_result := False\<rparr>) s'"
  have ok': "sched_inv s'" "queues_ok s'" using s'(2) by (simp_all add: q_step_def)
  note t' = receiver_touch [of s' a "\<lambda>x. x\<lparr>ra_storage := None, ra_has_result := False\<rparr>", OF ok' ra(3),
      simplified, OF ra(3)]
  have "receive_resume fallback a s' = Some (v, ?r)"
    using ra by (simp add: receive_resume_def Let_def upd_receiver_def)
  then show ?thesis using r s'(4) t(2) ok' t' by (auto simp: q_step_def)
qed

section \<open>Waiting\<close>

lemma full_queue_parks:
  assumes "sched_inv s" and "queues_ok s" and "current s = Some i" and "st_of s i = Running" and "handle_of s i = h"
    and na: "\<not> sa_linked (senders s a)" and q: "sa_queue (senders s a) = q" and full: "fst (do_send q v s) = False"
  obtains s' where "send_suspend a h s = (True, s')" "q_step s s'" "evolves s s'" "ready_list s' = ready_list s"
    "st_of s' = (st_of s)(i := Waiting_local)" "queue_parked s' = insert i (queue_parked s)"
    "chan_of q s' = (chan_of q s)\<lparr>ch_senders := ch_senders (chan_of q s) @ [(a, sa_value (senders s a))]\<rparr>"
    "\<forall>d. d \<noteq> q \<longrightarrow> chan_of d s' = chan_of d s" "receivers s' = receivers s"
proof -
  have rl: "recv_list q s = []"
  proof (rule ccontr)
    assume "recv_list q s \<noteq> []"
    then obtain r rs where "recv_list q s = r # rs" by (cases "recv_list q s") auto
    then show False by (rule do_send_handoff [OF assms(1,2), of q r rs v]) (use full in auto)
  qed
  have "\<not> length (contents (queues s q)) < q_capacity (queues s q)"
    using do_send_buffer(1) [OF assms(1,2) rl, of v] full by auto
  then have fl: "length (contents (queues s q)) = q_capacity (queues s q)"
    using ring_repD(3) [OF queue_repD(1) [OF queues_okD(3) [OF assms(2)]], of q] by simp
  show thesis by (rule send_park [OF assms(1-5) na q rl fl]) (rule that; assumption)
qed

lemma empty_queue_parks:
  assumes "sched_inv s" and "queues_ok s" and "current s = Some i" and "st_of s i = Running" and "handle_of s i = h"
    and na: "\<not> ra_linked (receivers s a)" and q: "ra_queue (receivers s a) = q"
    and nr: "\<not> ra_has_result (receivers s a)" and empty: "fst (receive_ready a s) = False"
  obtains s' where "receive_suspend a h s = (True, s')" "q_step s s'" "evolves s s'" "ready_list s' = ready_list s"
    "st_of s' = (st_of s)(i := Waiting_local)" "queue_parked s' = insert i (queue_parked s)"
    "chan_of q s' = (chan_of q s)\<lparr>ch_receivers := ch_receivers (chan_of q s) @ [a]\<rparr>"
    "\<forall>d. d \<noteq> q \<longrightarrow> chan_of d s' = chan_of d s" "\<forall>x. ra_storage (receivers s' x) = ra_storage (receivers s x)" "senders s' = senders s"
proof -
  have "q_count (queues s q) = 0" using empty q by (auto simp: receive_ready_def Let_def split: if_splits)
  then have e: "contents (queues s q) = []" using empty_count [OF assms(2)] by simp
  note D = queue_repD [OF queues_okD(3) [OF assms(2), of q]]
  have sl: "send_list q s = []" using D(6) e ring_repD(1) [OF D(1)] by fastforce
  show thesis by (rule recv_park [OF assms(1-5) na q nr sl e]) (rule that; assumption)
qed

text \<open>A sender that found the queue full and a receiver that found it
  empty park behind those that already wait, the sender with its value in its own awaiter; the
  task leaves the running state without a place in the ready FIFO.\<close>

theorem queue_waits_parked:
  assumes "sched_inv s" and "queues_ok s" and "current s = Some i" and "st_of s i = Running" and "handle_of s i = h"
  shows "(\<not> sa_linked (senders s a) \<and> fst (send_ready a s) = False \<longrightarrow>
      (\<exists>s'. send_suspend a h s = (True, s') \<and> sched_inv s' \<and> queues_ok s' \<and> ready_list s' = ready_list s \<and>
        st_of s' = (st_of s)(i := Waiting_local) \<and>
        ch_senders (chan_of (sa_queue (senders s a)) s') =
          ch_senders (chan_of (sa_queue (senders s a)) s) @ [(a, sa_value (senders s a))])) \<and>
    (\<not> ra_linked (receivers s r) \<and> \<not> ra_has_result (receivers s r) \<and> fst (receive_ready r s) = False \<longrightarrow>
      (\<exists>s'. receive_suspend r h s = (True, s') \<and> sched_inv s' \<and> queues_ok s' \<and> ready_list s' = ready_list s \<and>
        st_of s' = (st_of s)(i := Waiting_local) \<and>
        ch_receivers (chan_of (ra_queue (receivers s r)) s') = ch_receivers (chan_of (ra_queue (receivers s r)) s) @ [r]))"
proof (intro conjI impI)
  assume a: "\<not> sa_linked (senders s a) \<and> fst (send_ready a s) = False"
  then have "\<not> sa_linked (senders s a)" "fst (do_send (sa_queue (senders s a)) (sa_value (senders s a)) s) = False"
    by (simp_all add: send_ready_def)
  from full_queue_parks [OF assms this(1) refl this(2)] obtain s' where "send_suspend a h s = (True, s')" "q_step s s'"
    "ready_list s' = ready_list s" "st_of s' = (st_of s)(i := Waiting_local)"
    "chan_of (sa_queue (senders s a)) s' = (chan_of (sa_queue (senders s a)) s)
      \<lparr>ch_senders := ch_senders (chan_of (sa_queue (senders s a)) s) @ [(a, sa_value (senders s a))]\<rparr>"
    by (metis (no_types))
  then show "\<exists>s'. send_suspend a h s = (True, s') \<and> sched_inv s' \<and>
        queues_ok s' \<and> ready_list s' = ready_list s \<and> st_of s' = (st_of s)(i := Waiting_local) \<and>
        ch_senders (chan_of (sa_queue (senders s a)) s') =
          ch_senders (chan_of (sa_queue (senders s a)) s) @ [(a, sa_value (senders s a))]"
    by (intro exI [of _ s']) (simp add: q_step_def)
next
  assume a: "\<not> ra_linked (receivers s r) \<and> \<not> ra_has_result (receivers s r) \<and> fst (receive_ready r s) = False"
  then have "\<not> ra_linked (receivers s r)" "\<not> ra_has_result (receivers s r)" "fst (receive_ready r s) = False" by simp_all
  from empty_queue_parks [OF assms this(1) refl this(2,3)] obtain s' where "receive_suspend r h s = (True, s')" "q_step s s'"
    "ready_list s' = ready_list s" "st_of s' = (st_of s)(i := Waiting_local)"
    "chan_of (ra_queue (receivers s r)) s' = (chan_of (ra_queue (receivers s r)) s)
      \<lparr>ch_receivers := ch_receivers (chan_of (ra_queue (receivers s r)) s) @ [r]\<rparr>"
    by (metis (no_types))
  then show "\<exists>s'. receive_suspend r h s = (True, s') \<and> sched_inv s' \<and>
        queues_ok s' \<and> ready_list s' = ready_list s \<and> st_of s' = (st_of s)(i := Waiting_local) \<and>
        ch_receivers (chan_of (ra_queue (receivers s r)) s') = ch_receivers (chan_of (ra_queue (receivers s r)) s) @ [r]"
    by (intro exI [of _ s']) (simp add: q_step_def)
qed

text \<open>A coroutine that is not the running task is not parked by \<open>send\<close>
  or \<open>receive\<close>: the error is reported, it goes on, and its \<open>await_resume\<close> returns the fallback
  value, or never returns when the payload has none.\<close>

theorem queue_foreign_await:
  assumes "\<nexists>i. current s = Some i \<and> st_of s i = Running \<and> handle_of s i = h"
  shows "send_suspend a h s = (False, on_error Invalid_task s) \<and> receive_suspend r h s = (False, on_error Invalid_task s) \<and>
    (\<not> ra_has_result (receivers s r) \<longrightarrow>
      receive_resume fallback r (on_error Invalid_task s) = map_option (\<lambda>v. (v, on_error Invalid_task s)) fallback)"
proof -
  have "running_is h s = (False, on_error Invalid_task s)"
    using running_is_iff [of h s] assms by (cases "running_is h s") auto
  moreover have "receivers (on_error Invalid_task s) = receivers s" by (rule queues_of_more) simp
  ultimately show ?thesis
    by (simp add: send_suspend_def receive_suspend_def park_sender_def park_receiver_def receive_resume_def)
qed

section \<open>Order of the values\<close>

text \<open>
  The runs of a program seen from one queue: \<open>xs\<close> are the values sent so far, in the order of
  the sends, those of parked senders included; \<open>ys\<close> the values that left the channel, in the
  order in which receivers got them. \<open>elsewhere\<close> is any step that leaves this channel alone.
\<close>

inductive queue_run :: "nat \<Rightarrow> ('v, 'a) q_world_scheme \<Rightarrow> 'v list \<Rightarrow> 'v list \<Rightarrow> bool" for q where
  start: "queue_run q s [] []" if "sched_inv s" "queues_ok s" "in_flight (chan_of q s) = []"
| sent: "queue_run q s' (xs @ [v]) (if recv_list q s = [] then ys else ys @ [v])"
    if "queue_run q s xs ys" "do_send q v s = (True, s')"
| send_waits: "queue_run q s' (xs @ [sa_value (senders s a)]) ys"
    if "queue_run q s xs ys" "sa_queue (senders s a) = q" "\<not> sa_linked (senders s a)"
      "send_ready a s = (False, t)" "send_suspend a h s = (True, s')"
| taken: "queue_run q s' xs (ys @ [v])" if "queue_run q s xs ys" "try_receive q s = (Some v, s')"
| received: "queue_run q s' xs (ys @ [v])"
    if "queue_run q s xs ys" "ra_queue (receivers s a) = q" "\<not> ra_linked (receivers s a)"
      "\<not> ra_has_result (receivers s a)" "receive_ready a s = (True, s')" "ra_storage (receivers s' a) = Some v"
| receive_waits: "queue_run q s' xs ys"
    if "queue_run q s xs ys" "ra_queue (receivers s a) = q" "\<not> ra_linked (receivers s a)"
      "\<not> ra_has_result (receivers s a)" "receive_ready a s = (False, t)" "receive_suspend a h s = (True, s')"
| elsewhere: "queue_run q s' xs ys"
    if "queue_run q s xs ys" "sched_inv s'" "queues_ok s'" "chan_of q s' = chan_of q s"

lemma running_of_suspend:
  assumes "send_suspend a h s = (True, s') \<or> receive_suspend r h s = (True, s')"
  shows "\<exists>i. current s = Some i \<and> st_of s i = Running \<and> handle_of s i = h"
proof (rule ccontr)
  assume "\<nexists>i. current s = Some i \<and> st_of s i = Running \<and> handle_of s i = h"
  then have "running_is h s = (False, on_error Invalid_task s)"
    using running_is_iff [of h s] by (cases "running_is h s") auto
  then show False using assms
    by (simp add: send_suspend_def receive_suspend_def park_sender_def park_receiver_def)
qed

text \<open>Each kind of step, in terms of the values in flight.\<close>

lemma sent_in_flight:
  assumes "sched_inv s" "queues_ok s" "do_send q v s = (True, s')"
  shows "sched_inv s'" "queues_ok s'"
    "(if recv_list q s = [] then [] else [v]) @ in_flight (chan_of q s') = in_flight (chan_of q s) @ [v]"
proof -
  have D: "queue_rep q s (contents (queues s q)) (send_list q s) (recv_list q s)"
    by (rule queues_okD(3) [OF assms(2)])
  have ch: "ch_buffer (chan_of q s) = contents (queues s q)" "ch_receivers (chan_of q s) = recv_list q s"
    "ch_senders (chan_of q s) = map (\<lambda>a. (a, sa_value (senders s a))) (send_list q s)"
    "ch_capacity (chan_of q s) = q_capacity (queues s q)"
    by (simp_all add: chan_of_def)
  obtain r c where rc: "chan_send v (chan_of q s) = (r, c)" by fastforce
  then have x: "r \<noteq> Full" "chan_of q s' = c" "sched_inv s'" "queues_ok s'"
    using send_refines [OF assms(1,2), where v = v and q = q] assms(3) by auto
  then show "sched_inv s'" "queues_ok s'" by simp_all
  show "(if recv_list q s = [] then [] else [v]) @ in_flight (chan_of q s') = in_flight (chan_of q s) @ [v]"
  proof (cases "recv_list q s")
    case Nil
    then have "length (contents (queues s q)) < q_capacity (queues s q)" "c = (chan_of q s)\<lparr>ch_buffer := contents (queues s q) @ [v]\<rparr>"
      using rc x(1) by (auto simp: chan_send_def ch split: if_splits)
    moreover from this(1) have "send_list q s = []" using queue_repD(6) [OF D] by fastforce
    ultimately show ?thesis using Nil x(2) by (simp add: in_flight_def ch)
  next
    case (Cons a rs)
    then have "c = (chan_of q s)\<lparr>ch_receivers := rs\<rparr>" using rc by (auto simp: chan_send_def ch)
    moreover have "contents (queues s q) = []" using queue_repD(7) [OF D] Cons by simp
    moreover have "send_list q s = []"
      using queue_repD(6) [OF D] calculation(2) ring_repD(1) [OF queue_repD(1) [OF D]] by fastforce
    ultimately show ?thesis using Cons x(2) by (simp add: in_flight_def ch)
  qed
qed

lemma taken_in_flight:
  assumes "sched_inv s" "queues_ok s" "try_receive q s = (Some v, s')"
  shows "sched_inv s'" "queues_ok s'" "v # in_flight (chan_of q s') = in_flight (chan_of q s)"
proof -
  obtain r c where rc: "chan_receive (chan_of q s) = (r, c)" by fastforce
  then have "r = Some v" "chan_of q s' = c" "sched_inv s'" "queues_ok s'"
    using try_receive_refines [OF assms(1,2), where q = q] assms(3) by auto
  then show "sched_inv s'" "queues_ok s'" "v # in_flight (chan_of q s') = in_flight (chan_of q s)"
    using chan_receive_order [of "chan_of q s"] rc by simp_all
qed

lemma received_in_flight:
  assumes "sched_inv s" "queues_ok s" "ra_queue (receivers s a) = q" "\<not> ra_linked (receivers s a)"
    "\<not> ra_has_result (receivers s a)" "receive_ready a s = (True, s')" "ra_storage (receivers s' a) = Some v"
  shows "sched_inv s'" "queues_ok s'" "v # in_flight (chan_of q s') = in_flight (chan_of q s)"
proof -
  obtain r c where rc: "chan_receive (chan_of q s) = (r, c)" by fastforce
  note x = receive_ready_refines [OF assms(1-5), where fallback = None, unfolded rc assms(6)]
  then obtain w where w: "r = Some w" "chan_of q s' = c" "sched_inv s'" "queues_ok s'" by auto
  with x obtain s'' where s'': "receive_resume None a s' = Some (w, s'')" by auto
  then have "w = v"
    using assms(7) results_okD(1) [OF queues_okD(2) [OF w(4)], of a] by (auto simp: receive_resume_def Let_def)
  then show "sched_inv s'" "queues_ok s'" "v # in_flight (chan_of q s') = in_flight (chan_of q s)"
    using chan_receive_order [of "chan_of q s"] rc w by simp_all
qed

text \<open>The two waiting steps: the channel gains a waiting sender, or only a receiver.\<close>

lemma send_waits_in_flight:
  assumes "sched_inv s" "queues_ok s" "sa_queue (senders s a) = q" "\<not> sa_linked (senders s a)"
    "send_ready a s = (False, t)" "send_suspend a h s = (True, s')"
  shows "sched_inv s'" "queues_ok s'" "in_flight (chan_of q s') = in_flight (chan_of q s) @ [sa_value (senders s a)]"
proof -
  obtain i where i: "current s = Some i" "st_of s i = Running" "handle_of s i = h"
    using running_of_suspend assms(6) by blast
  have "fst (do_send q (sa_value (senders s a)) s) = False"
    using assms(3,5) by (simp add: send_ready_def)
  from full_queue_parks [OF assms(1,2) i assms(4,3) this]
  obtain u where u: "send_suspend a h s = (True, u)" "q_step s u"
    "chan_of q u = (chan_of q s)\<lparr>ch_senders := ch_senders (chan_of q s) @ [(a, sa_value (senders s a))]\<rparr>"
    by (metis (no_types))
  then show "sched_inv s'" "queues_ok s'" "in_flight (chan_of q s') = in_flight (chan_of q s) @ [sa_value (senders s a)]"
    using assms(6) by (simp_all add: q_step_def in_flight_def)
qed

lemma receive_waits_in_flight:
  assumes "sched_inv s" "queues_ok s" "ra_queue (receivers s a) = q" "\<not> ra_linked (receivers s a)"
    "\<not> ra_has_result (receivers s a)" "receive_ready a s = (False, t)" "receive_suspend a h s = (True, s')"
  shows "sched_inv s'" "queues_ok s'" "in_flight (chan_of q s') = in_flight (chan_of q s)"
proof -
  obtain i where i: "current s = Some i" "st_of s i = Running" "handle_of s i = h"
    using running_of_suspend assms(7) by blast
  have "fst (receive_ready a s) = False" using assms(6) by simp
  from empty_queue_parks [OF assms(1,2) i assms(4,3,5) this]
  obtain u where u: "receive_suspend a h s = (True, u)" "q_step s u"
    "chan_of q u = (chan_of q s)\<lparr>ch_receivers := ch_receivers (chan_of q s) @ [a]\<rparr>"
    by (metis (no_types))
  then show "sched_inv s'" "queues_ok s'" "in_flight (chan_of q s') = in_flight (chan_of q s)"
    using assms(7) by (simp_all add: q_step_def in_flight_def)
qed

text \<open>C7. The queue implements the bounded channel: \<open>trySend\<close> (and the
  first step of \<open>send\<close>) and \<open>tryReceive\<close> return what the channel returns and leave what it
  leaves, on every branch. A waiting receiver gets the value in its own result storage and becomes
  ready behind the ready tasks; the oldest waiting sender has its value buffered when room
  appears; a full and an empty queue are left alone; the invariants are kept and no other queue
  is touched.\<close>

theorem queue_refines_channel:
  assumes "sched_inv s" and "queues_ok s"
  shows "(case (chan_send v (chan_of q s), do_send q v s) of
      ((r, c), (b, s')) \<Rightarrow> b = (r \<noteq> Full) \<and> chan_of q s' = c \<and> (\<forall>d. d \<noteq> q \<longrightarrow> chan_of d s' = chan_of d s) \<and>
        sched_inv s' \<and> queues_ok s' \<and>
        (case r of
           Handed a \<Rightarrow> ra_storage (receivers s' a) = Some v \<and> ra_has_result (receivers s' a) \<and>
             ready_list s' = ready_list s @ [the (ra_slot (receivers s a))]
         | Buffered \<Rightarrow> ready_list s' = ready_list s
         | Full \<Rightarrow> s' = s)) \<and>
    (case (chan_receive (chan_of q s), try_receive q s) of
      ((r, c), (out, s')) \<Rightarrow> out = r \<and> chan_of q s' = c \<and> (\<forall>d. d \<noteq> q \<longrightarrow> chan_of d s' = chan_of d s) \<and>
        sched_inv s' \<and> queues_ok s' \<and> (r = None \<longrightarrow> s' = s) \<and>
        ready_list s' = ready_list s @
          (case (r, send_list q s) of (Some _, a # _) \<Rightarrow> [the (sa_slot (senders s a))] | _ \<Rightarrow> []))"
  by (intro conjI send_refines try_receive_refines assms)


section \<open>Lifetimes\<close>

text \<open>C39. The ring implements a bounded list, and no payload object is
  constructed over a live one, read before construction or destroyed twice: a store hits a raw
  cell of the ring, the front cell of a non-empty ring holds the oldest payload and is raw after
  the pop, and draining destroys what is left, so that every cell is raw.\<close>

theorem ring_object_lifetimes:
  assumes "ring_rep qu vs"
  shows "(length vs < q_capacity qu \<longrightarrow> tail_index qu < q_capacity qu \<and> q_cells qu (tail_index qu) = None \<and>
      ring_rep (store_back v qu) (vs @ [v])) \<and>
    (vs \<noteq> [] \<longrightarrow> q_cells qu (q_head qu) = Some (hd vs) \<and> q_cells (pop_front_storage qu) (q_head qu) = None \<and>
      ring_rep (pop_front_storage qu) (tl vs)) \<and>
    (\<forall>i. q_cells (drain qu) i = None)"
proof (intro conjI impI)
  assume "length vs < q_capacity qu"
  then show "tail_index qu < q_capacity qu" "q_cells qu (tail_index qu) = None" "ring_rep (store_back v qu) (vs @ [v])"
    using ring_store [OF assms] ring_repD(1-3) [OF assms] by (auto simp: tail_index_def Let_def)
next
  assume "vs \<noteq> []"
  then obtain w ws where "vs = w # ws" by (cases vs) auto
  then show "q_cells qu (q_head qu) = Some (hd vs)" "q_cells (pop_front_storage qu) (q_head qu) = None"
    "ring_rep (pop_front_storage qu) (tl vs)"
    using ring_pop [of qu w ws] assms by (simp_all add: pop_front_storage_def Let_def)
next
  show "\<forall>i. q_cells (drain qu) i = None" using ring_repD(4) [OF ring_drain [OF assms]] by simp
qed

text \<open>C40. Destroying the frame of a task that waits on a queue takes
  exactly its awaiter out of the list, wherever it stands, wakes nobody and disturbs no other
  waiter, value or queue; the awaiter no longer refers to the queue.\<close>

theorem parked_awaiter_destroyed:
  assumes "sched_inv s" and "queues_ok s"
  shows "(sa_linked (senders s a) \<longrightarrow> (\<exists>s'. send_destructor a s = Some s' \<and>
      chan_of (sa_queue (senders s a)) s' = (chan_of (sa_queue (senders s a)) s)
        \<lparr>ch_senders := filter (\<lambda>p. fst p \<noteq> a) (ch_senders (chan_of (sa_queue (senders s a)) s))\<rparr> \<and>
      (\<forall>d. d \<noteq> sa_queue (senders s a) \<longrightarrow> chan_of d s' = chan_of d s) \<and> ready_list s' = ready_list s \<and>
      sched_inv s' \<and> queues_ok s' \<and> send_destructor a s' = Some s')) \<and>
    (ra_linked (receivers s r) \<longrightarrow> (\<exists>s'. receive_destructor r s = Some s' \<and>
      chan_of (ra_queue (receivers s r)) s' = (chan_of (ra_queue (receivers s r)) s)
        \<lparr>ch_receivers := filter (\<lambda>x. x \<noteq> r) (ch_receivers (chan_of (ra_queue (receivers s r)) s))\<rparr> \<and>
      (\<forall>d. d \<noteq> ra_queue (receivers s r) \<longrightarrow> chan_of d s' = chan_of d s) \<and> ready_list s' = ready_list s \<and>
      sched_inv s' \<and> queues_ok s'))"
proof (intro conjI impI)
  assume a: "sa_linked (senders s a)"
  obtain s' where s': "send_destructor a s = Some s'" "q_step s s'" "quiet s s'" "queue_parked s' \<subseteq> queue_parked s"
    "chan_of (sa_queue (senders s a)) s' = (chan_of (sa_queue (senders s a)) s)
       \<lparr>ch_senders := filter (\<lambda>p. fst p \<noteq> a) (ch_senders (chan_of (sa_queue (senders s a)) s))\<rparr>"
    "\<forall>d. d \<noteq> sa_queue (senders s a) \<longrightarrow> chan_of d s' = chan_of d s" "\<not> sa_linked (senders s' a)" "below_queues s s'"
    "receivers s' = receivers s"
    by (rule send_leave [OF assms a refl])
  have "send_destructor a s' = Some s'" using s'(7) by (simp add: send_destructor_def)
  with s' belowD(3) [OF s'(8)] show "\<exists>s'. send_destructor a s = Some s' \<and>
      chan_of (sa_queue (senders s a)) s' = (chan_of (sa_queue (senders s a)) s)
        \<lparr>ch_senders := filter (\<lambda>p. fst p \<noteq> a) (ch_senders (chan_of (sa_queue (senders s a)) s))\<rparr> \<and>
      (\<forall>d. d \<noteq> sa_queue (senders s a) \<longrightarrow> chan_of d s' = chan_of d s) \<and> ready_list s' = ready_list s \<and>
      sched_inv s' \<and> queues_ok s' \<and> send_destructor a s' = Some s'"
    by (intro exI [of _ s']) (simp add: q_step_def)
next
  assume a: "ra_linked (receivers s r)"
  obtain s' where s': "receive_destructor r s = Some s'" "q_step s s'" "quiet s s'" "queue_parked s' \<subseteq> queue_parked s"
    "chan_of (ra_queue (receivers s r)) s' = (chan_of (ra_queue (receivers s r)) s)
       \<lparr>ch_receivers := filter (\<lambda>x. x \<noteq> r) (ch_receivers (chan_of (ra_queue (receivers s r)) s))\<rparr>"
    "\<forall>d. d \<noteq> ra_queue (receivers s r) \<longrightarrow> chan_of d s' = chan_of d s" "\<not> ra_linked (receivers s' r)" "below_queues s s'"
    "senders s' = senders s" "ra_storage (receivers s' r) = None"
    by (rule recv_leave [OF assms a refl])
  with belowD(3) [OF s'(8)] show "\<exists>s'. receive_destructor r s = Some s' \<and>
      chan_of (ra_queue (receivers s r)) s' = (chan_of (ra_queue (receivers s r)) s)
        \<lparr>ch_receivers := filter (\<lambda>x. x \<noteq> r) (ch_receivers (chan_of (ra_queue (receivers s r)) s))\<rparr> \<and>
      (\<forall>d. d \<noteq> ra_queue (receivers s r) \<longrightarrow> chan_of d s' = chan_of d s) \<and> ready_list s' = ready_list s \<and>
      sched_inv s' \<and> queues_ok s'"
    by (intro exI [of _ s']) (simp add: q_step_def)
qed

text \<open>The two loops of \<open>~Queue()\<close> end: they follow the links, which they do not change.\<close>

lemma detach_senders_all:
  "chain (sa_next_of s) p as \<Longrightarrow> detach_senders p s = Some (fold (\<lambda>a. set_sa_linked a False) as s)"
proof (induction as arbitrary: p s)
  case Nil
  then show ?case by (subst detach_senders.simps) simp
next
  case (Cons a as)
  have n: "sa_next_of (set_sa_linked a False s) = sa_next_of s" by (simp add: fun_upd_idem)
  then have "detach_senders (sa_next_of s a) (set_sa_linked a False s)
      = Some (fold (\<lambda>a. set_sa_linked a False) as (set_sa_linked a False s))"
    by (intro Cons.IH) (use Cons.prems n in \<open>simp del: q_world_upd\<close>)
  then show ?case using Cons.prems n by (subst detach_senders.simps) (simp add: Let_def)
qed

lemma detach_receivers_all:
  "chain (ra_next_of s) p rs \<Longrightarrow> detach_receivers p s = Some (fold (\<lambda>r. set_ra_linked r False) rs s)"
proof (induction rs arbitrary: p s)
  case Nil
  then show ?case by (subst detach_receivers.simps) simp
next
  case (Cons r rs)
  have n: "ra_next_of (set_ra_linked r False s) = ra_next_of s" by (simp add: fun_upd_idem)
  then have "detach_receivers (ra_next_of s r) (set_ra_linked r False s)
      = Some (fold (\<lambda>r. set_ra_linked r False) rs (set_ra_linked r False s))"
    by (intro Cons.IH) (use Cons.prems n in \<open>simp del: q_world_upd\<close>)
  then show ?case using Cons.prems n by (subst detach_receivers.simps) (simp add: Let_def)
qed

lemma fold_sa_linked:
  "queues (fold (\<lambda>a. set_sa_linked a False) as s) = queues s" "receivers (fold (\<lambda>a. set_sa_linked a False) as s) = receivers s"
  "sa_linked (senders (fold (\<lambda>a. set_sa_linked a False) as s) x) = (sa_linked (senders s x) \<and> x \<notin> set as)"
  "sa_queue (senders (fold (\<lambda>a. set_sa_linked a False) as s) x) = sa_queue (senders s x)"
  "below_queues s (fold (\<lambda>a. set_sa_linked a False) as s)"
proof (induction as arbitrary: s)
  case (Cons a as)
  {
    case 1 show ?case using Cons(1) by simp
  next
    case 2 show ?case using Cons(2) by simp
  next
    case 3 show ?case using Cons(3) [of "set_sa_linked a False s"] by auto
  next
    case 4 show ?case using Cons(4) [of "set_sa_linked a False s"] by simp
  next
    case 5 show ?case using below_trans [OF _ Cons(5) [of "set_sa_linked a False s"], of s] by simp
  }
qed simp_all

lemma fold_ra_linked:
  "queues (fold (\<lambda>r. set_ra_linked r False) rs s) = queues s" "senders (fold (\<lambda>r. set_ra_linked r False) rs s) = senders s"
  "ra_linked (receivers (fold (\<lambda>r. set_ra_linked r False) rs s) x) = (ra_linked (receivers s x) \<and> x \<notin> set rs)"
  "ra_queue (receivers (fold (\<lambda>r. set_ra_linked r False) rs s) x) = ra_queue (receivers s x)"
  "below_queues s (fold (\<lambda>r. set_ra_linked r False) rs s)"
proof (induction rs arbitrary: s)
  case (Cons r rs)
  {
    case 1 show ?case using Cons(1) by simp
  next
    case 2 show ?case using Cons(2) by simp
  next
    case 3 show ?case using Cons(3) [of "set_ra_linked r False s"] by auto
  next
    case 4 show ?case using Cons(4) [of "set_ra_linked r False s"] by simp
  next
    case 5 show ?case using below_trans [OF _ Cons(5) [of "set_ra_linked r False s"], of s] by simp
  }
qed simp_all

lemma upd_queue_log: "hook_log (upd_queue q f s) = hook_log s"
  by (simp add: upd_queue_def)

text \<open>\<open>~Queue()\<close> returns; it reports the error exactly when tasks still
  wait, destroys every buffered payload, and unlinks every parked awaiter of this queue and no
  other, so that the destructors of those awaiters, which may run later, do not touch the
  destroyed queue.\<close>

theorem queue_destroyed:
  assumes "queues_ok s"
  shows "\<exists>s'. queue_destructor q s = Some s' \<and>
    hook_log s' = hook_log s @
      (if send_list q s = [] \<and> recv_list q s = [] then [] else [Object_destroyed_with_waiters]) \<and>
    (\<forall>i. q_cells (queues s' q) i = None) \<and> (\<forall>d. d \<noteq> q \<longrightarrow> queues s' d = queues s d) \<and>
    (\<forall>a. sa_linked (senders s' a) = (sa_linked (senders s a) \<and> sa_queue (senders s a) \<noteq> q)) \<and>
    (\<forall>r. ra_linked (receivers s' r) = (ra_linked (receivers s r) \<and> ra_queue (receivers s r) \<noteq> q)) \<and>
    (\<forall>a. sa_queue (senders s a) = q \<longrightarrow> send_destructor a s' = Some s')"
proof -
  note D = queue_repD [OF queues_okD(3) [OF assms, of q]]
  let ?s1 = "fold (\<lambda>a. set_sa_linked a False) (send_list q s) s"
  let ?s2 = "fold (\<lambda>r. set_ra_linked r False) (recv_list q s) ?s1"
  note f1 = fold_sa_linked [where as = "send_list q s" and s = s]
    and f2 = fold_ra_linked [where rs = "recv_list q s" and s = ?s1]
  have d1: "detach_senders (send_head (queues s q)) s = Some ?s1"
    by (rule detach_senders_all) (use D(2) in \<open>simp add: fifo_def\<close>)
  have "chain (ra_next_of ?s1) (recv_head (queues ?s1 q)) (recv_list q s)"
    using D(3) by (simp add: fifo_def f1)
  then have d2: "detach_receivers (recv_head (queues ?s1 q)) ?s1 = Some ?s2" by (rule detach_receivers_all)
  have h: "(send_head (queues s q) \<noteq> None \<or> recv_head (queues s q) \<noteq> None) = (\<not> (send_list q s = [] \<and> recv_list q s = []))"
    using D(2,3) by (cases "send_list q s"; cases "recv_list q s") (auto simp: fifo_def)
  let ?s3 = "if \<not> (send_list q s = [] \<and> recv_list q s = []) then on_error Object_destroyed_with_waiters ?s2 else ?s2"
  let ?s4 = "upd_queue q drain ?s3"
  have e: "queue_destructor q s = Some ?s4"
    using d1 d2 h by (simp add: queue_destructor_def f1(1) f2(1) Let_def)
  have m: "queues ?s3 = queues s" "senders ?s3 = senders ?s1" "receivers ?s3 = receivers ?s2"
    using queues_of_more [of "on_error Object_destroyed_with_waiters ?s2" ?s2] f1 f2 by simp_all
  have b: "below_queues s ?s2" by (rule below_trans [OF f1(5) f2(5)])
  have log: "hook_log ?s4 = hook_log s @
      (if send_list q s = [] \<and> recv_list q s = [] then [] else [Object_destroyed_with_waiters])"
    using belowD(9) [OF b] by (simp add: on_error_def upd_queue_log)
  have cells: "q_cells (queues ?s4 q) i = None" for i
    using ring_repD(4) [OF ring_drain [OF D(1)]] m(1) by simp
  have lk: "sa_linked (senders ?s4 a) = (sa_linked (senders s a) \<and> sa_queue (senders s a) \<noteq> q)"
    "ra_linked (receivers ?s4 r) = (ra_linked (receivers s r) \<and> ra_queue (receivers s r) \<noteq> q)" for a r
    unfolding q_world_upd m using f1(2,3) f2(3) D(4) [of a] D(5) [of r] by auto
  have "send_destructor a ?s4 = Some ?s4" if "sa_queue (senders s a) = q" for a
    using lk(1) [of a] that by (simp add: send_destructor_def)
  then show ?thesis using e log cells lk m(1) by (intro exI [of _ ?s4] conjI allI impI) simp_all
qed

end
