(* ===== verification/Object_Steps.thy ===== *)
theory Object_Steps
  imports Flag_Props Queue_Props
begin

text \<open>
  Events, flags and queues in one program. A parked task waits in exactly one place, so the wake-up
  of one object cannot disturb the list of another: every operation of event.h, threadsafeflag.h
  and queue.h, and every operation of the scheduler itself, keeps the invariants of all objects.
\<close>

section \<open>The invariant of all objects\<close>

definition event_parked :: "'a ev_world_scheme \<Rightarrow> nat set" where
  "event_parked s = {i. \<exists>e. i \<in> set (waiters e s)}"

definition objects_ok :: "('v, 'a) q_world_scheme \<Rightarrow> bool" where
  "objects_ok s \<longleftrightarrow> events_ok s \<and> flags_ok s \<and> queues_ok s \<and>
     event_parked s \<inter> flag_parked s = {} \<and> event_parked s \<inter> queue_parked s = {} \<and>
     flag_parked s \<inter> queue_parked s = {}"

lemma objects_okD:
  assumes "objects_ok s"
  shows "events_ok s" "flags_ok s" "queues_ok s" "event_parked s \<inter> flag_parked s = {}"
    "event_parked s \<inter> queue_parked s = {}" "flag_parked s \<inter> queue_parked s = {}"
  using assms by (simp_all add: objects_ok_def)

lemma parked_local:
  assumes "objects_ok s" and "i \<in> event_parked s \<union> flag_parked s \<union> queue_parked s"
  shows "st_of s i = Waiting_local" "i < max_tasks s"
proof -
  have e: "st_of s i = Waiting_local \<and> i < max_tasks s" if "i \<in> event_parked s"
    using that events_okD(3) [OF objects_okD(1) [OF assms(1)]] by (auto simp: event_parked_def)
  have f: "st_of s i = Waiting_local \<and> i < max_tasks s" if "i \<in> flag_parked s"
    using that flag_repD(4,5) [OF flags_okD [OF objects_okD(2) [OF assms(1)]]] by (auto simp: flag_parked_def)
  have q: "st_of s i = Waiting_local \<and> i < max_tasks s" if "i \<in> queue_parked s"
    using that parked_okD(1) [OF queues_okD(1) [OF objects_okD(3) [OF assms(1)]]] by (fastforce simp: queue_parked_def)
  show "st_of s i = Waiting_local" "i < max_tasks s" using assms(2) e f q by blast+
qed

text \<open>The three kinds of object, each left alone by a step that keeps its parked tasks.\<close>

lemma keep_events:
  assumes "objects_ok s" "events s' = events s" "locals_kept P s s'" "event_parked s \<inter> P = {}"
  shows "events_ok s'" "event_parked s' = event_parked s"
proof -
  have w: "st_of s' i = Waiting_local \<and> next_of s' i = next_of s i" if "i \<in> set (waiters e s)" for e i
    using that parked_local(1) [OF assms(1), of i] assms(3,4) by (auto simp: event_parked_def locals_kept_def)
  have m: "max_tasks s' = max_tasks s" using assms(3) by (simp add: locals_kept_def)
  note k = events_ok_keep [of s s', OF objects_okD(1) [OF assms(1)] m _ w, unfolded assms(2), OF refl]
  show "events_ok s'" by (rule k(1))
  show "event_parked s' = event_parked s" by (simp add: event_parked_def k(2))
qed

lemma keep_flags:
  assumes "objects_ok s" "flags s' = flags s" "armed_head s' = armed_head s" "locals_kept P s s'" "flag_parked s \<inter> P = {}"
  shows "flags_ok s'" "flag_parked s' = flag_parked s"
proof -
  have w: "st_of s' i = Waiting_local" if "i \<in> flag_parked s" for i
    using that parked_local(1) [OF assms(1), of i] assms(4,5) by (auto simp: locals_kept_def)
  have m: "max_tasks s' = max_tasks s" using assms(4) by (simp add: locals_kept_def)
  have "flag_rep s' (armed s)"
    by (rule flag_rep_keep [OF flags_okD [OF objects_okD(2) [OF assms(1)]]]) (use assms(2,3) m w in simp_all)
  then show "flags_ok s'" by (rule flag_rep_armed)
  show "flag_parked s' = flag_parked s" by (rule flag_parked_cong) (simp add: assms(2))
qed

lemma keep_queues:
  assumes "objects_ok s" "queues s' = queues s" "senders s' = senders s" "receivers s' = receivers s"
    "locals_kept P s s'" "queue_parked s \<inter> P = {}"
  shows "queues_ok s'" "queue_parked s' = queue_parked s"
proof -
  have w: "st_of s' i = Waiting_local" if "i \<in> queue_parked s" for i
    using that parked_local(1) [OF assms(1), of i] assms(5,6) by (auto simp: locals_kept_def)
  have m: "max_tasks s' = max_tasks s" using assms(5) by (simp add: locals_kept_def)
  show "queues_ok s'" "queue_parked s' = queue_parked s"
    by (rule queues_ok_keep [OF objects_okD(3) [OF assms(1)] assms(2-4) m w]; assumption)+
qed

text \<open>Fields of the objects, read off the rest of the record.\<close>

lemma objects_of_more:
  fixes s s' :: "('v, 'a) q_world_scheme"
  shows "ev_world.more s' = ev_world.more s \<Longrightarrow> flags s' = flags s \<and> armed_head s' = armed_head s \<and>
      queues s' = queues s \<and> senders s' = senders s \<and> receivers s' = receivers s \<and> q_world.more s' = q_world.more s"
    "flag_world.more s' = flag_world.more s \<Longrightarrow>
      queues s' = queues s \<and> senders s' = senders s \<and> receivers s' = receivers s \<and> q_world.more s' = q_world.more s"
    "sched.more s' = sched.more s \<Longrightarrow> events s' = events s \<and> flags s' = flags s \<and> armed_head s' = armed_head s \<and>
      queues s' = queues s \<and> senders s' = senders s \<and> receivers s' = receivers s \<and> q_world.more s' = q_world.more s"
  by (cases s; cases s'; simp)+

section \<open>One kind of object changes\<close>

text \<open>A step of one kind of object may park the running task there, and nobody else.\<close>

definition parks :: "('v, 'a) q_world_scheme \<Rightarrow> nat set \<Rightarrow> nat set \<Rightarrow> bool" where
  "parks s P P' \<longleftrightarrow> (\<forall>i \<in> P'. i \<in> P \<or> st_of s i \<noteq> Waiting_local)"

lemma parks_subset: "P' \<subseteq> P \<Longrightarrow> parks s P P'"
  by (auto simp: parks_def)

lemma parks_insert: "P' = insert i P \<Longrightarrow> st_of s i = Running \<Longrightarrow> parks s P P'"
  by (auto simp: parks_def)

lemma parks_disjoint:
  assumes "objects_ok s" "parks s P P'" "P \<inter> Q = {}" "Q \<subseteq> event_parked s \<union> flag_parked s \<union> queue_parked s"
  shows "P' \<inter> Q = {}"
  using assms(2,3) parked_local(1) [OF assms(1)] assms(4) unfolding parks_def by blast

lemma disjoint_sym: "P \<inter> Q = {} \<Longrightarrow> Q \<inter> P = {}"
  by blast

lemma event_change:
  assumes ok: "objects_ok s" and "events_ok s'" "ev_world.more s' = ev_world.more s" "locals_kept (event_parked s) s s'"
    and "parks s (event_parked s) (event_parked s')"
  shows "objects_ok s'"
proof -
  note D = objects_okD [OF ok]
  have o: "flags s' = flags s" "armed_head s' = armed_head s" "queues s' = queues s" "senders s' = senders s"
    "receivers s' = receivers s"
    using objects_of_more(1) [OF assms(3)] by simp_all
  note f = keep_flags [OF ok o(1,2) assms(4) disjoint_sym [OF D(4)]]
    and q = keep_queues [OF ok o(3-5) assms(4) disjoint_sym [OF D(5)]]
  have "event_parked s' \<inter> flag_parked s = {}" "event_parked s' \<inter> queue_parked s = {}"
    by (rule parks_disjoint [OF ok assms(5) D(4)], blast, rule parks_disjoint [OF ok assms(5) D(5)], blast)
  then show ?thesis using assms(2) f q D(6) by (simp add: objects_ok_def)
qed

lemma flag_change:
  assumes ok: "objects_ok s" and "flags_ok s'" "events s' = events s" "flag_world.more s' = flag_world.more s"
    "locals_kept (flag_parked s) s s'" and "parks s (flag_parked s) (flag_parked s')"
  shows "objects_ok s'"
proof -
  note D = objects_okD [OF ok]
  have o: "queues s' = queues s" "senders s' = senders s" "receivers s' = receivers s"
    using objects_of_more(2) [OF assms(4)] by simp_all
  note e = keep_events [OF ok assms(3,5) D(4)] and q = keep_queues [OF ok o assms(5) disjoint_sym [OF D(6)]]
  have "flag_parked s' \<inter> event_parked s = {}" "flag_parked s' \<inter> queue_parked s = {}"
    by (rule parks_disjoint [OF ok assms(6) disjoint_sym [OF D(4)]], blast, rule parks_disjoint [OF ok assms(6) D(6)], blast)
  then show ?thesis using assms(2) e q D(5) by (simp add: objects_ok_def disjoint_sym)
qed

lemma queue_change:
  assumes ok: "objects_ok s" and q: "q_step s s'" and p: "parks s (queue_parked s) (queue_parked s')"
  shows "objects_ok s'"
proof -
  note D = objects_okD [OF ok]
  have o: "events s' = events s" "flags s' = flags s" "armed_head s' = armed_head s" "locals_kept (queue_parked s) s s'"
    "queues_ok s'"
    using q by (simp_all add: q_step_def q_outside_def)
  note e = keep_events [OF ok o(1,4) D(5)] and f = keep_flags [OF ok o(2-4) D(6)]
  have "queue_parked s' \<inter> event_parked s = {}" "queue_parked s' \<inter> flag_parked s = {}"
    by (rule parks_disjoint [OF ok p disjoint_sym [OF D(5)]], blast, rule parks_disjoint [OF ok p disjoint_sym [OF D(6)]], blast)
  then show ?thesis using o(5) e f D(4) by (simp add: objects_ok_def disjoint_sym)
qed

text \<open>The objects are left alone: by the scheduler's own operations, and by other parts of the program.\<close>

lemma fields_change:
  assumes ok: "objects_ok s" and "events s' = events s" "flags s' = flags s" "armed_head s' = armed_head s"
    "queues s' = queues s" "senders s' = senders s" "receivers s' = receivers s" "locals_kept {} s s'"
  shows "objects_ok s'"
  using keep_events [OF ok assms(2,8)] keep_flags [OF ok assms(3,4,8)] keep_queues [OF ok assms(5-8)] objects_okD [OF ok]
  unfolding objects_ok_def by simp

lemma sched_change:
  fixes s s' :: "('v, 'a) q_world_scheme"
  assumes ok: "objects_ok s" and "sched.more s' = sched.more s" "locals_kept {} s s'"
  shows "objects_ok s'"
  by (rule fields_change [OF ok _ _ _ _ _ _ assms(3)]) (use objects_of_more(3) [OF assms(2)] in simp_all)

lemma objects_stable:
  fixes s s' :: "('v, 'a) q_world_scheme"
  assumes "objects_ok s" "local_same s s'"
  shows "objects_ok s'"
  by (rule sched_change [OF assms(1)]) (use assms(2) in \<open>simp_all add: local_same_def locals_kept_def\<close>)

section \<open>What the running task may call\<close>

text \<open>
  Awaiter objects that are in a list of parked awaiters. A call that does not suspend keeps every
  invariant and the running task, and links no awaiter; a suspension links at most the awaiter
  it is about. Neither touches what the program keeps beside the library's objects.
\<close>

definition linked :: "('v, 'a) q_world_scheme \<Rightarrow> nat set" where
  "linked s = {a. sa_linked (senders s a) \<or> ra_linked (receivers s a)}"

definition calm :: "('v, 'a) q_world_scheme \<Rightarrow> ('v, 'a) q_world_scheme \<Rightarrow> bool" where
  "calm s s' \<longleftrightarrow> sched_inv s' \<and> objects_ok s' \<and> quiet s s' \<and> linked s' \<subseteq> linked s \<and>
     q_world.more s' = q_world.more s"

definition suspends :: "nat set \<Rightarrow> ('v, 'a) q_world_scheme \<Rightarrow> ('v, 'a) q_world_scheme \<Rightarrow> bool" where
  "suspends A s s' \<longleftrightarrow> sched_inv s' \<and> objects_ok s' \<and> evolves s s' \<and> linked s' \<subseteq> linked s \<union> A \<and>
     q_world.more s' = q_world.more s"

lemma calm_refl: "sched_inv s \<Longrightarrow> objects_ok s \<Longrightarrow> calm s s"
  by (simp add: calm_def)

lemma calm_trans: "calm s t \<Longrightarrow> calm t u \<Longrightarrow> calm s u"
  using quiet_trans [of s t u] by (auto simp: calm_def)

lemma calm_suspends: "calm s t \<Longrightarrow> suspends A t u \<Longrightarrow> suspends A s u"
  using evolves_trans [of s t u] quiet_evolves [of s t] by (auto simp: calm_def suspends_def)

lemma linked_channels:
  assumes "queues_ok s"
  shows "linked s = (\<Union>q. fst ` set (ch_senders (chan_of q s)) \<union> set (ch_receivers (chan_of q s)))"
proof -
  have "sa_linked (senders s a) \<longleftrightarrow> (\<exists>q. a \<in> set (send_list q s))"
    "ra_linked (receivers s a) \<longleftrightarrow> (\<exists>q. a \<in> set (recv_list q s))" for a
    using queue_repD(4,5) [OF queues_okD(3) [OF assms]] by blast+
  then show ?thesis by (auto simp: linked_def chan_of_def image_iff)
qed

lemma linked_add:
  assumes "queues_ok s" "queues_ok s'"
    and "\<And>d. fst ` set (ch_senders (chan_of d s')) \<union> set (ch_receivers (chan_of d s')) \<subseteq>
      fst ` set (ch_senders (chan_of d s)) \<union> set (ch_receivers (chan_of d s)) \<union> {a}"
  shows "linked s' \<subseteq> linked s \<union> {a}"
  unfolding linked_channels [OF assms(1)] linked_channels [OF assms(2)]
proof (rule UN_least)
  fix d
  have "fst ` set (ch_senders (chan_of d s)) \<union> set (ch_receivers (chan_of d s)) \<subseteq>
      (\<Union>q. fst ` set (ch_senders (chan_of q s)) \<union> set (ch_receivers (chan_of q s)))"
    by (rule UN_upper) simp
  then show "fst ` set (ch_senders (chan_of d s')) \<union> set (ch_receivers (chan_of d s')) \<subseteq>
      (\<Union>q. fst ` set (ch_senders (chan_of q s)) \<union> set (ch_receivers (chan_of q s))) \<union> {a}"
    using assms(3) [of d] by (meson Un_mono order.trans subset_refl)
qed

lemma linked_same: "senders s' = senders s \<Longrightarrow> receivers s' = receivers s \<Longrightarrow> linked s' = linked s"
  by (simp add: linked_def)

text \<open>Scheduler operations, and code that changes only the lower records.\<close>

lemma sched_calm:
  fixes s s' :: "('v, 'a) q_world_scheme"
  assumes "objects_ok s" "sched_inv s'" "quiet s s'" "sched.more s' = sched.more s" "locals_kept {} s s'"
  shows "calm s s'"
  using assms objects_of_more(3) [OF assms(4)] sched_change [OF assms(1,4,5)] linked_same [of s' s] by (simp add: calm_def)

lemma core_calm:
  fixes s s' :: "('v, 'a) q_world_scheme"
  assumes "sched_inv s" "objects_ok s" "slots s' = slots s" "max_tasks s' = max_tasks s" "ready_head s' = ready_head s"
    "ready_tail s' = ready_tail s" "ready_count s' = ready_count s" "active_count s' = active_count s"
    "peak_count s' = peak_count s" "current s' = current s" "in_poll s' = in_poll s"
    "shutting_down s' = shutting_down s" "now_us s' = now_us s" "nearest_deadline s' = nearest_deadline s"
    "sched.more s' = sched.more s" "\<exists>es. hook_log s' = hook_log s @ es"
  shows "calm s s'"
proof (rule sched_calm [OF assms(2)])
  show "sched_inv s'" using assms by (subst sched_inv_more [of _ s]) simp_all
  show "quiet s s'" by (rule quiet_core) (use assms in simp_all)
  show "locals_kept {} s s'" using assms by (simp add: locals_kept_def)
qed (rule assms)

lemma create_task_calm:
  fixes s :: "('v, 'a) q_world_scheme"
  assumes "sched_inv s" "objects_ok s"
  shows "calm s (snd (create_task t s))"
  by (rule sched_calm [OF assms(2) _ create_task_quiet(1) [OF assms(1)]])
    (use schedule_inv(1) [OF assms(1), of t] create_task_quiet(2) [OF assms(1), of t]
      in \<open>simp_all add: create_task_def local_same_def locals_kept_def\<close>)

lemma on_error_calm: "sched_inv s \<Longrightarrow> objects_ok s \<Longrightarrow> calm s (on_error e s)"
  for s :: "('v, 'a) q_world_scheme"
  by (rule core_calm) simp_all

text \<open>Events.\<close>

lemma event_calm:
  fixes s s' :: "('v, 'a) q_world_scheme"
  assumes "objects_ok s" "sched_inv s'" "events_ok s'" "quiet s s'" "ev_world.more s' = ev_world.more s"
    "locals_kept (event_parked s) s s'" "event_parked s' \<subseteq> event_parked s"
  shows "calm s s'"
  using assms event_change [OF assms(1,3,5,6) parks_subset [OF assms(7)]] objects_of_more(1) [OF assms(5)]
    linked_same [of s' s] by (simp add: calm_def)

lemma event_set_calm:
  fixes s :: "('v, 'a) q_world_scheme"
  assumes "sched_inv s" "objects_ok s"
  obtains s' where "event_set e s = Some s'" "calm s s'"
proof (rule event_set_inv [OF assms(1) objects_okD(1) [OF assms(2)], of e])
  fix s' assume s': "event_set e s = Some s'" "sched_inv s'" "events_ok s'" "quiet s s'" "waiters e s' = []"
    "\<And>d. d \<noteq> e \<Longrightarrow> waiters d s' = waiters d s" "st_of s' = (\<lambda>i. if i \<in> set (waiters e s) then Ready else st_of s i)"
    "ev_world.more s' = ev_world.more s" "max_tasks s' = max_tasks s"
    "\<And>j. j \<notin> set (waiters e s) \<Longrightarrow> st_of s j = Waiting_local \<Longrightarrow> next_of s' j = next_of s j"
  have "set (waiters d s') \<subseteq> set (waiters d s)" for d using s'(5,6) by (cases "d = e") auto
  then have p: "event_parked s' \<subseteq> event_parked s" by (auto simp: event_parked_def)
  have l: "locals_kept (event_parked s) s s'"
    unfolding locals_kept_def using s'(7,9,10) by (auto simp: event_parked_def)
  show thesis by (rule that [OF s'(1) event_calm [OF assms(2) s'(2-4,8) l p]])
qed

lemma event_clear_calm:
  fixes s :: "('v, 'a) q_world_scheme"
  assumes "sched_inv s" "objects_ok s"
  shows "calm s (event_clear e s)"
proof -
  note c = event_clear_inv [OF assms(1) objects_okD(1) [OF assms(2)]]
  have "locals_kept (event_parked s) s (event_clear e s)" by (simp add: locals_kept_def event_clear_def)
  moreover have "event_parked (event_clear e s) = event_parked s" by (simp add: event_parked_def c(4))
  ultimately show ?thesis by (intro event_calm [OF assms(2) c(1-3)]) (simp_all add: event_clear_def)
qed

lemma event_park_suspends:
  fixes s :: "('v, 'a) q_world_scheme"
  assumes "sched_inv s" "objects_ok s" and run: "current s = Some i" "st_of s i = Running" "handle_of s i = h"
  obtains s' where "event_suspend e h s = (True, s')" "suspends {} s s'"
proof (rule event_park_inv [OF assms(1) objects_okD(1) [OF assms(2)] run, of e])
  fix s' assume s': "event_suspend e h s = (True, s')" "sched_inv s'" "events_ok s'" "evolves s s'"
    "waiters e s' = waiters e s @ [i]" "\<And>d. d \<noteq> e \<Longrightarrow> waiters d s' = waiters d s"
    "st_of s' = (st_of s)(i := Waiting_local)" "ev_world.more s' = ev_world.more s" "max_tasks s' = max_tasks s"
    "\<And>j. j \<notin> set (waiters e s) \<Longrightarrow> j \<noteq> i \<Longrightarrow> next_of s' j = next_of s j"
  have "set (waiters d s') \<subseteq> insert i (set (waiters d s))" for d using s'(5,6) by (cases "d = e") auto
  then have "event_parked s' \<subseteq> insert i (event_parked s)" by (fastforce simp: event_parked_def)
  then have p: "parks s (event_parked s) (event_parked s')" using run(2) by (auto simp: parks_def)
  have l: "locals_kept (event_parked s) s s'"
    unfolding locals_kept_def using s'(7,9,10) run(2) by (auto simp: event_parked_def)
  have "objects_ok s'" by (rule event_change [OF assms(2) s'(3,8) l p])
  then show thesis
    using s' objects_of_more(1) [OF s'(8)] linked_same [of s' s] by (intro that [of s']) (simp_all add: suspends_def)
qed

text \<open>Flags.\<close>

lemma flag_calm:
  fixes s s' :: "('v, 'a) q_world_scheme"
  assumes "objects_ok s" "sched_inv s'" "flags_ok s'" "quiet s s'" "events s' = events s"
    "flag_world.more s' = flag_world.more s" "locals_kept (flag_parked s) s s'" "flag_parked s' \<subseteq> flag_parked s"
  shows "calm s s'"
  using assms flag_change [OF assms(1,3,5-7) parks_subset [OF assms(8)]] objects_of_more(2) [OF assms(6)]
    linked_same [of s' s] by (simp add: calm_def)

text \<open>Changes of signal bits, the pending marker and the semaphore.\<close>

lemma signal_calm:
  fixes s s' :: "('v, 'a) q_world_scheme"
  assumes "sched_inv s" "objects_ok s" "below_flags s s'" "armed_next_of s' = armed_next_of s" "waiter_of s' = waiter_of s"
    "armed_head s' = armed_head s"
  shows "calm s s'"
proof -
  note D = below_flagsD [OF assms(3)]
  note r = flag_rep_signal [OF flags_okD [OF objects_okD(2) [OF assms(2)]] assms(3-6)]
  show ?thesis
    by (rule flag_calm [OF assms(2) _ flag_rep_armed(2) [OF r(1)] D(5,7,9,10)]) (use D(4) assms(1) r(2) in simp_all)
qed

lemma flag_set_below:
  "below_flags s (flag_set f s)" "armed_next_of (flag_set f s) = armed_next_of s"
  "waiter_of (flag_set f s) = waiter_of s" "armed_head (flag_set f s) = armed_head s"
proof -
  have e: "flag_set f s = (let t = (set_signaled f True s)\<lparr>pending := True\<rparr>
      in if signaled s f \<or> \<not> wake_created s then t else t\<lparr>wake_given := True\<rparr>)"
    by (simp add: flag_set_def flag_signal_def platform_wake_scheduler_def Let_def)
  show "below_flags s (flag_set f s)" "armed_next_of (flag_set f s) = armed_next_of s"
    "waiter_of (flag_set f s) = waiter_of s" "armed_head (flag_set f s) = armed_head s"
    by (simp_all add: e Let_def fun_eq_iff)
qed

lemma flag_set_calm: "sched_inv s \<Longrightarrow> objects_ok s \<Longrightarrow> calm s (flag_set f s)"
  by (rule signal_calm [OF _ _ flag_set_below])

lemma set_signaled_calm: "sched_inv s \<Longrightarrow> objects_ok s \<Longrightarrow> calm s (set_signaled f b s)"
  by (rule signal_calm [OF _ _ signal_views(5,1,2,4)])

lemma flag_consume_calm: "sched_inv s \<Longrightarrow> objects_ok s \<Longrightarrow> calm s (snd (flag_consume f s))"
  using set_signaled_calm [of s f False] calm_refl [of s] by (simp add: flag_consume_def)

lemma flag_park_suspends:
  fixes s :: "('v, 'a) q_world_scheme"
  assumes "sched_inv s" "objects_ok s" and run: "current s = Some i" "st_of s i = Running" "handle_of s i = h"
    and w: "waiter_of s f = None"
  obtains s' where "flag_park f h s = (True, s')" "suspends {} s s'"
proof -
  obtain s' where s': "flag_park f h s = (True, s')" "sched_inv s'" "evolves s s'" "flag_rep s' (f # armed s)"
    "flag_parked s' = insert i (flag_parked s)" "locals_kept (flag_parked s) s s'"
    "events s' = events s" "flag_world.more s' = flag_world.more s"
    by (rule flag_park_inv [OF assms(1) flags_okD [OF objects_okD(2) [OF assms(2)]] run w]) (rule that; assumption)
  have "objects_ok s'"
    by (rule flag_change [OF assms(2) flag_rep_armed(2) [OF s'(4)] s'(7,8,6) parks_insert [OF s'(5) run(2)]])
  then show thesis
    using s' objects_of_more(2) [OF s'(8)] linked_same [of s' s] by (intro that [of s']) (simp_all add: suspends_def)
qed

lemma poll_signals_calm:
  fixes s :: "('v, 'a) q_world_scheme"
  assumes "sched_inv s" "objects_ok s"
  obtains s' where "poll_external_signals s = Some s'" "calm s s'"
proof (cases "pending s")
  case False
  then have "poll_external_signals s = Some s" by (simp add: poll_external_signals_def take_pending_def)
  then show thesis using that calm_refl [OF assms] by blast
next
  case True
  let ?s1 = "s\<lparr>pending := False\<rparr>"
  have c1: "calm s ?s1" by (rule signal_calm [OF assms]) simp_all
  then have o1: "sched_inv ?s1" "objects_ok ?s1" by (simp_all add: calm_def)
  note rep = flags_okD [OF objects_okD(2) [OF o1(2)]]
  have h: "armed_head ?s1 = (if armed ?s1 = [] then None else Some (hd (armed ?s1)))"
    using flag_repD(1) [OF rep] by (cases "armed ?s1") auto
  have "\<exists>s'. resolve_loop None (armed_head ?s1) ?s1 = Some s' \<and>
      flag_rep s' ([] @ filter (\<lambda>g. \<not> signaled ?s1 g) (armed ?s1)) \<and> resolved (armed ?s1) ?s1 s'"
    unfolding h by (rule resolve_loop_ends [OF o1(1)]) (use rep in simp_all)
  then obtain s' where s': "resolve_loop None (armed_head ?s1) ?s1 = Some s'" "resolved (armed ?s1) ?s1 s'"
    "flag_rep s' (filter (\<lambda>g. \<not> signaled ?s1 g) (armed ?s1))" by auto
  have r: "sched_inv s'" "quiet ?s1 s'" "locals_kept (flag_parked ?s1) ?s1 s'" "events s' = events ?s1"
    "flag_world.more s' = flag_world.more ?s1" "flag_parked s' \<subseteq> flag_parked ?s1"
    using s'(2) by (auto simp: resolved_def flag_parked_def split: if_splits)
  have "calm ?s1 s'" by (rule flag_calm [OF o1(2) r(1) flag_rep_armed(2) [OF s'(3)] r(2,4,5,3,6)])
  moreover have "poll_external_signals s = Some s'" using True s'(1) by (simp add: poll_external_signals_def take_pending_def)
  ultimately show thesis using that calm_trans [OF c1] by blast
qed

text \<open>Queues.\<close>

lemma queue_calm:
  assumes "objects_ok s" "q_step s s'" "quiet s s'" "queue_parked s' \<subseteq> queue_parked s" "linked s' \<subseteq> linked s"
  shows "calm s s'"
  using assms queue_change [OF assms(1,2) parks_subset [OF assms(4)]] by (simp add: calm_def q_step_def q_outside_def)

lemma do_send_calm:
  assumes "sched_inv s" "objects_ok s"
  shows "calm s (snd (do_send q v s))"
proof (cases "recv_list q s")
  case (Cons a rs)
  obtain i s' where s': "do_send q v s = (True, s')" "q_step s s'" "quiet s s'" "queue_parked s' = queue_parked s - {i}"
    "receivers s' = (receivers s)(a := (receivers s a)\<lparr>ra_next := None, ra_linked := False, ra_storage := Some v, ra_has_result := True\<rparr>)"
    "senders s' = senders s"
    by (rule do_send_handoff [OF assms(1) objects_okD(3) [OF assms(2)] Cons, where v = v]) (rule that; assumption)
  have "linked s' \<subseteq> linked s" unfolding linked_def s'(5,6) by auto
  then show ?thesis using queue_calm [OF assms(2) s'(2,3)] s'(1,4) by auto
next
  case Nil
  note ok = objects_okD(3) [OF assms(2)]
  show ?thesis
  proof (cases "length (contents (queues s q)) < q_capacity (queues s q)")
    case True
    note b = do_send_buffer [OF assms(1) ok Nil True]
    have "linked (upd_queue q (store_back v) s) = linked s" by (rule linked_same) simp_all
    moreover have "quiet s (upd_queue q (store_back v) s)" by (rule belowD(5)) simp
    ultimately show ?thesis using queue_calm [OF assms(2) b(2)] b(1,4) by simp
  next
    case False
    then show ?thesis using do_send_full [OF ok Nil False] calm_refl [OF assms] by simp
  qed
qed

lemma chan_receive_sub:
  assumes "chan_receive c = (r, c')"
  shows "set (ch_senders c') \<subseteq> set (ch_senders c)" "ch_receivers c' = ch_receivers c"
  using assms by (auto simp: chan_receive_def split: list.splits)

lemma linked_sub:
  assumes "queues_ok s" "queues_ok s'"
    and "\<And>d. set (ch_senders (chan_of d s')) \<subseteq> set (ch_senders (chan_of d s))"
    and "\<And>d. set (ch_receivers (chan_of d s')) \<subseteq> set (ch_receivers (chan_of d s))"
  shows "linked s' \<subseteq> linked s"
  unfolding linked_channels [OF assms(1)] linked_channels [OF assms(2)]
  by (intro UN_mono Un_mono image_mono assms(3,4) subset_refl)

lemma chan_receive_linked:
  assumes "queues_ok s" "queues_ok s'" "chan_receive (chan_of q s) = (r, chan_of q s')" "\<forall>d. d \<noteq> q \<longrightarrow> chan_of d s' = chan_of d s"
  shows "linked s' \<subseteq> linked s"
proof (rule linked_sub [OF assms(1,2)])
  fix d show "set (ch_senders (chan_of d s')) \<subseteq> set (ch_senders (chan_of d s))"
    "set (ch_receivers (chan_of d s')) \<subseteq> set (ch_receivers (chan_of d s))"
    using assms(4) chan_receive_sub [OF assms(3)] by (cases "d = q"; simp)+
qed

lemma receive_calm:
  assumes "sched_inv s" "objects_ok s" "contents (queues s q) = v # vs"
  shows "calm s (admit_oldest_sender q (upd_queue q pop_front_storage s))"
proof -
  note ok = objects_okD(3) [OF assms(2)]
  obtain s' where s': "admit_oldest_sender q (upd_queue q pop_front_storage s) = s'" "q_step s s'" "quiet s s'"
    "chan_receive (chan_of q s) = (Some v, chan_of q s')" "\<forall>d. d \<noteq> q \<longrightarrow> chan_of d s' = chan_of d s"
    "queue_parked s' \<subseteq> queue_parked s"
    by (rule receive_step [OF assms(1) ok assms(3)]) (rule that; assumption)
  have "queues_ok s'" using s'(2) by (simp add: q_step_def)
  from queue_calm [OF assms(2) s'(2,3,6) chan_receive_linked [OF ok this s'(4,5)]] show ?thesis by (simp only: s'(1))
qed

lemma try_receive_calm:
  assumes "sched_inv s" "objects_ok s"
  shows "calm s (snd (try_receive q s))"
proof (cases "contents (queues s q)")
  case Nil
  then show ?thesis using empty_count [OF objects_okD(3) [OF assms(2)], of q] calm_refl [OF assms] by (simp add: try_receive_def)
next
  case (Cons v vs)
  then show ?thesis using empty_count [OF objects_okD(3) [OF assms(2)], of q] receive_calm [OF assms Cons]
    by (simp add: try_receive_def Let_def)
qed

text \<open>Awaiter objects that are not in a list may be written.\<close>

lemma sender_calm:
  assumes "sched_inv s" "objects_ok s" "\<not> sa_linked (senders s a)" "\<not> sa_linked (f (senders s a))"
  shows "calm s (upd_sender a f s)"
proof -
  note t = sender_touch [of s a f, OF assms(1) objects_okD(3) [OF assms(2)] assms(3,4)]
  have l: "linked (upd_sender a f s) \<subseteq> linked s" using assms(4) by (auto simp: linked_def split: if_splits)
  have "quiet s (upd_sender a f s)" by (rule belowD(5)) simp
  then show ?thesis using queue_calm [OF assms(2) t(1) _ _ l] t(3) by simp
qed

lemma receiver_calm:
  assumes "sched_inv s" "objects_ok s" "\<not> ra_linked (receivers s a)" "\<not> ra_linked (f (receivers s a))"
    "ra_has_result (f (receivers s a)) = (ra_storage (f (receivers s a)) \<noteq> None)"
  shows "calm s (upd_receiver a f s)"
proof -
  note t = receiver_touch [of s a f, OF assms(1) objects_okD(3) [OF assms(2)] assms(3-5)]
  have l: "linked (upd_receiver a f s) \<subseteq> linked s" using assms(4) by (auto simp: linked_def split: if_splits)
  have "quiet s (upd_receiver a f s)" by (rule belowD(5)) simp
  then show ?thesis using queue_calm [OF assms(2) t(1) _ _ l] t(3) by simp
qed

lemma receive_ready_calm:
  assumes "sched_inv s" "objects_ok s" "\<not> ra_linked (receivers s a)"
  shows "calm s (snd (receive_ready a s))"
proof (cases "contents (queues s (ra_queue (receivers s a)))")
  case Nil
  then show ?thesis using empty_count [OF objects_okD(3) [OF assms(2)]] calm_refl [OF assms(1,2)] by (simp add: receive_ready_def)
next
  case (Cons v vs)
  let ?q = "ra_queue (receivers s a)"
  let ?c = "construct_result a v s"
  have c: "calm s ?c" unfolding construct_result_eq by (rule receiver_calm [OF assms]) (use assms(3) in simp_all)
  then have ok: "sched_inv ?c" "objects_ok ?c" by (simp_all add: calm_def)
  have "contents (queues ?c ?q) = v # vs" using Cons by (simp add: construct_result_eq)
  from calm_trans [OF c receive_calm [OF ok this]]
  show ?thesis using empty_count [OF objects_okD(3) [OF assms(2)], of ?q] front_cell [OF objects_okD(3) [OF assms(2)] Cons] Cons
    by (simp add: receive_ready_def Let_def)
qed

lemma receive_resume_calm:
  assumes "sched_inv s" "objects_ok s" "receive_resume fallback a s = Some (v, s')"
  shows "calm s s'"
proof (cases "ra_has_result (receivers s a)")
  case False
  then show ?thesis using assms(3) calm_refl [OF assms(1,2)] by (auto simp: receive_resume_def)
next
  case True
  then have n: "\<not> ra_linked (receivers s a)"
    using results_okD(2) [OF queues_okD(2) [OF objects_okD(3) [OF assms(2)]], of a] by blast
  have "s' = upd_receiver a (\<lambda>x. x\<lparr>ra_storage := None, ra_has_result := False\<rparr>) s"
    using assms(3) True by (simp add: receive_resume_def Let_def upd_receiver_def)
  moreover have "calm s (upd_receiver a (\<lambda>x. x\<lparr>ra_storage := None, ra_has_result := False\<rparr>) s)"
    by (rule receiver_calm [OF assms(1,2) n]) (use n in simp_all)
  ultimately show ?thesis by simp
qed

lemma leave_linked:
  assumes "queues_ok s" "queues_ok s'" "\<forall>d. d \<noteq> q \<longrightarrow> chan_of d s' = chan_of d s"
    "set (ch_senders (chan_of q s')) \<subseteq> set (ch_senders (chan_of q s))"
    "set (ch_receivers (chan_of q s')) \<subseteq> set (ch_receivers (chan_of q s))"
  shows "linked s' \<subseteq> linked s"
proof (rule linked_sub [OF assms(1,2)])
  fix d show "set (ch_senders (chan_of d s')) \<subseteq> set (ch_senders (chan_of d s))"
    "set (ch_receivers (chan_of d s')) \<subseteq> set (ch_receivers (chan_of d s))"
    using assms(3-5) by (cases "d = q"; simp)+
qed

lemma send_destructor_calm:
  assumes "sched_inv s" "objects_ok s"
  obtains s' where "send_destructor a s = Some s'" "calm s s'" "\<not> sa_linked (senders s' a)"
proof (cases "sa_linked (senders s a)")
  case False
  then show thesis using that calm_refl [OF assms] by (simp add: send_destructor_def)
next
  case True
  note ok = objects_okD(3) [OF assms(2)]
  obtain s' where s': "send_destructor a s = Some s'" "q_step s s'" "quiet s s'" "queue_parked s' \<subseteq> queue_parked s"
    "chan_of (sa_queue (senders s a)) s' = (chan_of (sa_queue (senders s a)) s)
       \<lparr>ch_senders := filter (\<lambda>p. fst p \<noteq> a) (ch_senders (chan_of (sa_queue (senders s a)) s))\<rparr>"
    "\<forall>d. d \<noteq> sa_queue (senders s a) \<longrightarrow> chan_of d s' = chan_of d s" "\<not> sa_linked (senders s' a)"
    by (rule send_leave [OF assms(1) ok True refl]) (rule that; assumption)
  have "queues_ok s'" using s'(2) by (simp add: q_step_def)
  from leave_linked [OF ok this s'(6)] s'(5) have "linked s' \<subseteq> linked s" by auto
  then show thesis by (rule that [OF s'(1) queue_calm [OF assms(2) s'(2-4)] s'(7)])
qed

text \<open>
  A receive awaiter may be destroyed with a result that was never consumed; the object is gone
  afterwards, and \<open>release\<close> lets go of its record.
\<close>

abbreviation "release a \<equiv> upd_receiver a (\<lambda>x. x\<lparr>ra_storage := None, ra_has_result := False\<rparr>)"

lemma release_calm: "sched_inv s \<Longrightarrow> objects_ok s \<Longrightarrow> \<not> ra_linked (receivers s a) \<Longrightarrow> calm s (release a s)"
  by (rule receiver_calm) simp_all

lemma receive_destructor_calm:
  assumes "sched_inv s" "objects_ok s"
  obtains s' where "receive_destructor a s = Some s'" "calm s (release a s')"
proof (cases "ra_linked (receivers s a)")
  case False
  let ?s' = "if ra_has_result (receivers s a) then upd_receiver a (ra_storage_update (\<lambda>_. None)) s else s"
  have "release a ?s' = release a s" by (simp add: upd_receiver_def)
  then have "calm s (release a ?s')" using release_calm [OF assms False] by (simp only:)
  then show thesis using False by (intro that [of ?s']) (simp_all add: receive_destructor_def)
next
  case True
  note ok = objects_okD(3) [OF assms(2)]
  obtain s' where s': "receive_destructor a s = Some s'" "q_step s s'" "quiet s s'" "queue_parked s' \<subseteq> queue_parked s"
    "chan_of (ra_queue (receivers s a)) s' = (chan_of (ra_queue (receivers s a)) s)
       \<lparr>ch_receivers := filter (\<lambda>r. r \<noteq> a) (ch_receivers (chan_of (ra_queue (receivers s a)) s))\<rparr>"
    "\<forall>d. d \<noteq> ra_queue (receivers s a) \<longrightarrow> chan_of d s' = chan_of d s" "\<not> ra_linked (receivers s' a)"
    by (rule recv_leave [OF assms(1) ok True refl]) (rule that; assumption)
  have "queues_ok s'" using s'(2) by (simp add: q_step_def)
  from leave_linked [OF ok this s'(6)] s'(5) have "linked s' \<subseteq> linked s" by auto
  then have c: "calm s s'" by (rule queue_calm [OF assms(2) s'(2-4)])
  then have "sched_inv s'" "objects_ok s'" by (simp_all add: calm_def)
  from calm_trans [OF c release_calm [OF this s'(7)]] show thesis by (rule that [OF s'(1)])
qed

text \<open>Suspensions of the running task \<open>i\<close> on its own handle \<open>h\<close>.\<close>

lemma send_park_suspends:
  assumes "sched_inv s" "objects_ok s" and run: "current s = Some i" "st_of s i = Running" "handle_of s i = h"
    and a: "\<not> sa_linked (senders s a)" and full: "fst (send_ready a s) = False"
  obtains s' where "send_suspend a h s = (True, s')" "suspends {a} s s'"
proof -
  note ok = objects_okD(3) [OF assms(2)]
  let ?q = "sa_queue (senders s a)"
  have "fst (do_send ?q (sa_value (senders s a)) s) = False" using full by (simp add: send_ready_def)
  then obtain s' where s': "send_suspend a h s = (True, s')" "q_step s s'" "evolves s s'" "queue_parked s' = insert i (queue_parked s)"
    "chan_of ?q s' = (chan_of ?q s)\<lparr>ch_senders := ch_senders (chan_of ?q s) @ [(a, sa_value (senders s a))]\<rparr>"
    "\<forall>d. d \<noteq> ?q \<longrightarrow> chan_of d s' = chan_of d s"
    by (rule full_queue_parks [OF assms(1) ok run a refl]) (rule that; assumption)
  have o: "objects_ok s'" by (rule queue_change [OF assms(2) s'(2) parks_insert [OF s'(4) run(2)]])
  have "linked s' \<subseteq> linked s \<union> {a}"
  proof (rule linked_add [OF ok objects_okD(3) [OF o]])
    fix d show "fst ` set (ch_senders (chan_of d s')) \<union> set (ch_receivers (chan_of d s')) \<subseteq>
        fst ` set (ch_senders (chan_of d s)) \<union> set (ch_receivers (chan_of d s)) \<union> {a}"
      using s'(5,6) by (cases "d = ?q") auto
  qed
  then show thesis using o s'(1-3) by (intro that [of s']) (simp_all add: suspends_def q_step_def q_outside_def)
qed

lemma receive_park_suspends:
  assumes "sched_inv s" "objects_ok s" and run: "current s = Some i" "st_of s i = Running" "handle_of s i = h"
    and a: "\<not> ra_linked (receivers s a)" "\<not> ra_has_result (receivers s a)" and empty: "fst (receive_ready a s) = False"
  obtains s' where "receive_suspend a h s = (True, s')" "suspends {a} s s'"
proof -
  note ok = objects_okD(3) [OF assms(2)]
  let ?q = "ra_queue (receivers s a)"
  obtain s' where s': "receive_suspend a h s = (True, s')" "q_step s s'" "evolves s s'" "queue_parked s' = insert i (queue_parked s)"
    "chan_of ?q s' = (chan_of ?q s)\<lparr>ch_receivers := ch_receivers (chan_of ?q s) @ [a]\<rparr>"
    "\<forall>d. d \<noteq> ?q \<longrightarrow> chan_of d s' = chan_of d s"
    by (rule empty_queue_parks [OF assms(1) ok run a(1) refl a(2) empty]) (rule that; assumption)
  have o: "objects_ok s'" by (rule queue_change [OF assms(2) s'(2) parks_insert [OF s'(4) run(2)]])
  have "linked s' \<subseteq> linked s \<union> {a}"
  proof (rule linked_add [OF ok objects_okD(3) [OF o]])
    fix d show "fst ` set (ch_senders (chan_of d s')) \<union> set (ch_receivers (chan_of d s')) \<subseteq>
        fst ` set (ch_senders (chan_of d s)) \<union> set (ch_receivers (chan_of d s)) \<union> {a}"
      using s'(5,6) by (cases "d = ?q") auto
  qed
  then show thesis using o s'(1-3) by (intro that [of s']) (simp_all add: suspends_def q_step_def q_outside_def)
qed

lemma running_locals: "locals_kept {i} s s' \<Longrightarrow> st_of s i = Running \<Longrightarrow> locals_kept {} s s'"
  unfolding locals_kept_def by auto

lemma sched_suspends:
  fixes s s' :: "('v, 'a) q_world_scheme"
  assumes "objects_ok s" "sched_inv s'" "evolves s s'" "sched.more s' = sched.more s" "locals_kept {} s s'"
  shows "suspends A s s'"
  using assms objects_of_more(3) [OF assms(4)] sched_change [OF assms(1,4,5)] linked_same [of s' s] by (simp add: suspends_def)

lemma yield_suspends:
  fixes s :: "('v, 'a) q_world_scheme"
  assumes "sched_inv s" "objects_ok s" and run: "current s = Some i" "st_of s i = Running"
  shows "suspends A s (yield_current s)"
proof (rule sched_suspends [OF assms(2) yield_inv [OF assms(1) run]])
  show "sched.more (yield_current s) = sched.more s" by (simp add: yield_make_ready [OF run(1)])
  show "locals_kept {} s (yield_current s)" unfolding yield_make_ready [OF run(1)]
    by (rule running_locals [OF make_ready_locals [OF assms(1)] run(2)]) simp
qed

lemma arm_locals:
  assumes "sched_inv s" and run: "current s = Some i" "st_of s i = Running"
  shows "locals_kept {} s (arm_current_timer d s)" "sched.more (arm_current_timer d s) = sched.more s"
proof -
  obtain ok dl log where cd: "compute_deadline (now_us s) d 0 (hook_log s) = (ok, dl, log)"
    by (cases "compute_deadline (now_us s) d 0 (hook_log s)") auto
  let ?l = "s\<lparr>hook_log := log\<rparr>"
  have y: "locals_kept {} s (yield_current s)" unfolding yield_make_ready [OF run(1)]
    by (rule running_locals [OF make_ready_locals [OF assms(1)] run(2)]) simp
  have inv: "sched_inv ?l" using assms(1) by (subst sched_inv_more [of _ s]) simp_all
  have "locals_kept {} ?l (yield_current ?l)" unfolding yield_make_ready [of ?l i, simplified, OF run(1)]
    by (rule running_locals [OF make_ready_locals [OF inv]]) (use run(2) in simp_all)
  then have l: "locals_kept {} s (yield_current ?l)" by (simp add: locals_kept_def)
  show "locals_kept {} s (arm_current_timer d s)"
    using y l run cd by (auto simp: arm_current_timer_def Let_def locals_kept_def)
  show "sched.more (arm_current_timer d s) = sched.more s"
    using run cd by (simp add: arm_current_timer_def Let_def yield_make_ready)
qed

lemma delay_suspends:
  fixes s :: "('v, 'a) q_world_scheme"
  assumes "sched_inv s" "objects_ok s" and run: "current s = Some i" "st_of s i = Running"
  shows "suspends A s (arm_current_timer d s)"
  by (rule sched_suspends [OF assms(2) arm_inv [OF assms(1) run] arm_locals(2,1) [OF assms(1) run]])

text \<open>
  Awaiting a child: what the two failure branches leave is what the destruction of the child's
  frame left, but for the scheduler.
\<close>

lemma start_child_objects:
  fixes s :: "('v, 'a) q_world_scheme"
  assumes inv: "sched_inv s" "objects_ok s" and run: "current s = Some p" "st_of s p = Running"
    and d: "d = co_destroy co f s" "sched_inv d" "objects_ok d" "quiet s d"
  obtains b s' u where "start_child co (Some f) awaiting s = (b, s')" "sched_inv s'" "objects_ok s'" "evolves s s'"
    "b \<or> quiet s s'" "u \<in> {s, d}" "sched.more s' = sched.more u"
proof -
  note result = that
  note sc = start_child_inv [OF inv(1) d(2,4) [unfolded d(1)], of awaiting]
  have eq: "start_child co (Some f) awaiting s = (b, s') \<Longrightarrow> sched_inv s' \<and> evolves s s'" for b s'
    using sc by (simp add: start_child_def)
  have out: thesis if "start_child co (Some f) awaiting s = (b, s')" "b \<or> quiet s s'" "u \<in> {s, d}"
    "sched.more s' = sched.more u" "locals_kept {} u s'" for b s' u
  proof -
    have "objects_ok u" using that(3) inv(2) d(3) by auto
    from sched_change [OF this that(4,5)] show thesis using that eq [OF that(1)] by (intro result [of b s' u]) auto
  qed
  show thesis
  proof (cases "handle_of s p = awaiting")
    case False
    then have "start_child co (Some f) awaiting s = (False, on_error Invalid_task d)"
      using run by (simp add: start_child_def start_child_cases handle_destroy_def d(1))
    then show thesis
      by (rule out [where u = d]) (simp_all add: locals_kept_def quiet_trans [OF d(4) quiet_on_error])
  next
    case h: True
    show thesis
    proof (cases "fst (acquire_slot s)")
      case None
      then have a: "acquire_slot s = (None, s)" using acquire_slot_shape [of s] by auto
      have r: "st_of d p = Running" using d(4) run(2) by (simp add: quiet_def)
      have "start_child co (Some f) awaiting s = (True, on_error Task_limit (make_ready p d))"
        using run h a by (simp add: start_child_def start_child_cases handle_destroy_def d(1))
      moreover have "locals_kept {} d (on_error Task_limit (make_ready p d))"
        using running_locals [OF make_ready_locals [OF d(2), of p "{p}"] r] by (simp add: locals_kept_def)
      ultimately show thesis by (intro out [where u = d and b = True]) simp_all
    next
      case (Some k)
      then have a: "acquire_slot s = (Some k, set_generation k (gen_of s k + 1) s)" using acquire_slot_shape [of s] by auto
      note aq = acquire_Some [OF a]
      let ?g = "set_generation k (gen_of s k + 1) s"
      let ?s' = "set_state p Waiting_child (adopt k (Some f) (Some p) ?g)"
      have e: "start_child co (Some f) awaiting s = (True, ?s')"
        using run h a by (simp add: start_child_def start_child_cases)
      have rg: "ready_ok ?g" using inv(1) sched_invD(5) [of ?g] by simp
      have n: "next_of ?s' j = next_of s j" if "st_of s j = Waiting_local" for j
      proof -
        have "j \<noteq> k" using that aq(2) by auto
        then show ?thesis using adopt_next_other [OF rg, of j k] that by simp
      qed
      have "locals_kept {} s ?s'" unfolding locals_kept_def using n aq(2) run(2) by auto
      with e show thesis by (intro out [where u = s and b = True]) simp_all
    qed
  qed
qed

end
