(* ===== verification/Board.thy ===== *)
theory Board
  imports Platform_Clock
begin

text \<open>
  What a sketch sees of its board: its own static variables, the clock of
  \<open>platform_now_us()\<close>, whether the code runs in an interrupt handler, and the calls of the
  Arduino core, of which only the order is kept. None of it is shared with the library.
\<close>

datatype device_call =
    Serial_begin nat
  | Print string
  | Println string
  | Print_int int
  | Println_int int
  | Output_pin nat
  | Input_pullup_pin nat
  | Digital_write nat bool
  | Wait_ms nat
  | Attach_interrupt nat
  | Start_timer nat
  | Stop_timer

text \<open>\<open>clock_reads\<close> are the values that successive reads of the clock return.\<close>

record board =
  statics :: "nat \<Rightarrow> int"
  device_log :: "device_call list"
  clock_reads :: "nat \<Rightarrow> tick_t"
  clock_count :: nat
  in_interrupt :: bool

datatype board_call =
    Load nat
  | Store nat int
  | Device device_call
  | Read_clock
  | In_isr_context

datatype board_answer = Nothing | Value int | Flag bool

fun board_do :: "board_call \<Rightarrow> board \<Rightarrow> board_answer \<times> board" where
  "board_do (Load v) b = (Value (statics b v), b)"
| "board_do (Store v n) b = (Nothing, b\<lparr>statics := (statics b)(v := n)\<rparr>)"
| "board_do (Device d) b = (Nothing, b\<lparr>device_log := device_log b @ [d]\<rparr>)"
| "board_do Read_clock b = (Value (uint (clock_reads b (clock_count b))), b\<lparr>clock_count := clock_count b + 1\<rparr>)"
| "board_do In_isr_context b = (Flag (in_interrupt b), b)"

end
