(* ===== verification/Programs.thy ===== *)
theory Programs
  imports Object_Steps Board
begin

text \<open>
  Programs built on the library. The body of a coroutine is a tree of calls and \<open>co_await\<close>
  expressions that branches over their answers; loops may be infinite. A frame holds the point
  where its coroutine is suspended, with the awaiter object of a pending \<open>co_await\<close>; resuming
  it runs the body to the next suspension by the rules of C++ coroutines (\<open>await_ready\<close>,
  \<open>await_suspend\<close>, \<open>await_resume\<close>, the awaiter's destructor). The main result instantiates
  the scheduler's interfaces with all such programs at once.
\<close>

section \<open>Coroutine bodies and frames\<close>

text \<open>The operands of \<open>co_await\<close>, and the awaiter objects; queue awaiters have an address.\<close>

datatype 'v operand =
    On_yield
  | On_delay tick_t
  | On_event nat
  | On_flag nat
  | On_send nat 'v
  | On_receive nat
  | On_task nat

datatype awaiter =
    Yield_awaiter
  | Delay_awaiter tick_t
  | Event_awaiter nat
  | Flag_awaiter nat
  | Send_awaiter nat
  | Receive_awaiter nat
  | Child_awaiter task_awaiter

text \<open>
  What never suspends: calls of the library and requests to the board. \<open>New_task\<close> calls a coroutine function with the body \<open>'p\<close>;
  \<open>Is_current_valid\<close> is \<open>current_task().valid()\<close>, \<open>Owns_frame\<close> is \<open>Task::operator bool\<close>.
\<close>

datatype ('v, 'p) call =
    Set_event nat
  | Clear_event nat
  | Is_event_set nat
  | Set_flag nat
  | Clear_flag nat
  | Is_flag_set nat
  | Try_send nat 'v
  | Try_receive nat
  | New_task nat nat 'p
  | Move_task nat nat
  | Assign_task nat nat
  | Drop_task nat
  | Create_task nat
  | Spawn_task nat
  | Report error
  | Is_current_valid
  | Owns_frame nat
  | Board board_call

datatype 'v answer = Unit | Truth bool | Payload "'v option" | Created task_handle | From_board board_answer

codatatype 'v script =
    Co_return
  | Co_await "'v operand" "'v answer \<Rightarrow> 'v script"
  | Call "('v, 'v script) call" "'v answer \<Rightarrow> 'v script"

text \<open>\<open>initial_suspend\<close> and \<open>final_suspend\<close> of the promise always suspend (task.h).\<close>

datatype 'v frame =
    Initial "'v script"
  | In_await awaiter "'v answer \<Rightarrow> 'v script"
  | Final

record 'v world = "'v q_world" +
  frames :: "nat \<Rightarrow> 'v frame option"
  next_awaiter :: nat
  board :: board

definition set_frame :: "nat \<Rightarrow> 'v frame option \<Rightarrow> ('v, 'a) world_scheme \<Rightarrow> ('v, 'a) world_scheme" where
  "set_frame f x s = s\<lparr>frames := (frames s)(f := x)\<rparr>"

section \<open>Destroying a frame\<close>

text \<open>A suspended coroutine without a pending awaiter, and the frame's \<open>operator delete\<close>.\<close>

definition free_frame :: "target \<Rightarrow> nat \<Rightarrow> ('v, 'a) world_scheme \<Rightarrow> ('v, 'a) world_scheme" where
  "free_frame c f s =
     (let s1 = set_frame f None s
      in case frame_delete c (Some f) s1 of None \<Rightarrow> s1 | Some s2 \<Rightarrow> s2)"

text \<open>The awaiter's destructor. A child still owned by its awaiter was never started.\<close>

definition await_end :: "target \<Rightarrow> awaiter \<Rightarrow> ('v, 'a) world_scheme \<Rightarrow> ('v, 'a) world_scheme option" where
  "await_end c a s =
     (case a of
        Send_awaiter x \<Rightarrow> send_destructor x s
      | Receive_awaiter x \<Rightarrow> map_option (release x) (receive_destructor x s)
      | Child_awaiter x \<Rightarrow> Some (awaiter_destructor (free_frame c) x s)
      | _ \<Rightarrow> Some s)"

definition destroy_frame :: "target \<Rightarrow> nat \<Rightarrow> ('v, 'a) world_scheme \<Rightarrow> ('v, 'a) world_scheme" where
  "destroy_frame c f s =
     (case frames s f of
        Some (In_await a k) \<Rightarrow> (case await_end c a s of None \<Rightarrow> s | Some s1 \<Rightarrow> free_frame c f s1)
      | _ \<Rightarrow> free_frame c f s)"

section \<open>\<open>co_await\<close>\<close>

text \<open>The awaiter object is constructed.\<close>

definition await_begin :: "'v operand \<Rightarrow> ('v, 'a) world_scheme \<Rightarrow> awaiter \<times> ('v, 'a) world_scheme" where
  "await_begin w s =
     (let a = next_awaiter s; s1 = s\<lparr>next_awaiter := a + 1\<rparr>
      in case w of
           On_yield \<Rightarrow> (Yield_awaiter, s)
         | On_delay d \<Rightarrow> (Delay_awaiter d, s)
         | On_event e \<Rightarrow> (Event_awaiter e, s)
         | On_flag g \<Rightarrow> (Flag_awaiter g, s)
         | On_send q v \<Rightarrow> (Send_awaiter a, queue_send q v a s1)
         | On_receive q \<Rightarrow> (Receive_awaiter a, queue_receive q a s1)
         | On_task t \<Rightarrow> (case task_co_await t s of (x, s2) \<Rightarrow> (Child_awaiter x, s2)))"

definition await_ready :: "awaiter \<Rightarrow> ('v, 'a) world_scheme \<Rightarrow> bool \<times> ('v, 'a) world_scheme" where
  "await_ready a s =
     (case a of
        Event_awaiter e \<Rightarrow> (event_ready e s, s)
      | Flag_awaiter g \<Rightarrow> flag_consume g s
      | Send_awaiter x \<Rightarrow> send_ready x s
      | Receive_awaiter x \<Rightarrow> receive_ready x s
      | Child_awaiter x \<Rightarrow> (awaiter_ready x, s)
      | _ \<Rightarrow> (False, s))"

text \<open>The scheduler destroys a child it rejects; rejected children were never started.\<close>

definition unstarted :: "target \<Rightarrow> ('v, 'a) world_scheme coro" where
  "unstarted c = \<lparr>co_resume = (\<lambda>f s. s), co_done = (\<lambda>f s. False), co_destroy = free_frame c\<rparr>"

definition await_suspend ::
    "target \<Rightarrow> nat option \<Rightarrow> awaiter \<Rightarrow> ('v, 'a) world_scheme \<Rightarrow> bool \<times> awaiter \<times> ('v, 'a) world_scheme" where
  "await_suspend c h a s =
     (case a of
        Yield_awaiter \<Rightarrow> (True, a, yield_suspend h s)
      | Delay_awaiter d \<Rightarrow> (True, a, delay_suspend d h s)
      | Event_awaiter e \<Rightarrow> (case event_suspend e h s of (b, s1) \<Rightarrow> (b, a, s1))
      | Flag_awaiter g \<Rightarrow> (case flag_park g h s of (b, s1) \<Rightarrow> (b, a, s1))
      | Send_awaiter x \<Rightarrow> (case send_suspend x h s of (b, s1) \<Rightarrow> (b, a, s1))
      | Receive_awaiter x \<Rightarrow> (case receive_suspend x h s of (b, s1) \<Rightarrow> (b, a, s1))
      | Child_awaiter x \<Rightarrow>
          (case awaiter_suspend (start_child (unstarted c)) h x s of (b, y, s1) \<Rightarrow> (b, Child_awaiter y, s1)))"

text \<open>\<open>fallback\<close> is \<open>T{}\<close> for a default-constructible payload (queue.h).\<close>

definition await_resume ::
    "'v option \<Rightarrow> awaiter \<Rightarrow> ('v, 'a) world_scheme \<Rightarrow> ('v answer \<times> ('v, 'a) world_scheme) option" where
  "await_resume fallback a s =
     (case a of
        Receive_awaiter x \<Rightarrow> map_option (\<lambda>(v, s1). (Payload (Some v), s1)) (receive_resume fallback x s)
      | Child_awaiter x \<Rightarrow> Some (Unit, awaiter_resume x s)
      | _ \<Rightarrow> Some (Unit, s))"

text \<open>The end of the expression: its value, then the awaiter is destroyed.\<close>

definition await_finish ::
    "target \<Rightarrow> 'v option \<Rightarrow> awaiter \<Rightarrow> ('v, 'a) world_scheme \<Rightarrow> ('v answer \<times> ('v, 'a) world_scheme) option" where
  "await_finish c fallback a s =
     (case await_resume fallback a s of
        None \<Rightarrow> None
      | Some (x, s1) \<Rightarrow> map_option (Pair x) (await_end c a s1))"

text \<open>The result is the value, or the awaiter on which the coroutine is now suspended.\<close>

definition co_await ::
    "target \<Rightarrow> 'v option \<Rightarrow> nat option \<Rightarrow> 'v operand \<Rightarrow> ('v, 'a) world_scheme \<Rightarrow>
     (('v answer + awaiter) \<times> ('v, 'a) world_scheme) option" where
  "co_await c fallback h w s =
     (case await_begin w s of (a, s1) \<Rightarrow>
        (case await_ready a s1 of
           (True, s2) \<Rightarrow> map_option (map_prod Inl id) (await_finish c fallback a s2)
         | (False, s2) \<Rightarrow>
             (case await_suspend c h a s2 of
                (True, b, s3) \<Rightarrow> Some (Inr b, s3)
              | (False, b, s3) \<Rightarrow> map_option (map_prod Inl id) (await_finish c fallback b s3))))"

section \<open>Running a body\<close>

text \<open>
  A \<open>Task\<close> object is constructed where no live one is: a call that would construct one over
  an owner of a frame is not a C++ program, and has no result.
\<close>

definition do_call ::
    "target \<Rightarrow> ('v, 'v script) call \<Rightarrow> ('v, 'a) world_scheme \<Rightarrow> ('v answer \<times> ('v, 'a) world_scheme) option" where
  "do_call c x s =
     (case x of
        Set_event e \<Rightarrow> map_option (Pair Unit) (event_set e s)
      | Clear_event e \<Rightarrow> Some (Unit, event_clear e s)
      | Is_event_set e \<Rightarrow> Some (Truth (event_is_set e s), s)
      | Set_flag g \<Rightarrow> Some (Unit, flag_set g s)
      | Clear_flag g \<Rightarrow> Some (Unit, flag_clear g s)
      | Is_flag_set g \<Rightarrow> Some (Truth (flag_is_set g s), s)
      | Try_send q v \<Rightarrow> Some (map_prod Truth id (try_send q v s))
      | Try_receive q \<Rightarrow> Some (map_prod Payload id (try_receive q s))
      | New_task sz t p \<Rightarrow>
          if task_bool t s then None
          else map_option (\<lambda>s1. (Unit, case tasks s1 t of None \<Rightarrow> s1 | Some f \<Rightarrow> set_frame f (Some (Initial p)) s1))
                 (coroutine_call c sz t s)
      | Move_task t u \<Rightarrow> if task_bool t s then None else Some (Unit, task_move t u s)
      | Assign_task t u \<Rightarrow> Some (Unit, task_assign (destroy_frame c) t u s)
      | Drop_task t \<Rightarrow> Some (Unit, task_destructor (destroy_frame c) t s)
      | Create_task t \<Rightarrow> Some (map_prod Created id (create_task t s))
      | Spawn_task t \<Rightarrow> Some (Unit, spawn t s)
      | Report e \<Rightarrow> Some (Unit, on_error e s)
      | Is_current_valid \<Rightarrow> Some (Truth (th_valid s (current_task s)), s)
      | Owns_frame t \<Rightarrow> Some (Truth (task_bool t s), s)
      | Board x \<Rightarrow> Some (case board_do x (board s) of (y, b) \<Rightarrow> (From_board y, s\<lparr>board := b\<rparr>)))"

text \<open>The coroutine of frame \<open>f\<close> runs until it suspends or returns; \<open>None\<close> is a body that never does.\<close>

partial_function (option) run_body ::
    "target \<Rightarrow> 'v option \<Rightarrow> nat \<Rightarrow> 'v script \<Rightarrow> ('v, 'a) world_scheme \<Rightarrow> ('v, 'a) world_scheme option" where
  "run_body c fallback f p s =
     (case p of
        Co_return \<Rightarrow> Some (set_frame f (Some Final) s)
      | Call x k \<Rightarrow>
          (case do_call c x s of None \<Rightarrow> None | Some (y, s1) \<Rightarrow> run_body c fallback f (k y) s1)
      | Co_await w k \<Rightarrow>
          (case co_await c fallback (Some f) w s of
             None \<Rightarrow> None
           | Some (Inl y, s1) \<Rightarrow> run_body c fallback f (k y) s1
           | Some (Inr a, s1) \<Rightarrow> Some (set_frame f (Some (In_await a k)) s1)))"

text \<open>Resuming a frame that is destroyed or at its end is not defined.\<close>

definition resume_frame ::
    "target \<Rightarrow> 'v option \<Rightarrow> nat \<Rightarrow> ('v, 'a) world_scheme \<Rightarrow> ('v, 'a) world_scheme option" where
  "resume_frame c fallback f s =
     (case frames s f of
        Some (Initial p) \<Rightarrow> run_body c fallback f p s
      | Some (In_await a k) \<Rightarrow>
          (case await_finish c fallback a s of None \<Rightarrow> None | Some (y, s1) \<Rightarrow> run_body c fallback f (k y) s1)
      | _ \<Rightarrow> None)"

definition frame_done :: "nat \<Rightarrow> ('v, 'a) world_scheme \<Rightarrow> bool" where
  "frame_done f s \<longleftrightarrow> (case frames s f of Some Final \<Rightarrow> True | _ \<Rightarrow> False)"

text \<open>
  The coroutines of the program. A resumption that never ends has no next state; leaving the
  state as it is only adds states to those the program can reach.
\<close>

definition program :: "target \<Rightarrow> 'v option \<Rightarrow> ('v, 'a) world_scheme coro" where
  "program c fallback =
     \<lparr>co_resume = (\<lambda>f s. case resume_frame c fallback f s of None \<Rightarrow> s | Some s' \<Rightarrow> s'),
      co_done = frame_done, co_destroy = destroy_frame c\<rparr>"

definition resolve_signals :: "('v, 'a) world_scheme \<Rightarrow> ('v, 'a) world_scheme" where
  "resolve_signals s = (case poll_external_signals s of None \<Rightarrow> s | Some s' \<Rightarrow> s')"

section \<open>The invariant of a program\<close>

definition program_ok :: "('v, 'a) world_scheme \<Rightarrow> bool" where
  "program_ok s \<longleftrightarrow> objects_ok s \<and> (\<forall>a \<in> linked s. a < next_awaiter s)"

definition tame :: "('v, 'a) world_scheme \<Rightarrow> ('v, 'a) world_scheme \<Rightarrow> bool" where
  "tame s s' \<longleftrightarrow> sched_inv s' \<and> program_ok s' \<and> quiet s s'"

definition yields :: "('v, 'a) world_scheme \<Rightarrow> ('v, 'a) world_scheme \<Rightarrow> bool" where
  "yields s s' \<longleftrightarrow> sched_inv s' \<and> program_ok s' \<and> evolves s s'"

lemma tameD: "tame s s' \<Longrightarrow> sched_inv s'" "tame s s' \<Longrightarrow> program_ok s'" "tame s s' \<Longrightarrow> quiet s s'"
  by (simp_all add: tame_def)

lemma tame_refl: "sched_inv s \<Longrightarrow> program_ok s \<Longrightarrow> tame s s"
  by (simp add: tame_def)

lemma tame_trans: "tame s t \<Longrightarrow> tame t u \<Longrightarrow> tame s u"
  using quiet_trans [of s t u] by (simp add: tame_def)

lemma tame_yields: "tame s t \<Longrightarrow> yields t u \<Longrightarrow> yields s u"
  using evolves_trans [of s t u] quiet_evolves [of s t] by (simp add: tame_def yields_def)

lemma world_of_more:
  fixes s s' :: "('v, 'a) world_scheme"
  assumes "q_world.more s' = q_world.more s"
  shows "frames s' = frames s" "next_awaiter s' = next_awaiter s" "board s' = board s"
  using assms by (cases s; cases s'; simp)+

lemma calm_tame:
  fixes s s' :: "('v, 'a) world_scheme"
  assumes "program_ok s" "calm s s'"
  shows "tame s s'"
  using assms world_of_more(2) [of s' s] unfolding calm_def tame_def program_ok_def by auto

lemma suspends_yields:
  fixes s s' :: "('v, 'a) world_scheme"
  assumes "program_ok s" "suspends A s s'" "\<And>a. a \<in> A \<Longrightarrow> a < next_awaiter s"
  shows "yields s s'"
  using assms world_of_more(2) [of s' s] unfolding suspends_def yields_def program_ok_def by auto

text \<open>The program's own part of the world.\<close>

lemma own_tame:
  fixes s :: "('v, 'a) world_scheme"
  assumes "sched_inv s" "program_ok s" "next_awaiter s \<le> n"
  shows "tame s (s\<lparr>frames := x, next_awaiter := n, board := b\<rparr>)"
proof -
  let ?s = "s\<lparr>frames := x, next_awaiter := n, board := b\<rparr>"
  have "sched_inv ?s" using assms(1) by (subst sched_inv_more [of _ s]) simp_all
  moreover have "quiet s ?s" by (rule quiet_core) simp_all
  moreover have "objects_ok ?s"
    by (rule fields_change [of s]) (use assms(2) in \<open>simp_all add: program_ok_def locals_kept_def\<close>)
  moreover have "linked ?s = linked s" by (rule linked_same) simp_all
  ultimately show ?thesis using assms(2,3) unfolding tame_def program_ok_def by auto
qed

lemma set_frame_tame:
  assumes "sched_inv s" "program_ok s"
  shows "tame s (set_frame f x s)"
proof -
  have "set_frame f x s = s\<lparr>frames := (frames s)(f := x), next_awaiter := next_awaiter s, board := board s\<rparr>"
    by (simp add: set_frame_def)
  then show ?thesis using own_tame [OF assms, where n = "next_awaiter s" and x = "(frames s)(f := x)" and b = "board s"] by simp
qed

section \<open>Destruction is tame\<close>

lemma core_tame:
  fixes s s' :: "('v, 'a) world_scheme"
  assumes "sched_inv s" "program_ok s" "slots s' = slots s" "max_tasks s' = max_tasks s" "ready_head s' = ready_head s"
    "ready_tail s' = ready_tail s" "ready_count s' = ready_count s" "active_count s' = active_count s"
    "peak_count s' = peak_count s" "current s' = current s" "in_poll s' = in_poll s"
    "shutting_down s' = shutting_down s" "now_us s' = now_us s" "nearest_deadline s' = nearest_deadline s"
    "sched.more s' = sched.more s" "\<exists>es. hook_log s' = hook_log s @ es"
  shows "tame s s'"
  by (rule calm_tame [OF assms(2) core_calm [OF assms(1) _ assms(3-)]]) (use assms(2) in \<open>simp add: program_ok_def\<close>)

lemma frame_delete_fields:
  assumes "frame_delete c p s = Some s'"
  shows "slots s' = slots s" "max_tasks s' = max_tasks s" "ready_head s' = ready_head s"
    "ready_tail s' = ready_tail s" "ready_count s' = ready_count s" "active_count s' = active_count s"
    "peak_count s' = peak_count s" "current s' = current s" "in_poll s' = in_poll s"
    "shutting_down s' = shutting_down s" "now_us s' = now_us s" "nearest_deadline s' = nearest_deadline s"
    "sched.more s' = sched.more s" "\<exists>es. hook_log s' = hook_log s @ es"
  using assms by (auto simp: frame_delete_def split: option.splits)

lemma free_frame_tame:
  assumes "sched_inv s" "program_ok s"
  shows "tame s (free_frame c f s)"
proof -
  have t: "tame s (set_frame f None s)" by (rule set_frame_tame [OF assms])
  show ?thesis
  proof (cases "frame_delete c (Some f) (set_frame f None s)")
    case None
    then show ?thesis using t by (simp add: free_frame_def)
  next
    case (Some s2)
    have "tame (set_frame f None s) s2" by (rule core_tame [OF tameD(1,2) [OF t] frame_delete_fields [OF Some]])
    from tame_trans [OF t this] Some show ?thesis by (simp add: free_frame_def)
  qed
qed

lemma await_end_tame:
  assumes "sched_inv s" "program_ok s"
  obtains s' where "await_end c a s = Some s'" "tame s s'"
proof -
  have o: "objects_ok s" using assms(2) by (simp add: program_ok_def)
  note result = that
  show thesis
  proof (cases a)
    case (Send_awaiter x)
    obtain s' where "send_destructor x s = Some s'" "calm s s'" by (rule send_destructor_calm [OF assms(1) o])
    then show thesis using result calm_tame [OF assms(2)] Send_awaiter by (simp add: await_end_def)
  next
    case (Receive_awaiter x)
    obtain s' where "receive_destructor x s = Some s'" "calm s (release x s')" by (rule receive_destructor_calm [OF assms(1) o])
    then show thesis using result calm_tame [OF assms(2)] Receive_awaiter by (simp add: await_end_def)
  next
    case (Child_awaiter x)
    then show thesis
      using result [of "awaiter_destructor (free_frame c) x s"] free_frame_tame [OF assms] tame_refl [OF assms]
      by (simp add: await_end_def awaiter_destructor_def split: option.splits)
  qed (use result tame_refl [OF assms] in \<open>auto simp: await_end_def\<close>)
qed

lemma destroy_frame_tame:
  assumes "sched_inv s" "program_ok s"
  shows "tame s (destroy_frame c f s)"
proof (cases "\<exists>a k. frames s f = Some (In_await a k)")
  case True
  then obtain a k where f: "frames s f = Some (In_await a k)" by blast
  obtain s' where s': "await_end c a s = Some s'" "tame s s'" by (rule await_end_tame [OF assms])
  from tame_trans [OF s'(2) free_frame_tame [OF tameD(1,2) [OF s'(2)]]] f s'(1)
  show ?thesis by (simp add: destroy_frame_def)
next
  case False
  then show ?thesis using free_frame_tame [OF assms] by (auto simp: destroy_frame_def split: option.split frame.split)
qed

section \<open>\<open>co_await\<close> keeps the invariants\<close>

text \<open>A queue awaiter that is in no list: its address is below \<open>next_awaiter\<close>.\<close>

definition unparked :: "awaiter \<Rightarrow> ('v, 'a) world_scheme \<Rightarrow> bool" where
  "unparked a s \<longleftrightarrow> (case a of
       Send_awaiter x \<Rightarrow> \<not> sa_linked (senders s x) \<and> x < next_awaiter s
     | Receive_awaiter x \<Rightarrow> \<not> ra_linked (receivers s x) \<and> \<not> ra_has_result (receivers s x) \<and> x < next_awaiter s
     | Child_awaiter x \<Rightarrow> aw_was_empty x = (aw_child x = None)
     | _ \<Rightarrow> True)"

lemma await_begin_tame:
  assumes "sched_inv s" "program_ok s" "await_begin w s = (a, s')"
  shows "tame s s'" "unparked a s'"
proof -
  let ?a = "next_awaiter s" and ?s = "s\<lparr>next_awaiter := next_awaiter s + 1\<rparr>"
  have t: "tame s ?s"
    using own_tame [OF assms(1,2), where n = "next_awaiter s + 1" and x = "frames s" and b = "board s"] by simp
  have o: "objects_ok ?s" using tameD(2) [OF t] by (simp add: program_ok_def)
  have n: "\<not> sa_linked (senders ?s ?a)" "\<not> ra_linked (receivers ?s ?a)"
    using assms(2) by (auto simp: program_ok_def linked_def)
  have snd: "tame s (queue_send q v ?a ?s)" for q v
    unfolding queue_send_def
    by (rule tame_trans [OF t calm_tame [OF tameD(2) [OF t] sender_calm [OF tameD(1) [OF t] o n(1)]]]) simp
  have rcv: "tame s (queue_receive q ?a ?s)" for q
    unfolding queue_receive_def
    by (rule tame_trans [OF t calm_tame [OF tameD(2) [OF t] receiver_calm [OF tameD(1) [OF t] o n(2)]]]) simp_all
  have tk: "tame s (set_task x None s)" for x by (rule core_tame [OF assms(1,2)]) simp_all
  show "tame s s'" using assms(3) snd rcv tk tame_refl [OF assms(1,2)]
    by (auto simp: await_begin_def task_co_await_def Let_def split: operand.splits)
  show "unparked a s'" using assms(3)
    by (auto simp: await_begin_def task_co_await_def Let_def unparked_def queue_send_def queue_receive_def
        upd_sender_def upd_receiver_def awaiter_make_def split: operand.splits)
qed

lemma await_ready_tame:
  assumes "sched_inv s" "program_ok s" "unparked a s" "await_ready a s = (b, s')"
  shows "tame s s'" "\<not> b \<Longrightarrow> s' = s"
proof -
  have o: "objects_ok s" using assms(2) by (simp add: program_ok_def)
  have "calm s s' \<and> (\<not> b \<longrightarrow> s' = s)"
  proof (cases a)
    case (Flag_awaiter g)
    then show ?thesis using assms(4) flag_consume_calm [OF assms(1) o, of g]
      by (auto simp: await_ready_def flag_consume_def split: if_splits)
  next
    case (Send_awaiter x)
    let ?q = "sa_queue (senders s x)" and ?v = "sa_value (senders s x)"
    have d: "do_send ?q ?v s = (b, s')" using assms(4) Send_awaiter by (simp add: await_ready_def send_ready_def)
    have "\<not> b \<Longrightarrow> s' = s"
      using send_refines [OF assms(1) objects_okD(3) [OF o], where v = ?v and q = ?q] d
      by (cases "chan_send ?v (chan_of ?q s)") auto
    then show ?thesis using do_send_calm [OF assms(1) o, of ?q ?v] d by simp
  next
    case (Receive_awaiter x)
    then have "calm s (snd (receive_ready x s))"
      using receive_ready_calm [OF assms(1) o, of x] assms(3) by (simp add: unparked_def)
    then show ?thesis using assms(4) Receive_awaiter
      by (auto simp: await_ready_def receive_ready_def Let_def split: if_splits)
  qed (use assms(4) calm_refl [OF assms(1) o] in \<open>auto simp: await_ready_def\<close>)
  then show "tame s s'" "\<not> b \<Longrightarrow> s' = s" using calm_tame [OF assms(2)] by blast+
qed

lemma await_suspend_steps:
  assumes inv: "sched_inv s" "program_ok s" and a: "unparked a s" "await_ready a s = (False, s)"
    and run: "current s = Some i" "st_of s i = Running" "handle_of s i = h"
    and r: "await_suspend c h a s = (b, a', s')"
  shows "yields s s'" "\<not> b \<Longrightarrow> tame s s'"
proof -
  have o: "objects_ok s" using inv(2) by (simp add: program_ok_def)
  have own: "running_is h s = (True, s)" using run by (simp add: running_is_def)
  have y: "yields s s' \<and> b" if "suspends A s s'" "\<And>x. x \<in> A \<Longrightarrow> x < next_awaiter s" b for A
    using suspends_yields [OF inv(2) that(1,2)] that(3) by blast
  have t: "yields s s' \<and> tame s s'" if "calm s s'"
    using calm_tame [OF inv(2) that] quiet_evolves by (auto simp: tame_def yields_def)
  have "yields s s' \<and> (b \<or> tame s s')"
  proof (cases a)
    case Yield_awaiter
    then show ?thesis using r y [OF _ _ ] yield_suspends [OF inv(1) o run(1,2), of "{}"]
      by (auto simp: await_suspend_def yield_suspend_def)
  next
    case (Delay_awaiter d)
    then show ?thesis using r y delay_suspends [OF inv(1) o run(1,2), of "{}" d]
      by (auto simp: await_suspend_def delay_suspend_def)
  next
    case (Event_awaiter e)
    obtain u where "event_suspend e h s = (True, u)" "suspends {} s u" by (rule event_park_suspends [OF inv(1) o run])
    then show ?thesis using r y [of "{}"] Event_awaiter by (simp add: await_suspend_def)
  next
    case (Flag_awaiter g)
    show ?thesis
    proof (cases "waiter_of s g")
      case None
      obtain u where "flag_park g h s = (True, u)" "suspends {} s u" by (rule flag_park_suspends [OF inv(1) o run None])
      then show ?thesis using r y [of "{}"] Flag_awaiter by (simp add: await_suspend_def)
    next
      case (Some j)
      then have "s' = on_error Multiple_flag_waiters s"
        using r Flag_awaiter own by (simp add: await_suspend_def flag_park_def)
      then show ?thesis using t on_error_calm [OF inv(1) o] by blast
    qed
  next
    case (Send_awaiter x)
    then have n: "\<not> sa_linked (senders s x)" "x < next_awaiter s" "fst (send_ready x s) = False"
      using a by (simp_all add: unparked_def await_ready_def)
    obtain u where "send_suspend x h s = (True, u)" "suspends {x} s u" by (rule send_park_suspends [OF inv(1) o run n(1,3)])
    then show ?thesis using r y [of "{x}"] n(2) Send_awaiter by (simp add: await_suspend_def)
  next
    case (Receive_awaiter x)
    then have n: "\<not> ra_linked (receivers s x)" "\<not> ra_has_result (receivers s x)" "fst (receive_ready x s) = False"
      "x < next_awaiter s"
      using a by (simp_all add: unparked_def await_ready_def)
    obtain u where "receive_suspend x h s = (True, u)" "suspends {x} s u"
      by (rule receive_park_suspends [OF inv(1) o run n(1-3)])
    then show ?thesis using r y [of "{x}"] n(4) Receive_awaiter by (simp add: await_suspend_def)
  next
    case (Child_awaiter x)
    have "\<not> aw_was_empty x" using a(2) Child_awaiter by (simp add: await_ready_def awaiter_ready_def)
    then obtain f where f: "aw_child x = Some f" using a(1) Child_awaiter by (auto simp: unparked_def)
    let ?d = "free_frame c f s"
    have d: "tame s ?d" by (rule free_frame_tame [OF inv])
    then have od: "objects_ok ?d" by (simp add: tame_def program_ok_def)
    have e: "?d = co_destroy (unstarted c) f s" by (simp add: unstarted_def)
    obtain u where u: "start_child (unstarted c) (Some f) h s = (b, s')" "sched_inv s'" "objects_ok s'" "evolves s s'"
      "b \<or> quiet s s'" "u \<in> {s, ?d}" "sched.more s' = sched.more u"
      by (rule start_child_objects [OF inv(1) o run(1,2) e tameD(1) [OF d] od tameD(3) [OF d], of h])
        (use r f Child_awaiter in \<open>auto simp: await_suspend_def awaiter_suspend_def Let_def split: prod.splits\<close>)
    have "program_ok u" using u(6) inv(2) tameD(2) [OF d] by auto
    moreover have "linked s' = linked u" using objects_of_more(3) [OF u(7)] by (intro linked_same) simp_all
    moreover have "next_awaiter s' = next_awaiter u"
      using objects_of_more(3) [OF u(7)] world_of_more(2) [of s' u] by simp
    ultimately have "program_ok s'" using u(3) by (simp add: program_ok_def)
    then show ?thesis using u(2,4,5) by (simp add: yields_def tame_def)
  qed
  then show "yields s s'" "\<not> b \<Longrightarrow> tame s s'" by blast+
qed

lemma await_finish_tame:
  assumes "sched_inv s" "program_ok s" "await_finish c fallback a s = Some (x, s')"
  shows "tame s s'"
proof -
  have o: "objects_ok s" using assms(2) by (simp add: program_ok_def)
  obtain y s1 where s1: "await_resume fallback a s = Some (y, s1)" "await_end c a s1 = Some s'"
    using assms(3) by (auto simp: await_finish_def split: option.splits)
  have "calm s s1"
  proof (cases a)
    case (Receive_awaiter r)
    then show ?thesis using s1(1) receive_resume_calm [OF assms(1) o, of fallback r] by (auto simp: await_resume_def)
  next
    case (Child_awaiter r)
    then show ?thesis using s1(1) calm_refl [OF assms(1) o] on_error_calm [OF assms(1) o]
      by (auto simp: await_resume_def awaiter_resume_def)
  qed (use s1(1) calm_refl [OF assms(1) o] in \<open>auto simp: await_resume_def\<close>)
  then have t: "tame s s1" by (rule calm_tame [OF assms(2)])
  obtain s2 where "await_end c a s1 = Some s2" "tame s1 s2" by (rule await_end_tame [OF tameD(1,2) [OF t]])
  then show ?thesis using tame_trans [OF t] s1(2) by simp
qed

lemma co_await_steps:
  assumes inv: "sched_inv s" "program_ok s" and run: "current s = Some i" "st_of s i = Running" "handle_of s i = h"
    and r: "co_await c fallback h w s = Some (x, s')"
  shows "yields s s'" "x = Inl y \<Longrightarrow> tame s s'"
proof -
  obtain a s1 where b: "await_begin w s = (a, s1)" by fastforce
  note t1 = await_begin_tame [OF inv b]
  obtain ok s2 where rd: "await_ready a s1 = (ok, s2)" by fastforce
  note t2 = await_ready_tame [OF tameD(1,2) [OF t1(1)] t1(2) rd]
  have t12: "tame s s2" by (rule tame_trans [OF t1(1) t2(1)])
  have ty: "tame s u \<Longrightarrow> yields s u" for u by (simp add: tame_def yields_def quiet_evolves)
  have "yields s s' \<and> (\<forall>y. x = Inl y \<longrightarrow> tame s s')"
  proof (cases ok)
    case True
    then have "\<exists>y. await_finish c fallback a s2 = Some (y, s')" using r b rd by (auto simp: co_await_def)
    then have "tame s s'" using tame_trans [OF t12 await_finish_tame [OF tameD(1,2) [OF t12]]] by blast
    then show ?thesis using ty by blast
  next
    case False
    then have e: "s2 = s1" using t2(2) by simp
    obtain susp a' s3 where sp: "await_suspend c h a s1 = (susp, a', s3)" by (metis surj_pair)
    have run1: "current s1 = Some i" "st_of s1 i = Running" "handle_of s1 i = h"
      using run tameD(3) [OF t1(1)] evolvesD(2) [OF quiet_evolves [OF tameD(3) [OF t1(1)]]] quiet_slot(2) [of s s1 i]
      by (auto simp: quiet_def)
    note st = await_suspend_steps [OF tameD(1,2) [OF t1(1)] t1(2) _ run1 sp]
    have rf: "await_ready a s1 = (False, s1)" using rd False e by simp
    show ?thesis
    proof (cases susp)
      case True
      then have "x = Inr a' \<and> s' = s3" using r b rf sp by (simp add: co_await_def)
      then show ?thesis using tame_yields [OF t1(1) st(1) [OF rf]] by simp
    next
      case False
      then have "\<exists>y. await_finish c fallback a' s3 = Some (y, s')" using r b rf sp by (auto simp: co_await_def)
      moreover have t3: "tame s s3" by (rule tame_trans [OF t1(1) st(2) [OF rf False]])
      ultimately have "tame s s'" using tame_trans [OF t3 await_finish_tame [OF tameD(1,2) [OF t3]]] by blast
      then show ?thesis using ty by blast
    qed
  qed
  then show "yields s s'" "x = Inl y \<Longrightarrow> tame s s'" by blast+
qed

section \<open>Calls and whole bodies\<close>

lemma task_assign_tame:
  assumes "sched_inv s" "program_ok s"
  shows "tame s (task_assign (destroy_frame c) t u s)"
proof -
  let ?s2 = "set_task u None (set_task t (tasks s u) s)"
  have s2: "tame s ?s2" by (rule core_tame [OF assms]) simp_all
  then show ?thesis using tame_trans [OF s2 destroy_frame_tame [OF tameD(1,2) [OF s2]]] tame_refl [OF assms]
    by (simp add: task_assign_def Let_def split: option.split)
qed

lemma task_destructor_tame:
  assumes "sched_inv s" "program_ok s"
  shows "tame s (task_destructor (destroy_frame c) t s)"
proof -
  have s2: "tame s (set_task t None s)" by (rule core_tame [OF assms]) simp_all
  then show ?thesis using tame_trans [OF s2 destroy_frame_tame [OF tameD(1,2) [OF s2]]] tame_refl [OF assms]
    by (simp add: task_destructor_def task_reset_def Let_def split: option.split)
qed

lemma do_call_tame:
  assumes inv: "sched_inv s" "program_ok s" and r: "do_call c x s = Some (y, s')"
  shows "tame s s'"
proof -
  have o: "objects_ok s" using inv(2) by (simp add: program_ok_def)
  note calm = calm_tame [OF inv(2)]
  show ?thesis
  proof (cases x)
    case (Set_event e)
    obtain u where "event_set e s = Some u" "calm s u" by (rule event_set_calm [OF inv(1) o])
    then show ?thesis using r calm Set_event by (simp add: do_call_def)
  next
    case (Clear_event e)
    then show ?thesis using r calm [OF event_clear_calm [OF inv(1) o]] by (auto simp: do_call_def)
  next
    case (Set_flag g)
    then show ?thesis using r calm [OF flag_set_calm [OF inv(1) o]] by (auto simp: do_call_def)
  next
    case (Clear_flag g)
    then show ?thesis using r calm [OF set_signaled_calm [OF inv(1) o]] by (auto simp: do_call_def flag_clear_def)
  next
    case (Try_send q v)
    then have "s' = snd (do_send q v s)"
      using r by (cases "do_send q v s") (simp add: do_call_def try_send_def)
    then show ?thesis using calm [OF do_send_calm [OF inv(1) o]] by simp
  next
    case (Try_receive q)
    then have "s' = snd (try_receive q s)" using r by (cases "try_receive q s") (simp add: do_call_def)
    then show ?thesis using calm [OF try_receive_calm [OF inv(1) o]] by simp
  next
    case (New_task sz t p)
    then obtain s1 where s1: "coroutine_call c sz t s = Some s1"
      "s' = (case tasks s1 t of None \<Rightarrow> s1 | Some f \<Rightarrow> set_frame f (Some (Initial p)) s1)"
      using r by (auto simp: do_call_def split: if_splits)
    have t: "tame s s1" by (rule core_tame [OF inv coroutine_call_fields [OF s1(1)]])
    then show ?thesis using s1(2) tame_trans [OF t set_frame_tame [OF tameD(1,2) [OF t]]] by (simp split: option.splits)
  next
    case (Move_task t u)
    have "tame s (task_move t u s)" by (rule core_tame [OF inv]) (simp_all add: task_move_def Let_def)
    then show ?thesis using r Move_task by (auto simp: do_call_def split: if_splits)
  next
    case (Assign_task t u)
    then show ?thesis using r task_assign_tame [OF inv] by (auto simp: do_call_def)
  next
    case (Drop_task t)
    then show ?thesis using r task_destructor_tame [OF inv] by (auto simp: do_call_def)
  next
    case (Create_task t)
    then have "s' = snd (create_task t s)" using r by (cases "create_task t s") (simp add: do_call_def)
    then show ?thesis using calm [OF create_task_calm [OF inv(1) o]] by simp
  next
    case (Spawn_task t)
    then have "s' = snd (create_task t s)" using r by (auto simp: do_call_def spawn_def create_task_def)
    then show ?thesis using calm [OF create_task_calm [OF inv(1) o]] by simp
  next
    case (Report e)
    then show ?thesis using r calm [OF on_error_calm [OF inv(1) o]] by (auto simp: do_call_def)
  next
    case (Board x)
    obtain y b where "board_do x (board s) = (y, b)" by fastforce
    then show ?thesis
      using r Board own_tame [OF inv, where n = "next_awaiter s" and x = "frames s" and b = b] by (simp add: do_call_def)
  qed (use r tame_refl [OF inv] in \<open>auto simp: do_call_def\<close>)
qed

text \<open>What a resumption of the running task's frame leaves behind.\<close>

definition resumption :: "nat \<Rightarrow> nat \<Rightarrow> ('v, 'a) world_scheme \<Rightarrow> ('v, 'a) world_scheme \<Rightarrow> bool" where
  "resumption i f s s' \<longleftrightarrow> yields s s' \<and> (frame_done f s' \<longrightarrow> st_of s' i = Running)"

lemma resumption_trans:
  assumes "tame s t" "resumption i f t u"
  shows "resumption i f s u"
  using assms tame_yields by (auto simp: resumption_def)

lemma running_kept:
  assumes "tame s s'" "current s = Some i" "st_of s i = Running" "handle_of s i = h"
  shows "current s' = Some i" "st_of s' i = Running" "handle_of s' i = h"
  using assms evolvesD(2) [OF quiet_evolves [OF tameD(3) [OF assms(1)]]] tameD(3) [OF assms(1)] quiet_slot(2) [of s s' i]
  by (auto simp: quiet_def)

lemma run_body_steps:
  assumes "run_body c fallback f p s = Some s'" and "sched_inv s" "program_ok s"
    and "current s = Some i" "st_of s i = Running" "handle_of s i = Some f"
  shows "resumption i f s s'"
  using assms
proof (induction arbitrary: i rule: run_body.raw_induct [rotated, consumes 1])
  case (1 run c fallback f p s s' i)
  note inv = "1.prems"(1,2) and run = "1.prems"(3-5)
  note IH = "1.IH"
  have again: "resumption i f s s'" if "tame s s1" "run c fallback f q s1 = Some s'" for q s1
    by (rule resumption_trans [OF that(1) IH [OF that(2) tameD(1,2) [OF that(1)] running_kept [OF that(1) run]]])
  show ?case
  proof (cases p)
    case Co_return
    then have e: "s' = set_frame f (Some Final) s" using "1.hyps" by simp
    have "tame s s'" unfolding e by (rule set_frame_tame [OF inv])
    then show ?thesis using running_kept(2) [OF _ run] quiet_evolves by (auto simp: resumption_def tame_def yields_def)
  next
    case (Call x k)
    then obtain y s1 where s1: "do_call c x s = Some (y, s1)" "run c fallback f (k y) s1 = Some s'"
      using "1.hyps" by (auto split: option.splits)
    show ?thesis by (rule again [OF do_call_tame [OF inv s1(1)] s1(2)])
  next
    case (Co_await w k)
    then obtain x s1 where s1: "co_await c fallback (Some f) w s = Some (x, s1)"
      using "1.hyps" by (auto split: option.splits)
    note st = co_await_steps [OF inv run s1]
    show ?thesis
    proof (cases x)
      case (Inl y)
      then show ?thesis using again [OF st(2)] s1 Co_await "1.hyps" by simp
    next
      case (Inr a)
      then have e: "s' = set_frame f (Some (In_await a k)) s1" using s1 Co_await "1.hyps" by simp
      have i1: "sched_inv s1" "program_ok s1" using st(1) by (simp_all add: yields_def)
      have "evolves s1 s'" "sched_inv s'" "program_ok s'"
        using set_frame_tame [OF i1] quiet_evolves by (auto simp: e tame_def)
      then have "yields s s'" using st(1) evolves_trans [of s s1 s'] by (simp add: yields_def)
      moreover have "\<not> frame_done f s'" by (simp add: e frame_done_def set_frame_def)
      ultimately show ?thesis by (simp add: resumption_def)
    qed
  qed
qed

lemma resume_frame_steps:
  assumes "sched_inv s" "program_ok s" and run: "current s = Some i" "st_of s i = Running" "handle_of s i = Some f"
    and r: "resume_frame c fallback f s = Some s'"
  shows "resumption i f s s'"
proof -
  consider (start) p where "frames s f = Some (Initial p)" "run_body c fallback f p s = Some s'"
    | (await) a k y s1 where "await_finish c fallback a s = Some (y, s1)" "run_body c fallback f (k y) s1 = Some s'"
    using r by (auto simp: resume_frame_def split: option.splits frame.splits)
  then show ?thesis
  proof cases
    case start
    then show ?thesis using run_body_steps [OF _ assms(1,2) run] by blast
  next
    case await
    have t: "tame s s1" by (rule await_finish_tame [OF assms(1,2) await(1)])
    from resumption_trans [OF t run_body_steps [OF await(2) tameD(1,2) [OF t] running_kept [OF t run]]] show ?thesis .
  qed
qed

section \<open>The interfaces of the scheduler\<close>

lemma program_stable:
  fixes s s' :: "('v, 'a) world_scheme"
  assumes "program_ok s" "local_same s s'"
  shows "program_ok s'"
proof -
  have m: "sched.more s' = sched.more s" using assms(2) by (simp add: local_same_def)
  note o = objects_of_more(3) [OF m]
  have "linked s' = linked s" using o by (intro linked_same) simp_all
  moreover have "next_awaiter s' = next_awaiter s" using o world_of_more(2) by blast
  ultimately show ?thesis using assms(1) objects_stable [OF _ assms(2)] by (simp add: program_ok_def)
qed

lemma resolve_signals_tame:
  assumes "sched_inv s" "program_ok s"
  shows "tame s (resolve_signals s)"
proof -
  have o: "objects_ok s" using assms(2) by (simp add: program_ok_def)
  obtain s' where "poll_external_signals s = Some s'" "calm s s'" by (rule poll_signals_calm [OF assms(1) o])
  then show ?thesis using calm_tame [OF assms(2)] by (simp add: resolve_signals_def)
qed

text \<open>
  The laws the pass asks of the coroutines hold for every program on the library, whatever its
  bodies do, and the resolution of the external signals keeps them.
\<close>

interpretation prog: main_system "program c fallback" "program_ok :: ('v, 'a) world_scheme \<Rightarrow> bool" resolve_signals
  for c and fallback :: "'v option"
proof
  fix s :: "('v, 'a) world_scheme" and i f
  assume a: "sched_inv s" "program_ok s" "current s = Some i" "st_of s i = Running" "handle_of s i = Some f"
  let ?s' = "co_resume (program c fallback) f s"
  have "resumption i f s ?s' \<or> ?s' = s"
    using resume_frame_steps [OF a] by (cases "resume_frame c fallback f s") (simp_all add: program_def)
  then show "sched_inv ?s' \<and> program_ok ?s' \<and> evolves s ?s'"
    using a(1,2) by (auto simp: resumption_def yields_def)
  assume "co_done (program c fallback) f (?s'\<lparr>current := None\<rparr>)"
  then have "frame_done f ?s'" by (simp add: program_def frame_done_def)
  then show "st_of ?s' i = Running" using \<open>resumption i f s ?s' \<or> ?s' = s\<close> a(4) by (auto simp: resumption_def)
next
  fix s s' :: "('v, 'a) world_scheme" and i f
  assume a: "sched_inv s" "program_ok s"
  show d: "sched_inv (co_destroy (program c fallback) f s) \<and> program_ok (co_destroy (program c fallback) f s) \<and>
      quiet s (co_destroy (program c fallback) f s)" for f
    using destroy_frame_tame [OF a, of c f] by (simp add: program_def tame_def)
  then show "sched_inv (co_destroy (program c fallback) f s) \<and> quiet s (co_destroy (program c fallback) f s)" by simp
  assume "end_same i (co_destroy (program c fallback) f s) s'"
  then show "program_ok s'" using d [of f] program_stable by (auto simp: end_same_def)
next
  fix s :: "('v, 'a) world_scheme"
  assume "sched_inv s" "program_ok s"
  then show "sched_inv (resolve_signals s) \<and> program_ok (resolve_signals s) \<and> quiet s (resolve_signals s)"
    using resolve_signals_tame by (simp add: tame_def)
qed (auto simp: step_same_def intro: program_stable)

section \<open>Teardown\<close>

text \<open>
  What the destruction of a frame never does, in any state: start, stop or complete a task. In
  particular this holds while \<open>~Scheduler()\<close> is running.
\<close>

lemma unlink_sender_loop_below:
  "unlink_sender_loop q a prev p s = Some s' \<Longrightarrow> below_queues s s'"
proof (induction rule: unlink_sender_loop.raw_induct [rotated, consumes 1])
  case (1 loop q a prev p s s')
  then show ?case by (auto simp: Let_def split: option.splits if_splits)
qed

lemma unlink_receiver_loop_below:
  "unlink_receiver_loop q a prev p s = Some s' \<Longrightarrow> below_queues s s'"
proof (induction rule: unlink_receiver_loop.raw_induct [rotated, consumes 1])
  case (1 loop q a prev p s s')
  then show ?case by (auto simp: Let_def split: option.splits if_splits)
qed

definition inert :: "'a sched_scheme \<Rightarrow> 'a sched_scheme \<Rightarrow> bool" where
  "inert s s' \<longleftrightarrow> slots s' = slots s \<and> max_tasks s' = max_tasks s \<and> shutting_down s' = shutting_down s"

lemma inert_refl [simp]: "inert s s"
  by (simp add: inert_def)

lemma below_inert: "below_queues s s' \<Longrightarrow> inert s s'"
  by (simp add: inert_def below_queues_def)

lemma free_frame_inert: "inert s (free_frame c f s)"
  by (auto simp: free_frame_def inert_def Let_def set_frame_def dest: frame_delete_fields split: option.split)

lemma await_end_inert: "await_end c a s = Some s' \<Longrightarrow> inert s s'"
proof -
  assume e: "await_end c a s = Some s'"
  show "inert s s'"
  proof (cases a)
    case (Send_awaiter x)
    then have "below_queues s s'" using e
      by (auto simp: await_end_def send_destructor_def unlink_sender_def split: if_splits dest: unlink_sender_loop_below)
    then show ?thesis by (rule below_inert)
  next
    case (Receive_awaiter x)
    then have "below_queues s s'" using e
      by (auto simp: await_end_def receive_destructor_def unlink_receiver_def split: if_splits dest: unlink_receiver_loop_below)
    then show ?thesis by (rule below_inert)
  next
    case (Child_awaiter x)
    then show ?thesis using e free_frame_inert
      by (auto simp: await_end_def awaiter_destructor_def split: option.splits)
  qed (use e in \<open>auto simp: await_end_def\<close>)
qed

lemma destroy_frame_inert: "inert s (destroy_frame c f s)"
proof -
  have "inert s (free_frame c f s1)" if "await_end c a s = Some s1" for a s1
    using await_end_inert [OF that] free_frame_inert [of s1 c f] by (simp add: inert_def)
  then show ?thesis
    using free_frame_inert [of s c f] by (auto simp: destroy_frame_def split: option.split frame.split)
qed

interpretation torn: teardown "program c fallback :: ('v, 'a) world_scheme coro" for c and fallback :: "'v option"
proof
  fix s :: "('v, 'a) world_scheme" and f
  assume "shutting_down s"
  then show "shutting_down (co_destroy (program c fallback) f s) \<and>
      max_tasks (co_destroy (program c fallback) f s) = max_tasks s \<and>
      handle_of (co_destroy (program c fallback) f s) = handle_of s \<and>
      (\<forall>i. st_of (co_destroy (program c fallback) f s) i = Completed \<longrightarrow> st_of s i = Completed)"
    using destroy_frame_inert [of s c f] by (simp add: program_def inert_def)
qed

section \<open>Every state a program reaches\<close>

text \<open>
  Between two polls, code outside any task uses the library too, through any call of
  \<open>do_call\<close>; \<open>set()\<close> from interrupts and other cores is one of the calls.
\<close>

inductive program_step :: "target \<Rightarrow> 'v option \<Rightarrow> ('v, 'a) world_scheme \<Rightarrow> ('v, 'a) world_scheme \<Rightarrow> bool"
  for c fallback where
  poll: "program_step c fallback s (poll (program c fallback) resolve_signals clock s)"
| wait: "program_step c fallback s (snd (poll_and_wait (program c fallback) resolve_signals he clock s))"
| call: "program_step c fallback s s'" if "do_call c x s = Some (y, s')"

inductive_cases program_stepE: "program_step c fallback s s'"

lemma program_step_outside:
  assumes "program_step c fallback s s'" "outside program_ok s"
  shows "outside program_ok s' \<and> lives s s'"
  using assms(1)
proof cases
  case (poll clock)
  then show ?thesis using prog.poll_outside [OF assms(2)] by simp
next
  case (wait he clock)
  then have "s' = poll (program c fallback) resolve_signals clock s" by (simp add: wait_is_poll)
  then show ?thesis using prog.poll_outside [OF assms(2)] by simp
next
  case (call x y)
  have "sched_inv s" "program_ok s" using assms(2) by (simp_all add: outside_def at_rest_def)
  then have t: "tame s s'" using do_call_tame [OF _ _ call] by blast
  show ?thesis by (rule prog.outside_quiet [OF assms(2) tameD [OF t]])
qed

lemma program_steps_outside:
  assumes "(program_step c fallback)\<^sup>*\<^sup>* s s'" "outside program_ok s"
  shows "outside program_ok s' \<and> lives s s'"
  using assms
proof (induction rule: rtranclp_induct)
  case (step t u)
  then show ?case using program_step_outside [OF step.hyps(2)] lives_trans by blast
qed simp

text \<open>The library's objects before their first use.\<close>

definition fresh_world :: "('v, 'a) world_scheme \<Rightarrow> bool" where
  "fresh_world s \<longleftrightarrow> (\<forall>e. ev_waiters (events s e) = wq_init) \<and> (\<forall>g. fl_waiter (flags s g) = None) \<and> armed_head s = None \<and>
     (\<forall>q. \<exists>n > 0. queues s q = queue_init n) \<and>
     (\<forall>a. \<not> sa_linked (senders s a) \<and> \<not> ra_linked (receivers s a) \<and> \<not> ra_has_result (receivers s a) \<and>
        ra_storage (receivers s a) = None)"

lemma fresh_world_ok:
  fixes s :: "('v, 'a) world_scheme"
  assumes "fresh_world s"
  shows "program_ok s"
proof -
  have F: "\<And>e. ev_waiters (events s e) = wq_init" "\<And>g. fl_waiter (flags s g) = None" "armed_head s = None"
    "\<And>q. \<exists>n > 0. queues s q = queue_init n" "\<And>a. \<not> sa_linked (senders s a)" "\<And>a. \<not> ra_linked (receivers s a)"
    "\<And>a. \<not> ra_has_result (receivers s a)" "\<And>a. ra_storage (receivers s a) = None"
    using assms unfolding fresh_world_def by blast+
  have e: "wq_rep (ev_waiters (events s e)) s []" for e unfolding F(1) by (rule wq_rep_init)
  have E: "events_ok s" "waiters d s = []" for d
    using events_okI [where ws = "\<lambda>_. []" and s = s] e by simp_all
  have w: "waiter_of s g = None" for g unfolding fl_waiters_def by (rule F(2))
  have "flag_rep s []" by (rule flag_repI) (use w F(3) in simp_all)
  then have f: "flags_ok s" by (rule flag_rep_armed)
  have l: "\<not> q_linked s x" for x by (cases x) (simp_all add: F(5,6))
  have p: "parked_ok s" "results_ok s" by (simp_all add: parked_ok_def l results_ok_def F(6-8))
  have q: "queue_rep d s [] [] []" for d
  proof -
    obtain n where n: "0 < n" "queues s d = queue_init n" using F(4) by blast
    have "send_head (queues s d) = None" "send_tail (queues s d) = None" "recv_head (queues s d) = None"
      "recv_tail (queues s d) = None"
      by (simp_all add: n(2) queue_init_def)
    moreover have "ring_rep (queues s d) []" unfolding n(2) by (rule ring_rep_init [OF n(1)])
    ultimately show ?thesis by (simp add: queue_rep_def fifo_empty F(5,6))
  qed
  have Q: "queues_ok s" by (rule queues_okI(1) [where vs = "\<lambda>_. []" and as = "\<lambda>_. []" and rs = "\<lambda>_. []", OF p q])
  have "event_parked s = {}" by (simp add: event_parked_def E(2))
  moreover have "flag_parked s = {}" by (simp add: flag_parked_def w)
  ultimately have "objects_ok s" using E(1) f Q by (simp add: objects_ok_def)
  moreover have "linked s = {}" by (simp add: linked_def F(5,6))
  ultimately show ?thesis by (simp add: program_ok_def)
qed


text \<open>C18. In every state a program reaches, each operation of the library that
  follows a linked list returns: waking the waiters of an event, resolving the external signals,
  and the destructors of flags, queue awaiters and queues.\<close>

theorem library_calls_return:
  assumes "fresh_world s" and "sched_inv s" and "idle s" and "\<not> in_poll s" and "\<not> shutting_down s"
    and "(program_step c fallback)\<^sup>*\<^sup>* s s'"
  shows "event_set e s' \<noteq> None \<and> poll_external_signals s' \<noteq> None \<and> flag_destructor g s' \<noteq> None \<and>
    send_destructor a s' \<noteq> None \<and> receive_destructor r s' \<noteq> None \<and> queue_destructor q s' \<noteq> None"
proof -
  have "outside program_ok s" using assms(1-5) fresh_world_ok by (simp add: outside_def at_rest_def)
  then have "outside program_ok s'" using program_steps_outside [OF assms(6)] by blast
  then have i: "sched_inv s'" "objects_ok s'" by (simp_all add: outside_def at_rest_def program_ok_def)
  note D = objects_okD [OF i(2)]
  obtain s1 s2 s3 s4 where "event_set e s' = Some s1" "poll_external_signals s' = Some s2"
    "send_destructor a s' = Some s3" "receive_destructor r s' = Some s4"
    by (metis event_set_calm [OF i] poll_signals_calm [OF i] send_destructor_calm [OF i] receive_destructor_calm [OF i])
  then show ?thesis using flag_destruction [OF D(2), of g] queue_destroyed [OF D(3), of q] by auto
qed

end
