(* ===== verification/Frame_Owners.thy ===== *)
theory Frame_Owners
  imports Programs
begin

text \<open>
  Who owns a coroutine frame. First the operations that leave every owner alone: the whole of
  event.h, threadsafeflag.h, queue.h and delay.h moves tasks between states, never frames.
\<close>

section \<open>Operations that move no frame\<close>

definition frames_kept :: "'a sched_scheme \<Rightarrow> 'a sched_scheme \<Rightarrow> bool" where
  "frames_kept s s' \<longleftrightarrow> tasks s' = tasks s \<and> fpool s' = fpool s \<and> handle_of s' = handle_of s \<and> max_tasks s' = max_tasks s"

lemma frames_kept_refl [simp]: "frames_kept s s"
  by (simp add: frames_kept_def)

lemma frames_kept_trans: "frames_kept s t \<Longrightarrow> frames_kept t u \<Longrightarrow> frames_kept s u"
  by (simp add: frames_kept_def)

lemma frames_kept_upd [simp]:
  "frames_kept s (ready_push i t) = frames_kept s t" "frames_kept s (set_state i x t) = frames_kept s t"
  "frames_kept s (set_next i n t) = frames_kept s t" "frames_kept s (set_deadline i d t) = frames_kept s t"
  "frames_kept s (on_error e t) = frames_kept s t"
  "frames_kept s (t\<lparr>nearest_deadline := d\<rparr>) = frames_kept s t"
  "frames_kept s (t\<lparr>hook_log := l\<rparr>) = frames_kept s t"
  by (simp_all add: frames_kept_def)

lemma sched_frames_kept:
  "frames_kept s (yield_current s)" "frames_kept s (arm_current_timer d s)"
  "frames_kept s (snd (running_is h s))" "frames_kept s (snd (park_running s))" "frames_kept s (wake_slot p s)"
  "wait_on h q s = (b, q', s') \<Longrightarrow> frames_kept s s'"
  by (auto simp: yield_current_def arm_current_timer_def Let_def running_is_def park_running_def wake_slot_def
      wait_on_def wq_push_back_def split: option.splits prod.splits if_splits)

lemma wake_all_frames_kept: "wake_all q s = Some r \<Longrightarrow> frames_kept s (snd r)"
proof (induction rule: wake_all.raw_induct [rotated, consumes 1])
  case (1 loop q s r)
  obtain p q1 s1 where p: "wq_pop_front (q, s) = (p, q1, s1)" by (metis surj_pair)
  then have k: "frames_kept s s1" by (auto simp: wq_pop_front_def Let_def split: option.splits if_splits)
  show ?case
  proof (cases p)
    case None
    then show ?thesis using "1.hyps" p k by auto
  next
    case (Some i)
    then have "loop q1 (ready_push i (set_state i Ready s1)) = Some r" using "1.hyps" p by simp
    from "1.IH" [OF this] show ?thesis using k by (simp add: frames_kept_def)
  qed
qed

lemma event_upd_kept [simp]: "frames_kept s (upd_event e x t) = frames_kept s t"
  by (simp add: frames_kept_def upd_event_def)

lemma flag_upd_kept [simp]:
  "frames_kept s (upd_flag g f t) = frames_kept s t" "frames_kept s (t\<lparr>armed_head := h\<rparr>) = frames_kept s t"
  "frames_kept s (t\<lparr>pending := b\<rparr>) = frames_kept s t" "frames_kept s (t\<lparr>wake_given := b\<rparr>) = frames_kept s t"
  by (simp_all add: frames_kept_def upd_flag_def)

lemma queue_upd_kept [simp]:
  "frames_kept s (upd_queue q m t) = frames_kept s t" "frames_kept s (upd_sender a k t) = frames_kept s t"
  "frames_kept s (upd_receiver a l t) = frames_kept s t"
  by (simp_all add: frames_kept_def upd_queue_def upd_sender_def upd_receiver_def)

lemma event_frames_kept:
  "event_suspend e h s = (b, s') \<Longrightarrow> frames_kept s s'" "event_set e s = Some s' \<Longrightarrow> frames_kept s s'"
  "frames_kept s (event_clear e s)"
proof -
  show "frames_kept s s'" if "event_suspend e h s = (b, s')"
    using that by (auto simp: event_suspend_def event_park_def dest: sched_frames_kept(6) split: prod.splits)
  show "frames_kept s s'" if "event_set e s = Some s'"
    using that by (auto simp: event_set_def Let_def frames_kept_def upd_event_def dest!: wake_all_frames_kept split: option.splits)
qed (simp add: event_clear_def)

lemma flag_frames_kept:
  "frames_kept s (snd (flag_consume g s))" "frames_kept s (snd (flag_park g h s))" "frames_kept s (flag_set g s)"
  "frames_kept s (flag_clear g s)"
proof -
  show "frames_kept s (snd (flag_park g h s))"
    using frames_kept_trans [OF sched_frames_kept(3) [of s h] sched_frames_kept(4)] sched_frames_kept(3) [of s h]
    by (auto simp: flag_park_def flag_arm_def Let_def split: prod.splits)
qed (simp_all add: flag_consume_def flag_set_def flag_signal_def platform_wake_scheduler_def flag_clear_def Let_def split: prod.split)

lemma resolve_flag_frames_kept: "resolve_flag w prev g s = (p, n, s') \<Longrightarrow> frames_kept s s'"
  using sched_frames_kept(5) [of s "fl_waiter (flags s g)"]
  by (auto simp: resolve_flag_def Let_def split: if_splits option.splits)

lemma resolve_loop_frames_kept: "resolve_loop prev f s = Some s' \<Longrightarrow> frames_kept s s'"
proof (induction rule: resolve_loop.raw_induct [rotated, consumes 1])
  case (1 loop prev f s s')
  show ?case
  proof (cases f)
    case None
    then show ?thesis using "1.hyps" by simp
  next
    case (Some g)
    obtain w s1 where s1: "take_signal g s = (w, s1)" by fastforce
    obtain p n s2 where s2: "resolve_flag w prev g s1 = (p, n, s2)" by (metis surj_pair)
    have "frames_kept s s1" using s1 by (auto simp: take_signal_def split: if_splits)
    moreover have "frames_kept s1 s2" by (rule resolve_flag_frames_kept [OF s2])
    moreover have "frames_kept s2 s'" using "1.hyps" "1.IH" Some s1 s2 by simp
    ultimately show ?thesis by (meson frames_kept_trans)
  qed
qed

lemma resolve_signals_frames_kept: "frames_kept s (resolve_signals s)"
  using resolve_loop_frames_kept [of None]
  by (fastforce simp: resolve_signals_def poll_external_signals_def take_pending_def frames_kept_def split: option.splits)

text \<open>Queues.\<close>

lemma queue_pop_frames_kept:
  "frames_kept s (snd (recv_pop_front q s))" "frames_kept s (snd (send_pop_front q s))"
  "frames_kept s (construct_result r v t) = frames_kept s t"
  by (simp_all add: recv_pop_front_def send_pop_front_def construct_result_def Let_def split: option.split)

lemma admit_frames_kept: "frames_kept s (admit_oldest_sender q t) = frames_kept s t"
  using queue_pop_frames_kept(2) [of t q] sched_frames_kept(5)
  by (fastforce simp: admit_oldest_sender_def Let_def frames_kept_def wake_slot_def upd_queue_def split: prod.splits option.splits)

lemma queue_frames_kept:
  "frames_kept s (snd (do_send q v s))" "frames_kept s (snd (try_receive q s))"
  "frames_kept s (snd (receive_ready a s))" "frames_kept s (snd (send_suspend a h s))"
  "frames_kept s (snd (receive_suspend a h s))"
proof -
  show "frames_kept s (snd (do_send q v s))"
    using queue_pop_frames_kept(1) [of s q]
    by (auto simp: do_send_def Let_def queue_pop_frames_kept(3) wake_slot_def split: prod.splits option.splits)
  show "frames_kept s (snd (try_receive q s))" "frames_kept s (snd (receive_ready a s))"
    by (simp_all add: try_receive_def receive_ready_def Let_def admit_frames_kept queue_pop_frames_kept)
  have e: "frames_kept s (send_enqueue q a t) = frames_kept s t" "frames_kept s (recv_enqueue q a t) = frames_kept s t" for t q
    by (simp_all add: send_enqueue_def recv_enqueue_def Let_def split: option.split)
  have p: "frames_kept s (snd (park_running (snd (running_is h s))))"
    by (rule frames_kept_trans [OF sched_frames_kept(3,4)])
  show "frames_kept s (snd (send_suspend a h s))" "frames_kept s (snd (receive_suspend a h s))"
    using p sched_frames_kept(3) [of s h]
    by (auto simp: send_suspend_def park_sender_def receive_suspend_def park_receiver_def Let_def e split: prod.splits)
qed

lemma unlink_sender_frames_kept: "unlink_sender_loop q a prev p s = Some s' \<Longrightarrow> frames_kept s s'"
proof (induction rule: unlink_sender_loop.raw_induct [rotated, consumes 1])
  case (1 loop q a prev p s s')
  then show ?case by (auto simp: Let_def split: option.splits if_splits)
qed

lemma unlink_receiver_frames_kept: "unlink_receiver_loop q a prev p s = Some s' \<Longrightarrow> frames_kept s s'"
proof (induction rule: unlink_receiver_loop.raw_induct [rotated, consumes 1])
  case (1 loop q a prev p s s')
  then show ?case by (auto simp: Let_def split: option.splits if_splits)
qed

lemma awaiter_frames_kept:
  "send_destructor a s = Some s' \<Longrightarrow> frames_kept s s'" "receive_destructor a s = Some s' \<Longrightarrow> frames_kept s s'"
  "receive_resume fallback a s = Some (v, s') \<Longrightarrow> frames_kept s s'"
  by (auto simp: send_destructor_def unlink_sender_def receive_destructor_def unlink_receiver_def receive_resume_def Let_def
      dest: unlink_sender_frames_kept unlink_receiver_frames_kept split: if_splits)

end
