(* ===== verification/Ownership.thy ===== *)
theory Ownership
  imports Frame_Owners
begin

text \<open>
  The frames that slots own, and the invariant: owners do not share; the frames that exist are
  exactly the owned ones, and exactly the live blocks of the pool; the frames of \<open>Task\<close>
  objects have not started. \<open>X\<close> are frames owned by an awaiter in the middle of a
  \<open>co_await\<close>, or on the way to their destruction.
\<close>

section \<open>The ownership invariant\<close>

definition slot_owned :: "'a sched_scheme \<Rightarrow> nat set" where
  "slot_owned s = {f. \<exists>i < max_tasks s. handle_of s i = Some f}"

definition owners_ok :: "'a sched_scheme \<Rightarrow> bool" where
  "owners_ok s \<longleftrightarrow> sole_owners s \<and>
     (\<forall>i j f. i < max_tasks s \<and> j < max_tasks s \<and> handle_of s i = Some f \<and> handle_of s j = Some f \<longrightarrow> i = j) \<and>
     owned s \<inter> slot_owned s = {}"

definition arena_frames :: "target \<Rightarrow> pool \<Rightarrow> nat set \<Rightarrow> bool" where
  "arena_frames c p F \<longleftrightarrow> wf_target c \<and> (\<exists>bs. pool_rep c p bs \<and> F = fst ` live c 0 bs)"

definition own :: "target \<Rightarrow> nat set \<Rightarrow> ('v, 'a) world_scheme \<Rightarrow> bool" where
  "own c X s \<longleftrightarrow> owners_ok s \<and> arena_frames c (fpool s) (dom (frames s)) \<and>
     dom (frames s) = owned s \<union> slot_owned s \<union> X \<and> X \<inter> (owned s \<union> slot_owned s) = {} \<and>
     (\<forall>f \<in> owned s. \<exists>p. frames s f = Some (Initial p)) \<and>
     (\<forall>f x k. frames s f = Some (In_await (Child_awaiter x) k) \<longrightarrow> aw_child x = None)"

lemma own_cong:
  assumes "frames_kept s s'" "frames s' = frames s"
  shows "own c X s' = own c X s"
proof -
  have f: "tasks s' = tasks s" "fpool s' = fpool s" "handle_of s' = handle_of s" "max_tasks s' = max_tasks s"
    using assms(1) by (simp_all add: frames_kept_def)
  then have o: "owned s' = owned s" "slot_owned s' = slot_owned s" "sole_owners s' = sole_owners s"
    by (simp_all add: owned_def slot_owned_def sole_owners_def)
  show ?thesis unfolding own_def owners_ok_def o f assms(2) by (rule refl)
qed

section \<open>The pool\<close>

lemma live_addresses_differ:
  assumes "wf_target c" "pool_rep c p bs" "(a, lo, hi) \<in> live c 0 bs" "(a, lo', hi') \<in> live c 0 bs"
  shows "lo' = lo" "hi' = hi"
  using live_ptr_unique [OF assms(3,4) _ assms(1)] assms(2) by (auto simp: pool_rep_def)

lemma arena_free:
  assumes "arena_frames c p F" "f \<in> F"
  obtains p' where "deallocate c (Some f) p = Some (p', [])" "arena_frames c p' (F - {f})"
proof -
  obtain bs where w: "wf_target c" and bs: "pool_rep c p bs" "F = fst ` live c 0 bs"
    using assms(1) by (auto simp: arena_frames_def)
  then obtain lo hi where l: "(f, lo, hi) \<in> live c 0 bs" using assms(2) by auto
  from deallocate_spec [OF w bs(1) l] obtain p' bs' where
    d: "deallocate c (Some f) p = Some (p', [])" "pool_rep c p' bs'" "live c 0 bs' = live c 0 bs - {(f, lo, hi)}"
    by (elim exE conjE) (rule that)
  have u: "x = (f, lo, hi)" if "x \<in> live c 0 bs" "fst x = f" for x
    using live_addresses_differ [OF w bs(1) l, of "fst (snd x)" "snd (snd x)"] that by (cases x) auto
  have "fst ` live c 0 bs' = F - {f}"
  proof (rule set_eqI)
    fix g
    show "g \<in> fst ` live c 0 bs' \<longleftrightarrow> g \<in> F - {f}"
    proof
      assume "g \<in> fst ` live c 0 bs'"
      then obtain x where x: "x \<in> live c 0 bs" "x \<noteq> (f, lo, hi)" "fst x = g" by (auto simp only: d(3))
      then have "g \<noteq> f" using u by metis
      then show "g \<in> F - {f}" using x by (auto simp only: bs(2))
    next
      assume "g \<in> F - {f}"
      then obtain x where x: "x \<in> live c 0 bs" "fst x = g" "g \<noteq> f" unfolding bs(2) by (elim DiffE imageE) simp
      then have "x \<in> live c 0 bs'" unfolding d(3) by auto
      then show "g \<in> fst ` live c 0 bs'" using x(2) by (metis imageI)
    qed
  qed
  then have "arena_frames c p' (F - {f})" unfolding arena_frames_def using w d(2) by metis
  then show thesis by (rule that [OF d(1)])
qed

lemma arena_alloc:
  assumes "arena_frames c p F"
  obtains r p' where "allocate c sz (kAlign c) p = Some (r, p')"
    "arena_frames c p' (F \<union> set_option r)" "set_option r \<inter> F = {}"
proof -
  obtain bs where w: "wf_target c" and bs: "pool_rep c p bs" "F = fst ` live c 0 bs"
    using assms(1) by (auto simp: arena_frames_def)
  have ea: "effective_align c (kAlign c) = kAlign c" by (simp add: effective_align_def)
  from allocate_spec [OF w bs(1) align_fits [OF w], of sz, unfolded ea]
  obtain r p' bs' where a: "allocate c sz (kAlign c) p = Some (r, p')" and rep: "pool_rep c p' bs'"
    and r: "case r of None \<Rightarrow> bs' = bs \<and> p' = count_failure c p
      | Some a \<Rightarrow> \<exists>lo hi. live c 0 bs' = insert (a, lo, hi) (live c 0 bs) \<and>
         a mod kAlign c = 0 \<and> lo + kHeader c \<le> a \<and> a + sz \<le> hi \<and>
         storage_addr c \<le> lo \<and> hi \<le> storage_addr c + kUsable c \<and>
         (\<forall>(a', lo', hi') \<in> live c 0 bs. hi \<le> lo' \<or> hi' \<le> lo)"
    by (elim exE conjE) (rule that)
  show thesis
  proof (cases r)
    case None
    then show thesis using that [OF a] r rep w bs(2) by (auto simp: arena_frames_def)
  next
    case (Some h)
    obtain lo hi where h: "live c 0 bs' = insert (h, lo, hi) (live c 0 bs)"
      "lo + kHeader c \<le> h" "h + sz \<le> hi" "\<forall>(a', lo', hi') \<in> live c 0 bs. hi \<le> lo' \<or> hi' \<le> lo"
      using r Some by auto
    have "h \<notin> F"
    proof
      assume "h \<in> F"
      then obtain lo' hi' where l: "(h, lo', hi') \<in> live c 0 bs" by (auto simp: bs(2))
      then have d: "hi \<le> lo' \<or> hi' \<le> lo" using h(4) by auto
      have ok: "\<forall>b \<in> set bs. block_ok c b" using bs(1) by (simp add: pool_rep_def)
      from live_bounds [OF l ok] have "lo' + kHeader c \<le> h" "h \<le> hi'" by auto
      with d h(2,3) kHeader_bounds(4) [OF w] show False by auto
    qed
    moreover have "fst ` live c 0 bs' = insert h F" by (simp add: h(1) bs(2))
    then have "arena_frames c p' (insert h F)" unfolding arena_frames_def using w rep by metis
    ultimately show thesis using that [OF a] Some by simp
  qed
qed

section \<open>Moving frames between owners\<close>

lemma ownD:
  assumes "own c X s"
  shows "owners_ok s" "arena_frames c (fpool s) (dom (frames s))" "dom (frames s) = owned s \<union> slot_owned s \<union> X"
    "X \<inter> (owned s \<union> slot_owned s) = {}" "f \<in> owned s \<Longrightarrow> \<exists>p. frames s f = Some (Initial p)"
    "frames s f = Some (In_await (Child_awaiter x) k) \<Longrightarrow> aw_child x = None"
  using assms unfolding own_def by blast+

lemma own_owners:
  assumes "own c X s" "frames s' = frames s" "fpool s' = fpool s" "owners_ok s'"
    and "owned s' \<union> slot_owned s' \<union> X' = owned s \<union> slot_owned s \<union> X" "X' \<inter> (owned s' \<union> slot_owned s') = {}"
    and "\<And>f. f \<in> owned s' \<Longrightarrow> \<exists>p. frames s f = Some (Initial p)"
  shows "own c X' s'"
  unfolding own_def assms(2,3) assms(5) using assms(4,6,7) ownD(2,3,6) [OF assms(1)] by blast

lemma owners_okD:
  assumes "owners_ok s"
  shows "tasks s t = Some f \<Longrightarrow> tasks s u = Some f \<Longrightarrow> t = u"
    "i < max_tasks s \<Longrightarrow> j < max_tasks s \<Longrightarrow> handle_of s i = Some f \<Longrightarrow> handle_of s j = Some f \<Longrightarrow> i = j"
    "tasks s t = Some f \<Longrightarrow> i < max_tasks s \<Longrightarrow> handle_of s i \<noteq> Some f"
  using assms unfolding owners_ok_def sole_owners_def owned_def slot_owned_def by blast+

lemma owners_okI:
  assumes "\<And>t u f. tasks s t = Some f \<Longrightarrow> tasks s u = Some f \<Longrightarrow> t = u"
    "\<And>i j f. i < max_tasks s \<Longrightarrow> j < max_tasks s \<Longrightarrow> handle_of s i = Some f \<Longrightarrow> handle_of s j = Some f \<Longrightarrow> i = j"
    "\<And>t f i. tasks s t = Some f \<Longrightarrow> i < max_tasks s \<Longrightarrow> handle_of s i \<noteq> Some f"
  shows "owners_ok s"
  using assms unfolding owners_ok_def sole_owners_def owned_def slot_owned_def by blast

lemma owned_ran: "owned s = ran (tasks s)"
  by (simp add: owned_def ran_def)

definition slot_handle :: "'a sched_scheme \<Rightarrow> nat \<Rightarrow> nat option" where
  "slot_handle s i = (if i < max_tasks s then handle_of s i else None)"

lemma slot_owned_ran: "slot_owned s = ran (slot_handle s)"
  by (auto simp: slot_owned_def ran_def slot_handle_def)

lemma slot_handle_upd:
  assumes "handle_of s' = (handle_of s)(i := h)" "max_tasks s' = max_tasks s" "i < max_tasks s"
  shows "slot_handle s' = (slot_handle s)(i := h)"
  using assms by (auto simp: slot_handle_def fun_eq_iff)

lemma ran_drop:
  assumes "m a = Some b" and "\<And>x. m x = Some b \<Longrightarrow> x = a"
  shows "ran (m(a := None)) = ran m - {b}"
proof (rule set_eqI)
  fix y
  have "(\<exists>x. (m(a := None)) x = Some y) \<longleftrightarrow> (\<exists>x. m x = Some y \<and> x \<noteq> a)" by auto
  also have "\<dots> \<longleftrightarrow> y \<in> ran m \<and> y \<noteq> b" 
  proof
    assume "\<exists>x. m x = Some y \<and> x \<noteq> a"
    then obtain x where x: "m x = Some y" "x \<noteq> a" by blast
    then have "y \<noteq> b" using assms(2) [of x] by auto
    then show "y \<in> ran m \<and> y \<noteq> b" using x(1) by (simp add: ranI)
  next
    assume "y \<in> ran m \<and> y \<noteq> b"
    then obtain x where "m x = Some y" "y \<noteq> b" by (auto simp: ran_def)
    then show "\<exists>x. m x = Some y \<and> x \<noteq> a" using assms(1) by (intro exI [of _ x]) auto
  qed
  finally show "y \<in> ran (m(a := None)) \<longleftrightarrow> y \<in> ran m - {b}" by (simp add: ran_def)
qed

text \<open>A \<open>Task\<close> gives up its frame, or takes one over.\<close>

lemma own_release_task:
  fixes s s' :: "('v, 'a) world_scheme"
  assumes o: "own c X s" and t: "tasks s t = Some f"
    and s': "tasks s' = (tasks s)(t := None)" "handle_of s' = handle_of s" "max_tasks s' = max_tasks s"
      "fpool s' = fpool s" "frames s' = frames s"
  shows "own c (insert f X) s'" "f \<notin> X" "\<exists>p. frames s f = Some (Initial p)"
proof -
  note O = ownD(1) [OF o] and D = owners_okD [OF ownD(1) [OF o]]
  have w: "owned s' = owned s - {f}"
    unfolding owned_ran s'(1) by (rule ran_drop [where m = "tasks s", OF t]) (rule D(1) [OF _ t])
  have sl: "slot_owned s' = slot_owned s" by (simp add: slot_owned_def s'(2,3))
  have f: "f \<in> owned s" "f \<notin> slot_owned s" using t D(3) [OF t] by (auto simp: owned_def slot_owned_def)
  show fX: "f \<notin> X" using f(1) ownD(4) [OF o] by auto
  show "\<exists>p. frames s f = Some (Initial p)" by (rule ownD(5) [OF o f(1)])
  have "owners_ok s'"
    by (rule owners_okI) (auto simp: s' dest: D split: if_splits)
  then show "own c (insert f X) s'"
  proof (rule own_owners [OF o s'(5,4)])
    show "owned s' \<union> slot_owned s' \<union> insert f X = owned s \<union> slot_owned s \<union> X" unfolding w sl using f(1) by blast
    show "insert f X \<inter> (owned s' \<union> slot_owned s') = {}" unfolding w sl using f(2) fX ownD(4) [OF o] by blast
    show "\<exists>p. frames s g = Some (Initial p)" if "g \<in> owned s'" for g
      by (rule ownD(5) [OF o]) (use that w in simp)
  qed
qed

lemma own_take_task:
  fixes s s' :: "('v, 'a) world_scheme"
  assumes o: "own c (insert f X) s" and f: "f \<notin> X" "frames s f = Some (Initial p)" and t: "tasks s t = None"
    and s': "tasks s' = (tasks s)(t := Some f)" "handle_of s' = handle_of s" "max_tasks s' = max_tasks s"
      "fpool s' = fpool s" "frames s' = frames s"
  shows "own c X s'"
proof -
  note D = owners_okD [OF ownD(1) [OF o]]
  have w: "owned s' = insert f (owned s)" unfolding owned_ran s'(1) by (rule ran_map_upd) (rule t)
  have sl: "slot_owned s' = slot_owned s" by (simp add: slot_owned_def s'(2,3))
  have n: "f \<notin> owned s" "f \<notin> slot_owned s" using ownD(4) [OF o] by auto
  then have n': "tasks s u \<noteq> Some f" "i < max_tasks s \<Longrightarrow> handle_of s i \<noteq> Some f" for u i
    by (auto simp: owned_def slot_owned_def)
  have "owners_ok s'"
    by (rule owners_okI) (auto simp: s' n' dest: D split: if_splits)
  then show ?thesis
  proof (rule own_owners [OF o s'(5,4)])
    show "X \<inter> (owned s' \<union> slot_owned s') = {}" unfolding w sl using f(1) ownD(4) [OF o] by blast
    show "\<exists>p. frames s g = Some (Initial p)" if "g \<in> owned s'" for g
    proof (cases "g = f")
      case False
      with that have "g \<in> owned s" by (simp add: w)
      then show ?thesis by (rule ownD(5) [OF o])
    qed (use f(2) in simp)
    show "owned s' \<union> slot_owned s' \<union> X = owned s \<union> slot_owned s \<union> insert f X" unfolding w sl by blast
  qed
qed

text \<open>A slot gives up its frame, or adopts one.\<close>

lemma own_release_slot:
  fixes s s' :: "('v, 'a) world_scheme"
  assumes o: "own c X s" and i: "i < max_tasks s" "handle_of s i = Some f"
    and s': "tasks s' = tasks s" "handle_of s' = (handle_of s)(i := None)" "max_tasks s' = max_tasks s"
      "fpool s' = fpool s" "frames s' = frames s"
  shows "own c (insert f X) s'" "f \<notin> X"
proof -
  note D = owners_okD [OF ownD(1) [OF o]]
  have w: "owned s' = owned s" by (simp add: owned_def s'(1))
  have sl: "slot_owned s' = slot_owned s - {f}"
    unfolding slot_owned_ran slot_handle_upd [OF s'(2,3) i(1)]
  proof (rule ran_drop)
    show "slot_handle s i = Some f" using i by (simp add: slot_handle_def)
    show "j = i" if "slot_handle s j = Some f" for j
      using that by (intro D(2) [OF _ i(1) _ i(2)]) (simp_all add: slot_handle_def split: if_splits)
  qed
  have f: "f \<in> slot_owned s" "f \<notin> owned s" using i D(3) [OF _ i(1)] by (auto simp: owned_def slot_owned_def)
  show fX: "f \<notin> X" using f(1) ownD(4) [OF o] by auto
  have "owners_ok s'"
    by (rule owners_okI) (auto simp: s' dest: D split: if_splits)
  then show "own c (insert f X) s'"
  proof (rule own_owners [OF o s'(5,4)])
    show "owned s' \<union> slot_owned s' \<union> insert f X = owned s \<union> slot_owned s \<union> X" unfolding w sl using f(1) by blast
    show "insert f X \<inter> (owned s' \<union> slot_owned s') = {}" unfolding w sl using f(2) fX ownD(4) [OF o] by blast
    show "\<exists>p. frames s g = Some (Initial p)" if "g \<in> owned s'" for g
      by (rule ownD(5) [OF o]) (use that w in simp)
  qed
qed

lemma own_adopt_slot:
  fixes s s' :: "('v, 'a) world_scheme"
  assumes o: "own c (insert f X) s" and f: "f \<notin> X" and i: "i < max_tasks s" "handle_of s i = None"
    and s': "tasks s' = tasks s" "handle_of s' = (handle_of s)(i := Some f)" "max_tasks s' = max_tasks s"
      "fpool s' = fpool s" "frames s' = frames s"
  shows "own c X s'"
proof -
  note D = owners_okD [OF ownD(1) [OF o]]
  have w: "owned s' = owned s" by (simp add: owned_def s'(1))
  have sl: "slot_owned s' = insert f (slot_owned s)"
    unfolding slot_owned_ran slot_handle_upd [OF s'(2,3) i(1)]
    by (rule ran_map_upd) (simp add: slot_handle_def i(2))
  have n: "f \<notin> owned s" "f \<notin> slot_owned s" using ownD(4) [OF o] by auto
  then have n': "tasks s u \<noteq> Some f" "j < max_tasks s \<Longrightarrow> handle_of s j \<noteq> Some f" for u j
    by (auto simp: owned_def slot_owned_def)
  have "owners_ok s'"
    by (rule owners_okI) (auto simp: s' n' dest: D split: if_splits)
  then show ?thesis
  proof (rule own_owners [OF o s'(5,4)])
    show "owned s' \<union> slot_owned s' \<union> X = owned s \<union> slot_owned s \<union> insert f X" unfolding w sl by blast
    show "X \<inter> (owned s' \<union> slot_owned s') = {}" unfolding w sl using f ownD(4) [OF o] by blast
    show "\<exists>p. frames s g = Some (Initial p)" if "g \<in> owned s'" for g
      by (rule ownD(5) [OF o]) (use that w in simp)
  qed
qed

text \<open>Destroying a frame nobody owns any more.\<close>

lemma free_frame_fields:
  "tasks (free_frame c f s) = tasks s" "handle_of (free_frame c f s) = handle_of s"
  "max_tasks (free_frame c f s) = max_tasks s" "frames (free_frame c f s) = (frames s)(f := None)"
  "slots (free_frame c f s) = slots s" "current (free_frame c f s) = current s"
  by (auto simp: free_frame_def frame_delete_def set_frame_def Let_def split: option.split)

lemma own_free:
  assumes o: "own c (insert f X) s" and f: "f \<notin> X"
  shows "own c X (free_frame c f s)"
proof -
  let ?t = "free_frame c f s"
  have d: "f \<in> dom (frames s)" using ownD(3) [OF o] by blast
  obtain p' where p': "deallocate c (Some f) (fpool s) = Some (p', [])" "arena_frames c p' (dom (frames s) - {f})"
    by (rule arena_free [OF ownD(2) [OF o] d])
  have "fpool ?t = p'" using p'(1) by (simp add: free_frame_def frame_delete_def set_frame_def Let_def)
  moreover have dom: "dom (frames ?t) = dom (frames s) - {f}" by (auto simp: free_frame_fields)
  ultimately have a: "arena_frames c (fpool ?t) (dom (frames ?t))" using p'(2) by simp
  have w: "owned ?t = owned s" "slot_owned ?t = slot_owned s" "owners_ok ?t = owners_ok s"
    by (simp_all add: owned_def slot_owned_def owners_ok_def sole_owners_def free_frame_fields)
  have n: "f \<notin> owned s \<union> slot_owned s" using ownD(4) [OF o] by blast
  have "\<exists>p. frames ?t g = Some (Initial p)" if "g \<in> owned ?t" for g
    using that ownD(5) [OF o, of g] n w(1) by (auto simp: free_frame_fields)
  moreover have "aw_child x = None" if "frames ?t g = Some (In_await (Child_awaiter x) k)" for g x k
    using that ownD(6) [OF o] by (auto simp: free_frame_fields split: if_splits)
  ultimately show ?thesis
    unfolding own_def w dom using ownD(1,3,4) [OF o] a n f dom by auto
qed

end
