(* ===== verification/Program_Frames.thy ===== *)
theory Program_Frames
  imports Ownership
begin

text \<open>
  Every operation of a program keeps the ownership of frames, so every state a program reaches
  has it: \<open>co_await\<close> and its awaiters, the calls that move \<open>Task\<close> objects, the bodies, and
  through the interpretation \<open>owned\<close> of \<open>poll_system\<close> the scheduler's turns and polls.
\<close>

section \<open>Programs keep the invariant\<close>

definition same_owners :: "('v, 'a) world_scheme \<Rightarrow> ('v, 'a) world_scheme \<Rightarrow> bool" where
  "same_owners s s' \<longleftrightarrow> frames_kept s s' \<and> frames s' = frames s"

lemma own_same: "own c X s \<Longrightarrow> same_owners s s' \<Longrightarrow> own c X s'"
  using own_cong by (auto simp: same_owners_def)

lemma same_owners_refl [simp]: "same_owners s s"
  by (simp add: same_owners_def)

lemma same_owners_trans: "same_owners s t \<Longrightarrow> same_owners t u \<Longrightarrow> same_owners s u"
  by (auto simp: same_owners_def frames_kept_def)

lemma same_owners_more: "frames_kept s s' \<Longrightarrow> q_world.more s' = q_world.more s \<Longrightarrow> same_owners s s'"
  using world_of_more(1) by (auto simp: same_owners_def)

lemma calm_owners: "calm s s' \<Longrightarrow> frames_kept s s' \<Longrightarrow> same_owners s s'"
  by (rule same_owners_more) (simp_all add: calm_def)

lemma suspends_owners: "suspends A s s' \<Longrightarrow> frames_kept s s' \<Longrightarrow> same_owners s s'"
  by (rule same_owners_more) (simp_all add: suspends_def)

lemma sched_owners:
  fixes s s' :: "('v, 'a) world_scheme"
  shows "frames_kept s s' \<Longrightarrow> sched.more s' = sched.more s \<Longrightarrow> same_owners s s'"
  using objects_of_more(3) [of s' s] same_owners_more [of s s'] by blast

lemma await_end_owners:
  assumes inv: "sched_inv s" "program_ok s" and e: "await_end c a s = Some s'"
    and ch: "\<And>x. a = Child_awaiter x \<Longrightarrow> aw_child x = None"
  shows "same_owners s s'"
proof -
  have o: "objects_ok s" using inv(2) by (simp add: program_ok_def)
  show ?thesis
  proof (cases a)
    case (Send_awaiter x)
    obtain u where u: "send_destructor x s = Some u" "calm s u" by (rule send_destructor_calm [OF inv(1) o])
    then show ?thesis using e Send_awaiter calm_owners [OF u(2) awaiter_frames_kept(1) [OF u(1)]]
      by (simp add: await_end_def)
  next
    case (Receive_awaiter x)
    obtain u where u: "receive_destructor x s = Some u" "calm s (release x u)" by (rule receive_destructor_calm [OF inv(1) o])
    have "frames_kept s (release x u)" using awaiter_frames_kept(2) [OF u(1)] by simp
    then show ?thesis using e Receive_awaiter calm_owners [OF u(2)] u(1) \<open>frames_kept s (release x u)\<close>
      by (simp add: await_end_def)
  next
    case (Child_awaiter x)
    then show ?thesis using e ch by (simp add: await_end_def awaiter_destructor_def)
  qed (use e in \<open>simp_all add: await_end_def\<close>)
qed

lemma destroy_frame_own:
  assumes inv: "sched_inv s" "program_ok s" and o: "own c (insert f X) s" "f \<notin> X"
  shows "own c X (destroy_frame c f s)"
proof (cases "\<exists>a k. frames s f = Some (In_await a k)")
  case True
  then obtain a k where a: "frames s f = Some (In_await a k)" by blast
  obtain u where u: "await_end c a s = Some u" "tame s u" by (rule await_end_tame [OF inv])
  have "aw_child x = None" if "a = Child_awaiter x" for x
    using ownD(6) [OF o(1)] a that by blast
  then have "own c (insert f X) u" by (rule own_same [OF o(1) await_end_owners [OF inv u(1)]])
  from own_free [OF this o(2)] show ?thesis using a u(1) by (simp add: destroy_frame_def)
next
  case False
  then show ?thesis using own_free [OF o] by (auto simp: destroy_frame_def split: option.split frame.split)
qed

text \<open>The child an awaiter owns.\<close>

definition child_of :: "awaiter \<Rightarrow> nat set" where
  "child_of a = (case a of Child_awaiter x \<Rightarrow> set_option (aw_child x) | _ \<Rightarrow> {})"

lemma await_begin_own:
  assumes inv: "sched_inv s" "program_ok s" and o: "own c {} s" and b: "await_begin w s = (a, s')"
  shows "own c (child_of a) s'"
proof (cases w)
  case (On_task t)
  then have e: "s' = set_task t None s" "a = Child_awaiter (awaiter_make (tasks s t))"
    using b by (simp_all add: await_begin_def task_co_await_def Let_def)
  have fr: "frames (set_task t None s) = frames s" by (rule world_of_more(1)) (simp add: set_task_def)
  show ?thesis
  proof (cases "tasks s t")
    case None
    then have "same_owners s s'" using fr by (simp add: e same_owners_def frames_kept_def fun_upd_idem)
    then show ?thesis using own_same [OF o] None by (simp add: e child_of_def awaiter_make_def)
  next
    case (Some f)
    have "own c {f} s'" by (rule own_release_task [OF o Some]) (use fr in \<open>simp_all add: e\<close>)
    then show ?thesis using Some by (simp add: e child_of_def awaiter_make_def)
  qed
next
  case (On_send q v)
  have "same_owners s s'" "child_of a = {}" using b On_send
    by (auto simp: await_begin_def Let_def same_owners_def frames_kept_def queue_send_def upd_sender_def child_of_def)
  then show ?thesis using own_same [OF o] by simp
next
  case (On_receive q)
  have "same_owners s s'" "child_of a = {}" using b On_receive
    by (auto simp: await_begin_def Let_def same_owners_def frames_kept_def queue_receive_def upd_receiver_def child_of_def)
  then show ?thesis using own_same [OF o] by simp
qed (use o b in \<open>auto simp: await_begin_def child_of_def\<close>)

lemma await_ready_owners:
  assumes inv: "sched_inv s" "program_ok s" "unparked a s" and r: "await_ready a s = (b, s')"
  shows "same_owners s s'"
proof -
  have o: "objects_ok s" using inv(2) by (simp add: program_ok_def)
  show ?thesis
  proof (cases a)
    case (Flag_awaiter g)
    then have "s' = snd (flag_consume g s)" using r by (simp add: await_ready_def)
    then show ?thesis using calm_owners [OF flag_consume_calm [OF inv(1) o, of g] flag_frames_kept(1)] by simp
  next
    case (Send_awaiter x)
    then have "s' = snd (do_send (sa_queue (senders s x)) (sa_value (senders s x)) s)"
      using r by (simp add: await_ready_def send_ready_def)
    then show ?thesis using calm_owners [OF do_send_calm [OF inv(1) o] queue_frames_kept(1)] by simp
  next
    case (Receive_awaiter x)
    then have "s' = snd (receive_ready x s)" "\<not> ra_linked (receivers s x)"
      using r inv(3) by (simp_all add: await_ready_def unparked_def)
    then show ?thesis using calm_owners [OF receive_ready_calm [OF inv(1) o] queue_frames_kept(3)] by simp
  qed (use r in \<open>auto simp: await_ready_def\<close>)
qed


lemma start_child_own:
  fixes s :: "('v, 'a) world_scheme"
  assumes inv: "sched_inv s" and o: "own c {f} s" and r: "start_child (unstarted c) (Some f) h s = (b, s')"
  shows "own c {} s'"
proof -
  let ?d = "free_frame c f s"
  have d: "own c {} ?d" by (rule own_free [OF o]) simp
  have e: "handle_destroy (unstarted c) (Some f) s = ?d" by (simp add: handle_destroy_def unstarted_def)
  have err: "own c {} (on_error x u)" if "own c {} u" for x and u :: "('v, 'a) world_scheme"
    by (rule own_same [OF that sched_owners]) (simp_all add: frames_kept_def)
  show ?thesis
  proof (cases "\<exists>p. current s = Some p \<and> st_of s p = Running \<and> handle_of s p = h")
    case False
    then have "s' = on_error Invalid_task ?d"
      using r unfolding start_child_def start_child_cases e if_not_P [OF False] by simp
    then show ?thesis using err [OF d] by simp
  next
    case True
    show ?thesis
    proof (cases "acquire_slot s")
      case (Pair k s1)
      show ?thesis
      proof (cases k)
        case None
        then have "s' = on_error Task_limit (make_ready (the (current s)) ?d)"
          using r True Pair unfolding start_child_def start_child_cases e by simp
        moreover have "own c {} (make_ready (the (current s)) ?d)"
          by (rule own_same [OF d sched_owners]) (simp_all add: frames_kept_def)
        ultimately show ?thesis using err by simp
      next
        case (Some i)
        then have s': "s' = set_state (the (current s)) Waiting_child (adopt i (Some f) (current s) s1)"
          using r True Pair unfolding start_child_def start_child_cases e by simp
        note aq = acquire_Some [OF Pair [unfolded Some]]
        have m: "sched.more s' = sched.more s" by (simp add: s' aq(4))
        have n: "handle_of s i = None" using sched_invD(7) [OF inv] aq(1,2) by (simp add: frame_ok_def)
        show ?thesis
        proof (rule own_adopt_slot [OF o _ aq(1) n])
          show "frames s' = frames s" using objects_of_more(3) [OF m] world_of_more(1) by blast
        qed (auto simp: s' aq(4) fun_eq_iff)
      qed
    qed
  qed
qed

lemma await_suspend_own:
  assumes inv: "sched_inv s" "program_ok s" and o: "own c (child_of a) s"
    and a: "unparked a s" "await_ready a s = (False, s)"
    and run: "current s = Some i" "st_of s i = Running" "handle_of s i = h"
    and r: "await_suspend c h a s = (b, a', s')"
  shows "own c {} s'" "child_of a' = {}"
proof -
  have ob: "objects_ok s" using inv(2) by (simp add: program_ok_def)
  have own: "running_is h s = (True, s)" using run by (simp add: running_is_def)
  have "own c {} s' \<and> child_of a' = {}"
  proof (cases a)
    case Yield_awaiter
    then show ?thesis
      using r o own_same [OF _ suspends_owners [OF yield_suspends [OF inv(1) ob run(1,2)] sched_frames_kept(1)]]
      by (auto simp: await_suspend_def yield_suspend_def child_of_def)
  next
    case (Delay_awaiter d)
    then show ?thesis
      using r o own_same [OF _ suspends_owners [OF delay_suspends [OF inv(1) ob run(1,2)] sched_frames_kept(2)]]
      by (auto simp: await_suspend_def delay_suspend_def child_of_def)
  next
    case (Event_awaiter e)
    obtain u where u: "event_suspend e h s = (True, u)" "suspends {} s u" by (rule event_park_suspends [OF inv(1) ob run])
    then show ?thesis
      using r o own_same [OF _ suspends_owners [OF u(2) event_frames_kept(1) [OF u(1)]]] Event_awaiter
      by (auto simp: await_suspend_def child_of_def)
  next
    case (Flag_awaiter g)
    show ?thesis
    proof (cases "waiter_of s g")
      case None
      obtain u where u: "flag_park g h s = (True, u)" "suspends {} s u" by (rule flag_park_suspends [OF inv(1) ob run None])
      have "frames_kept s u" using flag_frames_kept(2) [of s g h] by (simp add: u(1))
      from own_same [OF _ suspends_owners [OF u(2) this]] show ?thesis
        using r o u(1) Flag_awaiter by (auto simp: await_suspend_def child_of_def)
    next
      case (Some j)
      then have s': "s' = on_error Multiple_flag_waiters s" "a' = a"
        using r Flag_awaiter own by (simp_all add: await_suspend_def flag_park_def)
      have "same_owners s s'" unfolding s' by (rule sched_owners) (simp_all add: frames_kept_def)
      then show ?thesis using own_same o Flag_awaiter s'(2) by (simp add: child_of_def)
    qed
  next
    case (Send_awaiter x)
    then have n: "\<not> sa_linked (senders s x)" "fst (send_ready x s) = False"
      using a by (simp_all add: unparked_def await_ready_def)
    obtain u where u: "send_suspend x h s = (True, u)" "suspends {x} s u" by (rule send_park_suspends [OF inv(1) ob run n])
    have "frames_kept s u" using queue_frames_kept(4) [of s x h] by (simp add: u(1))
    from own_same [OF _ suspends_owners [OF u(2) this]] show ?thesis
      using r o u(1) Send_awaiter by (auto simp: await_suspend_def child_of_def)
  next
    case (Receive_awaiter x)
    then have n: "\<not> ra_linked (receivers s x)" "\<not> ra_has_result (receivers s x)" "fst (receive_ready x s) = False"
      using a by (simp_all add: unparked_def await_ready_def)
    obtain u where u: "receive_suspend x h s = (True, u)" "suspends {x} s u"
      by (rule receive_park_suspends [OF inv(1) ob run n])
    have "frames_kept s u" using queue_frames_kept(5) [of s x h] by (simp add: u(1))
    from own_same [OF _ suspends_owners [OF u(2) this]] show ?thesis
      using r o u(1) Receive_awaiter by (auto simp: await_suspend_def child_of_def)
  next
    case (Child_awaiter x)
    have "\<not> aw_was_empty x" using a(2) Child_awaiter by (simp add: await_ready_def awaiter_ready_def)
    then obtain f where f: "aw_child x = Some f" using a(1) Child_awaiter by (auto simp: unparked_def)
    have "start_child (unstarted c) (Some f) h s = (b, s')" "child_of a' = {}"
      using r f Child_awaiter by (auto simp: await_suspend_def awaiter_suspend_def Let_def child_of_def split: prod.splits)
    then show ?thesis using start_child_own [OF inv(1)] o f Child_awaiter by (simp add: child_of_def)
  qed
  then show "own c {} s'" "child_of a' = {}" by blast+
qed

lemma await_finish_owners:
  assumes inv: "sched_inv s" "program_ok s" and ch: "child_of a = {}" and r: "await_finish c fallback a s = Some (x, s')"
  shows "same_owners s s'"
proof -
  have o: "objects_ok s" using inv(2) by (simp add: program_ok_def)
  obtain y s1 where s1: "await_resume fallback a s = Some (y, s1)" "await_end c a s1 = Some s'"
    using r by (auto simp: await_finish_def split: option.splits)
  have c: "aw_child x = None" if "a = Child_awaiter x" for x using ch that by (simp add: child_of_def)
  have "calm s s1 \<and> same_owners s s1"
  proof (cases a)
    case (Receive_awaiter r)
    then obtain v where v: "receive_resume fallback r s = Some (v, s1)" using s1(1) by (auto simp: await_resume_def)
    show ?thesis using receive_resume_calm [OF inv(1) o v] calm_owners awaiter_frames_kept(3) [OF v] by blast
  next
    case (Child_awaiter r)
    have "same_owners s (on_error Task_awaited_twice s)" by (rule sched_owners) (simp_all add: frames_kept_def)
    then show ?thesis using s1(1) Child_awaiter calm_refl [OF inv(1) o] on_error_calm [OF inv(1) o]
      by (auto simp: await_resume_def awaiter_resume_def)
  qed (use s1(1) calm_refl [OF inv(1) o] in \<open>auto simp: await_resume_def\<close>)
  then have t: "tame s s1" "same_owners s s1" using calm_tame [OF inv(2)] by blast+
  show ?thesis
    by (rule same_owners_trans [OF t(2) await_end_owners [OF tameD(1,2) [OF t(1)] s1(2)]]) (rule c)
qed


lemma co_await_own:
  assumes inv: "sched_inv s" "program_ok s" and o: "own c {} s"
    and run: "current s = Some i" "st_of s i = Running" "handle_of s i = h"
    and r: "co_await c fallback h w s = Some (x, s')"
  shows "own c {} s'" "x = Inr d \<Longrightarrow> child_of d = {}"
proof -
  obtain a s1 where b: "await_begin w s = (a, s1)" by fastforce
  note t1 = await_begin_tame [OF inv b]
  have o1: "own c (child_of a) s1" by (rule await_begin_own [OF inv o b])
  obtain ok s2 where rd: "await_ready a s1 = (ok, s2)" by fastforce
  note t2 = await_ready_tame [OF tameD(1,2) [OF t1(1)] t1(2) rd]
  have o2: "own c (child_of a) s2" by (rule own_same [OF o1 await_ready_owners [OF tameD(1,2) [OF t1(1)] t1(2) rd]])
  have fin: "own c {} u" if "sched_inv t" "program_ok t" "own c {} t" "child_of d = {}"
      "await_finish c fallback d t = Some (y, u)" for t d y u
    by (rule own_same [OF that(3) await_finish_owners [OF that(1,2,4,5)]])
  have "own c {} s' \<and> (\<forall>a. x = Inr a \<longrightarrow> child_of a = {})"
  proof (cases ok)
    case True
    then obtain y where y: "await_finish c fallback a s2 = Some (y, s')" "x = Inl y"
      using r b rd by (auto simp: co_await_def)
    have c: "child_of a = {}"
      using rd True t1(2) by (cases a) (auto simp: await_ready_def awaiter_ready_def unparked_def child_of_def)
    show ?thesis using fin [OF tameD(1,2) [OF t2(1)] _ c y(1)] o2 y(2) by (simp add: c)
  next
    case False
    then have e: "s2 = s1" using t2(2) by simp
    obtain susp a' s3 where sp: "await_suspend c h a s1 = (susp, a', s3)" by (metis surj_pair)
    have run1: "current s1 = Some i" "st_of s1 i = Running" "handle_of s1 i = h"
      by (rule running_kept [OF t1(1) run])+
    have rf: "await_ready a s1 = (False, s1)" using rd False e by simp
    note st = await_suspend_steps [OF tameD(1,2) [OF t1(1)] t1(2) rf run1 sp]
    note os = await_suspend_own [OF tameD(1,2) [OF t1(1)] o1 t1(2) rf run1 sp]
    show ?thesis
    proof (cases susp)
      case True
      then have "x = Inr a' \<and> s' = s3" using r b rf sp by (simp add: co_await_def)
      then show ?thesis using os by simp
    next
      case False
      then obtain y where y: "await_finish c fallback a' s3 = Some (y, s')" "x = Inl y"
        using r b rf sp by (auto simp: co_await_def)
      show ?thesis using fin [OF tameD(1,2) [OF st(2) [OF False]] os y(1)] y(2) by simp
    qed
  qed
  then show "own c {} s'" "x = Inr d \<Longrightarrow> child_of d = {}" by blast+
qed

section \<open>Calls and bodies\<close>

lemma set_frame_kept [simp]: "frames_kept s (set_frame f x t) = frames_kept s t"
  by (simp add: frames_kept_def set_frame_def)

lemma same_set_task:
  fixes s :: "('v, 'a) world_scheme"
  shows "frames (set_task t h s) = frames s"
  by (rule world_of_more(1)) (simp add: set_task_def)

lemma coroutine_call_own:
  fixes s :: "('v, 'a) world_scheme"
  assumes o: "own c {} s" and t: "tasks s t = None" and r: "coroutine_call c sz t s = Some s1"
  shows "own c {} (case tasks s1 t of None \<Rightarrow> s1 | Some f \<Rightarrow> set_frame f (Some (Initial p)) s1)"
proof -
  obtain a p' where a: "allocate c sz (kAlign c) (fpool s) = Some (a, p')"
    "arena_frames c p' (dom (frames s) \<union> set_option a)" "set_option a \<inter> dom (frames s) = {}"
    by (rule arena_alloc [OF ownD(2) [OF o]])
  have own': "owned u = owned s" "slot_owned u = slot_owned s" "owners_ok u = owners_ok s"
    if "tasks u = tasks s" "handle_of u = handle_of s" "max_tasks u = max_tasks s" for u :: "('v, 'a) world_scheme"
    using that by (simp_all add: owned_def slot_owned_def owners_ok_def sole_owners_def)
  show ?thesis
  proof (cases a)
    case None
    then have s1: "s1 = set_task t None (on_error Frame_pool_exhausted (s\<lparr>fpool := p'\<rparr>))"
      using r a(1) by (simp add: coroutine_call_def frame_alloc_def task_default_def)
    have f: "tasks s1 = tasks s" "handle_of s1 = handle_of s" "max_tasks s1 = max_tasks s" "fpool s1 = p'" "frames s1 = frames s"
      using t world_of_more(1) [of s1 s] by (simp_all add: s1 fun_upd_idem set_task_def on_error_def)
    have "own c {} s1"
      unfolding own_def own' [OF f(1-3)] f(4,5) using ownD [OF o] a(2) None by simp
    then show ?thesis using f(1) t by simp
  next
    case (Some h)
    let ?u = "set_frame h (Some (Initial p)) (s\<lparr>fpool := p'\<rparr>)"
    let ?w = "set_frame h (Some (Initial p)) s1"
    have s1: "s1 = set_task t (Some h) (s\<lparr>fpool := p'\<rparr>)"
      using r a(1) Some by (simp add: coroutine_call_def frame_alloc_def)
    have fr: "frames s1 = frames s" using world_of_more(1) [of s1 s] by (simp add: s1 set_task_def)
    have h: "h \<notin> dom (frames s)" using a(3) Some by simp
    have n: "h \<notin> owned s \<union> slot_owned s" using h ownD(3) [OF o] by simp
    have f: "tasks ?u = tasks s" "handle_of ?u = handle_of s" "max_tasks ?u = max_tasks s" "fpool ?u = p'"
      "frames ?u = (frames s)(h := Some (Initial p))"
      by (simp_all add: set_frame_def)
    have "dom (frames ?u) = insert h (dom (frames s))" by (simp add: f(5))
    then have "own c {h} ?u"
      unfolding own_def own' [OF f(1-3)] f(4) using ownD [OF o] a(2) Some n
      by (auto simp: f(5) simp del: Un_iff)
    then have "own c {} ?w"
      by (rule own_take_task [where t = t and p = p])
        (use t fr in \<open>simp_all add: s1 set_frame_def f(5)\<close>)
    then show ?thesis by (simp add: s1)
  qed
qed


lemma schedule_own:
  fixes s :: "('v, 'a) world_scheme"
  assumes inv: "sched_inv s" and o: "own c {} s"
  shows "own c {} (snd (create_task t s))"
proof (cases "shutting_down s \<or> tasks s t = None \<or> fst (acquire_slot s) = None")
  case True
  then have "snd (create_task t s) = s \<or> (\<exists>e. snd (create_task t s) = on_error e s)"
    using acquire_slot_shape [of s] by (auto simp: create_task_def schedule_cases split: option.split)
  moreover have "same_owners s (on_error e s)" for e
    by (rule sched_owners) (simp_all add: frames_kept_def)
  ultimately show ?thesis using o own_same by metis
next
  case False
  then obtain f k where f: "tasks s t = Some f" and a: "acquire_slot s = (Some k, set_generation k (gen_of s k + 1) s)"
    using acquire_slot_shape [of s] by auto
  let ?u = "set_task t None s"
  let ?s = "adopt k (Some f) None (set_generation k (gen_of s k + 1) ?u)"
  have eq: "snd (create_task t s) = ?s"
    using False f a by (simp add: create_task_def schedule_cases Let_def set_task_upd_slot)
  note aq = acquire_Some [OF a]
  have u: "own c {f} ?u" by (rule own_release_task [OF o f]) (simp_all add: same_set_task)
  have "frames ?s = frames s"
    using objects_of_more(3) [of ?s s] world_of_more(1) [of ?s s] by simp
  moreover have "handle_of s k = None" using sched_invD(7) [OF inv] aq(1,2) by (simp add: frame_ok_def)
  ultimately show ?thesis
    unfolding eq by (intro own_adopt_slot [OF u, of k]) (use aq(1) in \<open>auto simp: same_set_task fun_eq_iff\<close>)
qed

lemma drop_own:
  fixes s s' :: "('v, 'a) world_scheme"
  assumes inv: "sched_inv s" "program_ok s" and o: "own c {} s" and t: "tasks s t = Some f"
  shows "own c {} (destroy_frame c f (set_task t None s))"
proof -
  have "own c {f} (set_task t None s)" by (rule own_release_task [OF o t]) (simp_all add: same_set_task)
  moreover have "tame s (set_task t None s)" by (rule core_tame [OF inv]) simp_all
  ultimately show ?thesis using destroy_frame_own [of "set_task t None s" c f "{}"] tameD by blast
qed

lemma transfer_own:
  fixes s :: "('v, 'a) world_scheme"
  assumes o: "own c {} s" and t: "tasks s t = None" and tu: "t \<noteq> u"
  shows "own c {} (set_task u None (set_task t (tasks s u) s))"
proof (cases "tasks s u")
  case None
  have "tasks (set_task u None (set_task t (tasks s u) s)) = tasks s"
    using None t by (auto simp: fun_eq_iff)
  then have "same_owners s (set_task u None (set_task t (tasks s u) s))"
    by (simp add: same_owners_def frames_kept_def same_set_task del: core_fields(6))
  then show ?thesis by (rule own_same [OF o])
next
  case (Some f)
  let ?v = "set_task u None s" and ?w = "set_task u None (set_task t (tasks s u) s)"
  have v: "own c {f} ?v" "\<exists>p. frames s f = Some (Initial p)"
    using own_release_task(1,3) [OF o Some, of ?v] by (simp_all add: same_set_task)
  then obtain p where p: "frames s f = Some (Initial p)" by blast
  show ?thesis
    by (rule own_take_task [OF v(1), where t = t and p = p]) (use p t tu Some in \<open>auto simp: same_set_task fun_eq_iff\<close>)
qed

lemma assign_own:
  fixes s :: "('v, 'a) world_scheme"
  assumes inv: "sched_inv s" "program_ok s" and o: "own c {} s"
  shows "own c {} (task_assign (destroy_frame c) t u s)"
proof (cases "t = u")
  case True
  then show ?thesis using o by (simp add: task_assign_def)
next
  case ne: False
  show ?thesis
  proof (cases "tasks s t")
    case None
    then show ?thesis using transfer_own [OF o None ne] ne by (simp add: task_assign_def Let_def)
  next
    case (Some f)
    let ?v = "set_task t None s" and ?w = "set_task u None (set_task t (tasks s u) s)"
    have v: "own c {f} ?v" by (rule own_release_task [OF o Some]) (simp_all add: same_set_task)
    have "own c {f} ?w"
    proof (cases "tasks s u")
      case None
      then have "tasks ?w = tasks ?v" using ne by (auto simp: fun_eq_iff)
      then have "same_owners ?v ?w"
        by (simp add: same_owners_def frames_kept_def same_set_task del: core_fields(6))
      then show ?thesis by (rule own_same [OF v])
    next
      case (Some g)
      have gf: "g \<noteq> f" using owners_okD(1) [OF ownD(1) [OF o]] Some \<open>tasks s t = Some f\<close> ne by blast
      have tu: "tasks ?v u = Some g" using Some ne by simp
      let ?x = "set_task u None ?v"
      have x: "own c {g, f} ?x" "\<exists>p. frames ?v g = Some (Initial p)"
        using own_release_task(1,3) [OF v tu, of ?x] by (simp_all add: same_set_task)
      then obtain p where p: "frames s g = Some (Initial p)" by (auto simp: same_set_task)
      show ?thesis
        by (rule own_take_task [OF x(1), where t = t and p = p])
          (use p gf ne Some in \<open>auto simp: same_set_task fun_eq_iff\<close>)
    qed
    moreover have "tame s ?w" by (rule core_tame [OF inv]) simp_all
    ultimately have "own c {} (destroy_frame c f ?w)"
      using destroy_frame_own [of ?w c f "{}"] tameD by blast
    then show ?thesis using ne Some by (simp add: task_assign_def Let_def)
  qed
qed


lemma do_call_own:
  assumes inv: "sched_inv s" "program_ok s" and o: "own c {} s" and r: "do_call c x s = Some (y, s')"
  shows "own c {} s'"
proof -
  have ob: "objects_ok s" using inv(2) by (simp add: program_ok_def)
  note same = own_same [OF o calm_owners]
  have own_part: "own c {} (s\<lparr>board := b\<rparr>)" for b
    by (rule own_same [OF o]) (simp add: same_owners_def frames_kept_def)
  show ?thesis
  proof (cases x)
    case (Set_event e)
    obtain u where u: "event_set e s = Some u" "calm s u" by (rule event_set_calm [OF inv(1) ob])
    then show ?thesis using r same [OF u(2) event_frames_kept(2) [OF u(1)]] Set_event by (simp add: do_call_def)
  next
    case (Clear_event e)
    then show ?thesis using r same [OF event_clear_calm [OF inv(1) ob] event_frames_kept(3)] by (auto simp: do_call_def)
  next
    case (Set_flag g)
    then show ?thesis using r same [OF flag_set_calm [OF inv(1) ob] flag_frames_kept(3)] by (auto simp: do_call_def)
  next
    case (Clear_flag g)
    then show ?thesis using r same [OF set_signaled_calm [OF inv(1) ob, of g False]]
      by (auto simp: do_call_def flag_clear_def)
  next
    case (Try_send q v)
    then have "s' = snd (do_send q v s)"
      using r by (cases "do_send q v s") (simp add: do_call_def try_send_def)
    then show ?thesis using same [OF do_send_calm [OF inv(1) ob] queue_frames_kept(1)] by simp
  next
    case (Try_receive q)
    then have "s' = snd (try_receive q s)" using r by (cases "try_receive q s") (simp add: do_call_def)
    then show ?thesis using same [OF try_receive_calm [OF inv(1) ob] queue_frames_kept(2)] by simp
  next
    case (New_task sz t p)
    then obtain s1 where s1: "coroutine_call c sz t s = Some s1" "tasks s t = None"
      "s' = (case tasks s1 t of None \<Rightarrow> s1 | Some f \<Rightarrow> set_frame f (Some (Initial p)) s1)"
      using r by (auto simp: do_call_def task_bool_def split: if_splits)
    show ?thesis unfolding s1(3) by (rule coroutine_call_own [OF o s1(2,1)])
  next
    case (Move_task t u)
    then have t: "tasks s t = None" "s' = set_task u None (set_task t (tasks s u) s)"
      using r by (auto simp: do_call_def task_bool_def task_move_def Let_def split: if_splits)
    show ?thesis
    proof (cases "t = u")
      case True
      then have "s' = s" using t by (simp add: set_task_def fun_upd_idem)
      then show ?thesis using o by simp
    next
      case False
      then show ?thesis using transfer_own [OF o t(1)] t(2) by simp
    qed
  next
    case (Assign_task t u)
    then show ?thesis using r assign_own [OF inv o] by (auto simp: do_call_def)
  next
    case (Drop_task t)
    then show ?thesis using r o drop_own [OF inv o]
      by (auto simp: do_call_def task_destructor_def task_reset_def Let_def split: option.splits)
  next
    case (Create_task t)
    then have "s' = snd (create_task t s)" using r by (cases "create_task t s") (simp add: do_call_def)
    then show ?thesis using schedule_own [OF inv(1) o] by simp
  next
    case (Spawn_task t)
    then have "s' = snd (create_task t s)" using r by (auto simp: do_call_def spawn_def create_task_def)
    then show ?thesis using schedule_own [OF inv(1) o] by simp
  next
    case (Report e)
    then show ?thesis using r same [OF on_error_calm [OF inv(1) ob]] by (auto simp: do_call_def)
  next
    case (Board x)
    then show ?thesis using r own_part by (auto simp: do_call_def split: prod.splits)
  qed (use r o in \<open>auto simp: do_call_def\<close>)
qed

text \<open>The frame of the running task changes its content, not its owner.\<close>

lemma set_frame_own:
  assumes o: "own c {} s" and f: "f \<in> slot_owned s" and x: "\<And>y k. x = In_await (Child_awaiter y) k \<Longrightarrow> aw_child y = None"
  shows "own c {} (set_frame f (Some x) s)"
proof -
  let ?s = "set_frame f (Some x) s"
  have d: "f \<in> dom (frames s)" "f \<notin> owned s" using f ownD(1,3) [OF o] by (auto simp: owners_ok_def)
  have w: "owned ?s = owned s" "slot_owned ?s = slot_owned s" "owners_ok ?s = owners_ok s" "fpool ?s = fpool s"
    "frames ?s = (frames s)(f := Some x)"
    by (simp_all add: owned_def slot_owned_def owners_ok_def sole_owners_def set_frame_def)
  have dm: "dom (frames ?s) = dom (frames s)" using d(1) by (auto simp: w(5))
  have "\<exists>p. frames ?s g = Some (Initial p)" if "g \<in> owned s" for g
    using ownD(5) [OF o that] that d(2) by (auto simp: w(5))
  moreover have "aw_child y = None" if "frames ?s g = Some (In_await (Child_awaiter y) k)" for g y k
    using that ownD(6) [OF o] x by (auto simp: w(5) split: if_splits)
  ultimately show ?thesis unfolding own_def dm w(1-4) using ownD(1-4) [OF o] by blast
qed

lemma run_body_own:
  assumes "run_body c fallback f p s = Some s'" and "sched_inv s" "program_ok s" "own c {} s"
    and "current s = Some i" "st_of s i = Running" "handle_of s i = Some f"
  shows "own c {} s'"
  using assms
proof (induction arbitrary: i rule: run_body.raw_induct [rotated, consumes 1])
  case (1 run c fallback f p s s' i)
  note inv = "1.prems"(1,2) and o = "1.prems"(3) and run = "1.prems"(4-6)
  have own_f: "f \<in> slot_owned u" if "sched_inv u" "current u = Some i" "handle_of u i = Some f" for u :: "('a, 'b) world_scheme"
    using that sched_invD(8) [OF that(1)] by (auto simp: slot_owned_def current_ok_def)
  show ?case
  proof (cases p)
    case Co_return
    then have e: "s' = set_frame f (Some Final) s" using "1.hyps" by simp
    show ?thesis unfolding e by (rule set_frame_own [OF o own_f [OF inv(1) run(1,3)]]) simp
  next
    case (Call x k)
    then obtain y s1 where s1: "do_call c x s = Some (y, s1)" "run c fallback f (k y) s1 = Some s'"
      using "1.hyps" by (auto split: option.splits)
    note t = do_call_tame [OF inv s1(1)]
    show ?thesis
      by (rule "1.IH" [OF s1(2) tameD(1,2) [OF t] do_call_own [OF inv o s1(1)] running_kept [OF t run]])
  next
    case (Co_await w k)
    then obtain x s1 where s1: "co_await c fallback (Some f) w s = Some (x, s1)"
      using "1.hyps" by (auto split: option.splits)
    note st = co_await_steps [OF inv run s1] and os = co_await_own [OF inv o run s1]
    show ?thesis
    proof (cases x)
      case (Inl y)
      then have r: "run c fallback f (k y) s1 = Some s'" using s1 Co_await "1.hyps" by simp
      note t = st(2) [OF Inl]
      show ?thesis by (rule "1.IH" [OF r tameD(1,2) [OF t] os(1) running_kept [OF t run]])
    next
      case (Inr a)
      then have e: "s' = set_frame f (Some (In_await a k)) s1" using s1 Co_await "1.hyps" by simp
      have i1: "sched_inv s1" "evolves s s1" using st(1) by (simp_all add: yields_def)
      have "current s1 = Some i" "handle_of s1 i = Some f"
        using evolvesD(2) [OF i1(2)] evolves_slot [OF i1(2), of i] run by (simp_all add: slot_step_def)
      from own_f [OF i1(1) this] show ?thesis
        unfolding e by (rule set_frame_own [OF os(1)]) (use os(2) [OF Inr] in \<open>simp add: child_of_def\<close>)
    qed
  qed
qed

lemma resume_frame_own:
  assumes inv: "sched_inv s" "program_ok s" and o: "own c {} s"
    and run: "current s = Some i" "st_of s i = Running" "handle_of s i = Some f"
    and r: "resume_frame c fallback f s = Some s'"
  shows "own c {} s'"
proof -
  consider (start) p where "frames s f = Some (Initial p)" "run_body c fallback f p s = Some s'"
    | (await) a k y s1 where "frames s f = Some (In_await a k)" "await_finish c fallback a s = Some (y, s1)"
        "run_body c fallback f (k y) s1 = Some s'"
    using r by (auto simp: resume_frame_def split: option.splits frame.splits)
  then show ?thesis
  proof cases
    case start
    then show ?thesis using run_body_own [OF _ inv o run] by blast
  next
    case await
    have c: "child_of a = {}" using ownD(6) [OF o] await(1) by (auto simp: child_of_def split: awaiter.split)
    have t: "tame s s1" by (rule await_finish_tame [OF inv await(2)])
    have o1: "own c {} s1" by (rule own_same [OF o await_finish_owners [OF inv c await(2)]])
    show ?thesis by (rule run_body_own [OF await(3) tameD(1,2) [OF t] o1 running_kept [OF t run]])
  qed
qed

section \<open>Polls\<close>

text \<open>
  The frames of a program are owned throughout a pass: a second instance of the interface of
  the scheduler, at the invariant that also speaks of ownership.
\<close>

interpretation owned: poll_system "program c fallback :: ('v, 'a) world_scheme coro"
    "\<lambda>s. program_ok s \<and> own c {} s" resolve_signals
  for c and fallback :: "'v option"
proof
  fix s :: "('v, 'a) world_scheme" and i f
  assume a: "sched_inv s" "program_ok s \<and> own c {} s" "current s = Some i" "st_of s i = Running" "handle_of s i = Some f"
  let ?s' = "co_resume (program c fallback) f s"
  have "own c {} ?s'"
    using resume_frame_own [OF a(1) _ _ a(3-5)] a(2)
    by (cases "resume_frame c fallback f s") (simp_all add: program_def)
  then show "sched_inv ?s' \<and> (program_ok ?s' \<and> own c {} ?s') \<and> evolves s ?s'"
    using prog.resume [OF a(1) _ a(3-5)] a(2) by blast
  show "st_of ?s' i = Running" if "co_done (program c fallback) f (?s'\<lparr>current := None\<rparr>)"
    using prog.finished [OF a(1) _ a(3-5) that] a(2) by blast
next
  fix s s' :: "('v, 'a) world_scheme" and i f
  assume a: "sched_inv s" "program_ok s \<and> own c {} s" "i < max_tasks s" "handle_of s i = Some f" "co_done (program c fallback) f s"
  let ?d = "co_destroy (program c fallback) f s"
  show "sched_inv ?d \<and> quiet s ?d" using prog.destroy [OF a(1) _ a(3-5)] a(2) by blast
  assume e: "end_same i ?d s'"
  have "frames s f = Some Final" using a(5) by (auto simp: program_def frame_done_def split: option.splits frame.splits)
  then have d: "?d = free_frame c f s" by (simp add: program_def destroy_frame_def)
  let ?t = "set_handle i None s"
  have fr: "frames ?t = frames s"
    using objects_of_more(3) [of ?t s] world_of_more(1) [of ?t s] by simp
  have "own c {f} ?t"
    by (rule own_release_slot [OF conjunct2 [OF a(2)] a(3,4)]) (use fr in simp_all)
  then have o: "own c {} (free_frame c f ?t)" by (rule own_free) simp
  have fr': "frames s' = frames ?d"
    using e objects_of_more(3) [of s' ?d] world_of_more(1) [of s' ?d] by (simp add: end_same_def local_same_def)
  have "fpool (free_frame c f ?t) = fpool ?d"
    by (simp add: d free_frame_def frame_delete_def set_frame_def Let_def split: option.split)
  then have "same_owners (free_frame c f ?t) s'"
    using e fr' fr by (simp add: same_owners_def frames_kept_def end_same_def local_same_def d free_frame_fields)
  then show "program_ok s' \<and> own c {} s'"
    using own_same [OF o] prog.destroyed [OF a(1) _ a(3-5) e] a(2) by blast
next
  fix s :: "('v, 'a) world_scheme"
  assume a: "sched_inv s" "program_ok s \<and> own c {} s"
  have t: "tame s (resolve_signals s)" using resolve_signals_tame a by blast
  obtain s' where "poll_external_signals s = Some s'" "calm s s'"
    by (rule poll_signals_calm [OF a(1)]) (use a(2) in \<open>simp add: program_ok_def\<close>)
  then have "calm s (resolve_signals s)" by (simp add: resolve_signals_def)
  from own_same [OF conjunct2 [OF a(2)] calm_owners [OF this resolve_signals_frames_kept]] t
  show "sched_inv (resolve_signals s) \<and> (program_ok (resolve_signals s) \<and> own c {} (resolve_signals s)) \<and>
      quiet s (resolve_signals s)"
    by (simp add: tame_def)
next
  fix s s' :: "('v, 'a) world_scheme"
  assume a: "program_ok s \<and> own c {} s" "step_same s s'"
  then have "frames s' = frames s"
    using objects_of_more(3) [of s' s] world_of_more(1) [of s' s] by (simp add: step_same_def local_same_def)
  then have "same_owners s s'" using a(2) by (simp add: same_owners_def frames_kept_def step_same_def local_same_def)
  then show "program_ok s' \<and> own c {} s'" using a prog.stable own_same by blast
qed

section \<open>Every state a program reaches\<close>

lemma program_step_own:
  assumes "program_step c fallback s s'" and o: "outside program_ok s" "own c {} s"
  shows "own c {} s'"
proof -
  have i: "sched_inv s" "program_ok s" "\<not> in_poll s" "\<not> shutting_down s" "idle s"
    using o(1) by (simp_all add: outside_def at_rest_def)
  have "outside (\<lambda>s. program_ok s \<and> own c {} s) s" using i o(2) by (simp add: outside_def at_rest_def)
  then have p: "own c {} (poll (program c fallback) resolve_signals clock s)" for clock
    using owned.poll_outside [of c s fallback clock] by (simp add: outside_def at_rest_def)
  show ?thesis using assms(1)
  proof cases
    case (call x y)
    then show ?thesis using do_call_own [OF i(1,2) o(2)] by blast
  qed (use p in \<open>simp_all add: wait_is_poll\<close>)
qed

text \<open>Before the first coroutine call the pool is whole and nobody owns a frame.\<close>

definition fresh_frames :: "target \<Rightarrow> ('v, 'a) world_scheme \<Rightarrow> bool" where
  "fresh_frames c s \<longleftrightarrow> (\<forall>f. frames s f = None) \<and> (\<forall>t. tasks s t = None) \<and> (\<forall>i < max_tasks s. handle_of s i = None) \<and>
     arena_frames c (fpool s) {}"

lemma fresh_frames_own:
  assumes "fresh_frames c s"
  shows "own c {} s"
proof -
  have e: "dom (frames s) = {}" "owned s = {}" "slot_owned s = {}"
    using assms by (auto simp: fresh_frames_def owned_def slot_owned_def)
  have "owners_ok s" by (rule owners_okI) (use assms in \<open>auto simp: fresh_frames_def\<close>)
  then show ?thesis using assms e by (auto simp: own_def fresh_frames_def)
qed

lemma program_steps_own:
  assumes "(program_step c fallback)\<^sup>*\<^sup>* s s'" and "outside program_ok s" "own c {} s"
  shows "own c {} s'"
  using assms
proof (induction rule: rtranclp_induct)
  case (step t u)
  then show ?case using program_step_own [OF step.hyps(2)] program_steps_outside [OF step.hyps(1)] by blast
qed

text \<open>C2. Memory safety of coroutine frames. In every state a program reaches, each frame that a
  \<open>Task\<close> object or a scheduler slot owns is owned once, by one object or by one slot. The owned
  frames are all the frames that exist and are exactly the live blocks of the frame pool: no
  owner refers to a destroyed frame, none is destroyed twice and none is lost. When nobody owns
  a frame any more, the pool has got all its bytes back.\<close>

theorem frames_owned_once:
  assumes "fresh_world s" and "fresh_frames c s"
    and "sched_inv s" and "idle s" and "\<not> in_poll s" and "\<not> shutting_down s" and "(program_step c fallback)\<^sup>*\<^sup>* s s'"
  shows "(\<forall>t u f. tasks s' t = Some f \<and> tasks s' u = Some f \<longrightarrow> t = u) \<and>
    (\<forall>i j f. i < max_tasks s' \<and> j < max_tasks s' \<and> handle_of s' i = Some f \<and> handle_of s' j = Some f \<longrightarrow> i = j) \<and>
    (\<forall>t i f. tasks s' t = Some f \<and> i < max_tasks s' \<longrightarrow> handle_of s' i \<noteq> Some f) \<and>
    (\<exists>bs. pool_rep c (fpool s') bs \<and> fst ` live c 0 bs = {f. frames s' f \<noteq> None} \<and>
      {f. frames s' f \<noteq> None} = {f. (\<exists>t. tasks s' t = Some f) \<or> (\<exists>i < max_tasks s'. handle_of s' i = Some f)}) \<and>
    ((\<forall>t. tasks s' t = None) \<and> (\<forall>i < max_tasks s'. handle_of s' i = None) \<longrightarrow>
      bytes_used (fpool s') = 0 \<and> bytes_free c (fpool s') = kUsable c)"
proof -
  have "outside program_ok s" using assms(1,3-6) fresh_world_ok by (simp add: outside_def at_rest_def)
  then have o: "own c {} s'" by (rule program_steps_own [OF assms(7) _ fresh_frames_own [OF assms(2)]])
  note D = owners_okD [OF ownD(1) [OF o]]
  have arena_wf: "wf_target c" using ownD(2) [OF o] by (simp add: arena_frames_def)
  obtain bs where bs: "pool_rep c (fpool s') bs" "dom (frames s') = fst ` live c 0 bs"
    using ownD(2) [OF o] by (auto simp: arena_frames_def)
  have all: "dom (frames s') = {f. (\<exists>t. tasks s' t = Some f) \<or> (\<exists>i < max_tasks s'. handle_of s' i = Some f)}"
    using ownD(3) [OF o] by (auto simp: owned_def slot_owned_def)
  have d: "{f. frames s' f \<noteq> None} = dom (frames s')" by (simp add: dom_def)
  have recovered: "bytes_used (fpool s') = 0 \<and> bytes_free c (fpool s') = kUsable c"
    if "\<forall>t. tasks s' t = None" "\<forall>i < max_tasks s'. handle_of s' i = None"
  proof -
    have "fst ` live c 0 bs = {}" unfolding bs(2) [symmetric] all using that by simp
    then have "live c 0 bs = {}" by simp
    then show ?thesis using full_recovery [OF arena_wf bs(1)] by blast
  qed
  show ?thesis unfolding d
  proof (intro conjI allI impI)
    show "\<exists>bs. pool_rep c (fpool s') bs \<and> fst ` live c 0 bs = dom (frames s') \<and>
        dom (frames s') = {f. (\<exists>t. tasks s' t = Some f) \<or> (\<exists>i < max_tasks s'. handle_of s' i = Some f)}"
      using bs all by metis
    show "bytes_used (fpool s') = 0" "bytes_free c (fpool s') = kUsable c"
      if "(\<forall>t. tasks s' t = None) \<and> (\<forall>i < max_tasks s'. handle_of s' i = None)"
      using recovered that by blast+
    show "t = u" if "tasks s' t = Some f \<and> tasks s' u = Some f" for t u f
      using D(1) that by metis
    show "i = j" if "i < max_tasks s' \<and> j < max_tasks s' \<and> handle_of s' i = Some f \<and> handle_of s' j = Some f" for i j f
      using D(2) that by metis
    show "handle_of s' i \<noteq> Some f" if "tasks s' t = Some f \<and> i < max_tasks s'" for t i f
      using D(3) that by metis
  qed
qed

end
