(* ===== verification/Scheduler_Props.thy ===== *)
theory Scheduler_Props
  imports Scheduler_Run
begin

text \<open>
  The promises of the scheduler (scheduler.h and its comments): task creation and its
  refusals, generation-checked handles, child awaits, wait queues, timers, the bounded pass,
  the reentry guard, idle waits and teardown.
\<close>

section \<open>The initial state\<close>

lemma sched_init_inv: "n \<le> 2 ^ 16 \<Longrightarrow> sched_inv (sched_init pl n)" "idle (sched_init pl n)"
proof -
  have rl: "ready_list (sched_init pl n) = []" by (simp add: ready_list_def sched_init_def)
  have st: "st_of (sched_init pl n) i = Free" and h: "handle_of (sched_init pl n) i = None"
    and p: "parent_of (sched_init pl n) i = None" for i
    by (simp_all add: view_defs sched_init_def slot_init_def)
  have f: "max_tasks (sched_init pl n) = n" "ready_count (sched_init pl n) = 0"
    "ready_head (sched_init pl n) = None" "ready_tail (sched_init pl n) = None"
    "active_count (sched_init pl n) = 0" "peak_count (sched_init pl n) = 0"
    "current (sched_init pl n) = None" "nearest_deadline (sched_init pl n) = - 1"
    by (simp_all add: sched_init_def)
  show "idle (sched_init pl n)" by (simp add: idle_def f st)
  assume "n \<le> 2 ^ 16"
  then show "sched_inv (sched_init pl n)"
    by (simp add: sched_inv_def sched_base_def inv_defs ready_rep_def rl st h p f fifo_empty count_below_def)
qed

section \<open>Creating tasks\<close>

lemma index_of_unat: "i < max_tasks s \<Longrightarrow> max_tasks s \<le> 2 ^ 16 \<Longrightarrow> unat (index_of i) = i"
  by (simp add: index_of_def unat_of_nat)

lemma acquire_available:
  assumes "i < max_tasks s" "\<not> is_active (st_of s i)" "gen_of s i \<noteq> max_generation"
  obtains k where "acquire_slot s = (Some k, set_generation k (gen_of s k + 1) s)"
    "k < max_tasks s" "\<not> is_active (st_of s k)" "gen_of s k \<noteq> max_generation"
proof (cases "acquire_slot s")
  case (Pair r s1)
  show thesis
  proof (cases r)
    case None
    then show thesis using Pair acquire_None(2) [of s s1 i] assms by simp
  next
    case (Some k)
    then show thesis using that acquire_Some [of s k s1] Pair by simp
  qed
qed

text \<open>C21. As long as some slot is free or completed and not retired,
  \<open>create_task\<close> of a non-empty task outside teardown succeeds: the frame moves from the
  \<open>Task\<close> into a slot that was not in use, the task is queued behind every task that is
  ready, the handle is valid and not done, it differs from every handle that was valid before,
  every older handle of that slot is invalid from now on, and the invariant holds.\<close>

theorem create_task_accepted:
  assumes inv: "sched_inv s" and "\<not> shutting_down s" and f: "tasks s t = Some f"
    and "i < max_tasks s" "\<not> is_active (st_of s i)" "gen_of s i \<noteq> max_generation"
  shows "\<exists>k h s'. create_task t s = (h, s') \<and> k < max_tasks s \<and> \<not> is_active (st_of s k) \<and>
    unat (tid_slot (h_id h)) = k \<and> sched_inv s' \<and> tasks s' = (tasks s)(t := None) \<and>
    handle_of s' k = Some f \<and> ready_list s' = ready_list s @ [k] \<and>
    active_count s' = active_count s + 1 \<and> hook_log s' = hook_log s \<and>
    th_valid s' h \<and> \<not> th_done s' h \<and> \<not> th_valid s h \<and>
    (\<forall>h'. th_valid s h' \<and> unat (tid_slot (h_id h')) = k \<longrightarrow> \<not> th_valid s' h')"
proof -
  obtain k where a: "acquire_slot s = (Some k, set_generation k (gen_of s k + 1) s)"
    "k < max_tasks s" "\<not> is_active (st_of s k)" "gen_of s k \<noteq> max_generation"
    by (rule acquire_available [OF assms(4-6)])
  let ?g = "set_generation k (gen_of s k + 1) (set_task t None s)"
  let ?s = "adopt k (Some f) None ?g"
  have eq: "create_task t s = (mk_task_handle k ?s, ?s)"
    using assms(2) f a(1) by (simp add: create_task_def schedule_cases Let_def set_task_upd_slot)
  have inv': "sched_inv ?s" using schedule_inv(1) [OF inv, of t] eq by (simp add: create_task_def)
  have rl: "ready_list ?g = ready_list s" by (rule ready_list_cong) simp_all
  have "ready_ok ?g" using inv sched_invD(5) [of ?g] by simp
  then have r: "ready_list ?s = ready_list s @ [k]"
    using adopt_fifo(2) [of ?g k "Some f" None] a(2,3) rl by simp
  have k: "unat (index_of k) = k" using index_of_unat [OF a(2)] sched_invD(4) [OF inv] by simp
  have g: "gen_of s k \<noteq> gen_of s k + 1" using generation_succ [OF a(4)] by auto
  show ?thesis
  proof (intro exI conjI)
    show "create_task t s = (mk_task_handle k ?s, ?s)" by (fact eq)
    show "k < max_tasks s" "\<not> is_active (st_of s k)" "sched_inv ?s" "ready_list ?s = ready_list s @ [k]"
      by (fact a inv' r)+
    show "unat (tid_slot (h_id (mk_task_handle k ?s))) = k" by (simp add: mk_task_handle_def k)
    show "tasks ?s = (tasks s)(t := None)" "handle_of ?s k = Some f"
      "active_count ?s = active_count s + 1" "hook_log ?s = hook_log s" by simp_all
    show "th_valid ?s (mk_task_handle k ?s)" "\<not> th_done ?s (mk_task_handle k ?s)"
      using a(2) by (simp_all add: th_valid_def th_done_def mk_task_handle_def task_id_valid_def
          task_id_done_def k)
    show "\<not> th_valid s (mk_task_handle k ?s)"
      using g by (simp add: th_valid_def mk_task_handle_def task_id_valid_def k)
    show "\<forall>h'. th_valid s h' \<and> unat (tid_slot (h_id h')) = k \<longrightarrow> \<not> th_valid ?s h'"
      using g by (auto simp: th_valid_def task_id_valid_def)
  qed
qed

text \<open>C23. A refused \<open>create_task\<close> (teardown, an empty task, no usable slot)
  returns an invalid handle and changes nothing but the error log: silently in teardown,
  \<open>invalid_task\<close> for an empty task, \<open>task_limit\<close> when every slot is active or retired.
  The \<open>Task\<close> keeps its frame.\<close>

theorem create_task_refused:
  assumes "shutting_down s \<or> tasks s t = None \<or>
    (\<forall>i < max_tasks s. is_active (st_of s i) \<or> gen_of s i = max_generation)"
  shows "create_task t s = (invalid_handle,
      if shutting_down s then s
      else if tasks s t = None then on_error Invalid_task s else on_error Task_limit s) \<and>
    tasks (snd (create_task t s)) = tasks s \<and> \<not> th_valid s' (fst (create_task t s))"
proof -
  have none: "acquire_slot s = (None, s)" if "\<not> shutting_down s" "tasks s t \<noteq> None"
    using acquire_slot_shape [of s]
  proof
    assume "\<exists>i. acquire_slot s = (Some i, set_generation i (gen_of s i + 1) s)"
    then obtain i where "acquire_slot s = (Some i, set_generation i (gen_of s i + 1) s)" ..
    from acquire_Some(1-3) [OF this] assms that show ?thesis by auto
  qed
  have eq: "create_task t s = (invalid_handle,
      if shutting_down s then s
      else if tasks s t = None then on_error Invalid_task s else on_error Task_limit s)"
    using none by (auto simp: create_task_def schedule_cases split: option.split)
  then show ?thesis by (simp add: th_valid_def invalid_handle_def)
qed

definition usable :: "task_state \<Rightarrow> nat \<Rightarrow> 'a sched_scheme \<Rightarrow> bool" where
  "usable x i s \<longleftrightarrow> i < max_tasks s \<and> st_of s i = x \<and> gen_of s i \<noteq> max_generation"

text \<open>\<open>acquire_slot\<close> takes the free slot of lowest index whose generation is
  not exhausted, and only when there is none the completed slot of lowest index; it raises the
  generation of that slot by one, without wrapping, and touches nothing else. Only active or
  retired slots make it fail. In particular the tombstone it reuses is the one of lowest
  index, whichever task completed first.\<close>

theorem slot_choice:
  "case acquire_slot s of
      (Some k, s') \<Rightarrow> s' = set_generation k (gen_of s k + 1) s \<and> gen_of s k < gen_of s' k \<and>
        (usable Free k s \<and> (\<forall>i < k. \<not> usable Free i s) \<or>
         usable Completed k s \<and> (\<forall>i < k. \<not> usable Completed i s) \<and> (\<forall>i. \<not> usable Free i s))
    | (None, s') \<Rightarrow> s' = s \<and> (\<forall>i. \<not> usable Free i s \<and> \<not> usable Completed i s)"
proof -
  let ?free = "\<lambda>i. state (slots s i) = Free \<and> generation (slots s i) \<noteq> max_generation"
  let ?comp = "\<lambda>i. state (slots s i) = Completed \<and> generation (slots s i) \<noteq> max_generation"
  show ?thesis
  proof (cases "find ?free [0..<max_tasks s]")
    case (Some k)
    from find_upt_Some [OF this] show ?thesis
      using Some generation_succ [of "gen_of s k"] by (auto simp: acquire_slot_def usable_def)
  next
    case none: None
    then have f: "\<not> usable Free i s" for i by (simp add: find_upt_None usable_def)
    show ?thesis
    proof (cases "find ?comp [0..<max_tasks s]")
      case (Some k)
      from find_upt_Some [OF this] show ?thesis
        using Some none f generation_succ [of "gen_of s k"] by (auto simp: acquire_slot_def usable_def)
    next
      case None
      then have "\<not> usable Completed i s" for i by (simp add: find_upt_None usable_def)
      then show ?thesis using none None f by (simp add: acquire_slot_def)
    qed
  qed
qed

text \<open>When task \<open>j\<close> completes before task \<open>i\<close> and \<open>i\<close> has
  the lower slot index, the next acquired slot is never \<open>j\<close>'s: reuse is by slot index, not
  by age.\<close>

theorem tombstone_reuse_order:
  assumes "i < j" "j < max_tasks s" "gen_of s i \<noteq> max_generation" "st_of s j = Running"
  shows "fst (acquire_slot (finish i (finish j s))) \<noteq> Some j"
proof
  let ?t = "finish i (finish j s)"
  assume a: "fst (acquire_slot ?t) = Some j"
  have comp: "st_of ?t i = Completed" "st_of ?t j = Completed" "gen_of ?t i \<noteq> max_generation"
    using assms by auto
  show False
    using a comp assms(1,2)
    by (auto simp: acquire_slot_def split: option.splits dest!: find_upt_Some)
qed

section \<open>Handles\<close>

lemma lives_handle:
  assumes "th_valid s h" and "lives s s'" and "lives s' s''"
  shows "(th_valid s' h \<longrightarrow> (th_done s h \<longrightarrow> th_done s' h)) \<and>
    (\<not> th_valid s' h \<longrightarrow> tid_generation (h_id h) < gen_of s' (unat (tid_slot (h_id h))) \<and> \<not> th_valid s'' h)"
proof -
  let ?i = "unat (tid_slot (h_id h))" and ?g = "tid_generation (h_id h)"
  have v: "h_sched h" "?i < max_tasks s" "gen_of s ?i = ?g" "st_of s ?i \<noteq> Free"
    using assms(1) by (auto simp: th_valid_def task_id_valid_def Let_def split: if_splits)
  have m: "max_tasks s' = max_tasks s" "max_tasks s'' = max_tasks s"
    using assms(2,3) by (simp_all add: lives_def)
  have l: "slot_life (slots s ?i) (slots s' ?i)" "slot_life (slots s' ?i) (slots s'' ?i)"
    using assms(2,3) by (simp_all add: lives_def)
  have valid: "th_valid t h \<longleftrightarrow> gen_of t ?i = ?g \<and> st_of t ?i \<noteq> Free" if "max_tasks t = max_tasks s" for t
    using v that by (auto simp: th_valid_def task_id_valid_def Let_def)
  have dn: "th_done t h \<longleftrightarrow> gen_of t ?i = ?g \<and> st_of t ?i = Completed" if "max_tasks t = max_tasks s" for t
    using v that by (auto simp: th_done_def task_id_done_def Let_def)
  have "?g < gen_of s' ?i" if "\<not> th_valid s' h"
    using l(1) v that unfolding valid [OF m(1)] slot_life_def fold_views
    by (metis order.not_eq_order_implies_strict)
  moreover have "\<not> th_valid s'' h" if "?g < gen_of s' ?i"
    using l(2) that unfolding valid [OF m(2)] slot_life_def fold_views by auto
  moreover have "th_done s' h" if "th_valid s' h" "th_done s h"
    using l(1) that unfolding valid [OF m(1)] dn [OF m(1)] dn [OF refl] slot_life_def fold_views by simp
  ultimately show ?thesis by blast
qed

section \<open>Child awaits\<close>

text \<open>C24. When the running task awaits a child and a slot is available, the
  call returns true, the child's frame is owned by a slot that was not in use, the child is
  queued behind every ready task with the awaiting task as its parent, the awaiting task waits
  for it and is not ready, nothing is reported and the invariant holds.\<close>

theorem await_child_adopted:
  fixes s :: "'a sched_scheme"
  assumes inv: "sched_inv s" and p: "current s = Some p" "st_of s p = Running" "handle_of s p = awaiting"
    and "i < max_tasks s" "\<not> is_active (st_of s i)" "gen_of s i \<noteq> max_generation"
  shows "\<exists>k s'. start_child co (Some f) awaiting s = (True, s') \<and> k < max_tasks s \<and>
    \<not> is_active (st_of s k) \<and> handle_of s' k = Some f \<and> parent_of s' k = Some p \<and>
    st_of s' = (st_of s)(k := Ready, p := Waiting_child) \<and> ready_list s' = ready_list s @ [k] \<and>
    active_count s' = active_count s + 1 \<and> hook_log s' = hook_log s \<and> sched_inv s' \<and> evolves s s'"
proof -
  obtain k where a: "acquire_slot s = (Some k, set_generation k (gen_of s k + 1) s)"
    "k < max_tasks s" "\<not> is_active (st_of s k)" "gen_of s k \<noteq> max_generation"
    by (rule acquire_available [OF assms(5-7)])
  let ?g = "set_generation k (gen_of s k + 1) s"
  let ?s = "set_state p Waiting_child (adopt k (Some f) (Some p) ?g)"
  have pk: "p \<noteq> k" using p(2) a(3) by auto
  have eq: "start_child co (Some f) awaiting s = (True, ?s)"
    unfolding start_child_def start_child_cases using p a(1) by simp
  note inv' = adopt_child_inv [OF inv p(1,2) a(1), of f]
  have rl: "ready_list ?g = ready_list s" by (rule ready_list_cong) simp_all
  have "ready_ok ?g" using inv sched_invD(5) [of ?g] by simp
  then have "ready_list (adopt k (Some f) (Some p) ?g) = ready_list s @ [k]"
    using adopt_fifo(2) [of ?g k "Some f" "Some p"] a(2,3) rl by simp
  moreover have "ready_list ?s = ready_list (adopt k (Some f) (Some p) ?g)"
    by (rule ready_list_cong) simp_all
  ultimately have r: "ready_list ?s = ready_list s @ [k]" by simp
  show ?thesis
  proof (intro exI conjI)
    show "start_child co (Some f) awaiting s = (True, ?s)" by (fact eq)
    show "k < max_tasks s" "\<not> is_active (st_of s k)" "ready_list ?s = ready_list s @ [k]"
      "sched_inv ?s" "evolves s ?s" by (fact a r inv')+
    show "handle_of ?s k = Some f" "parent_of ?s k = Some p"
      "st_of ?s = (st_of s)(k := Ready, p := Waiting_child)"
      "active_count ?s = active_count s + 1" "hook_log ?s = hook_log s"
      using pk by simp_all
  qed
qed

text \<open>The awaiting coroutine is not the task the scheduler is running.\<close>

definition foreign :: "nat option \<Rightarrow> 'a sched_scheme \<Rightarrow> bool" where
  "foreign awaiting s \<longleftrightarrow> (\<forall>p. current s = Some p \<longrightarrow> st_of s p \<noteq> Running \<or> handle_of s p \<noteq> awaiting)"

text \<open>C25. When the awaiting coroutine is not the running task, or no slot is
  available, the child's frame is destroyed exactly once and never adopted. A foreign awaiter is
  told to go on (false) and \<open>invalid_task\<close> is reported; a parent that found no slot stays
  suspended (true) but is queued again, so it is not lost, and \<open>task_limit\<close> is reported.\<close>

theorem await_child_rejected:
  fixes s :: "'a sched_scheme"
  assumes "foreign awaiting s \<or> (\<forall>i < max_tasks s. is_active (st_of s i) \<or> gen_of s i = max_generation)"
  shows "start_child co (Some f) awaiting s =
    (if foreign awaiting s then (False, on_error Invalid_task (co_destroy co f s))
     else (True, on_error Task_limit (make_ready (the (current s)) (co_destroy co f s))))"
proof -
  have nf: "(\<exists>p. current s = Some p \<and> st_of s p = Running \<and> handle_of s p = awaiting) \<longleftrightarrow>
      \<not> foreign awaiting s"
    by (auto simp: foreign_def)
  have none: "acquire_slot s = (None, s)" if "\<not> foreign awaiting s"
    using acquire_slot_shape [of s]
  proof
    assume "\<exists>i. acquire_slot s = (Some i, set_generation i (gen_of s i + 1) s)"
    then obtain i where "acquire_slot s = (Some i, set_generation i (gen_of s i + 1) s)" ..
    from acquire_Some(1-3) [OF this] assms(1) that show ?thesis by auto
  qed
  show ?thesis
    unfolding start_child_def start_child_cases nf using none by (simp add: handle_destroy_def)
qed

section \<open>Yielding\<close>

lemma walk_self_loop:
  "chain nxt h (rs @ [i]) \<Longrightarrow> i \<notin> set rs \<Longrightarrow>
   walk (length rs + 2) (nxt(i := Some i)) h = rs @ [i, i]"
  by (induction rs arbitrary: h) (auto simp: numeral_2_eq_2)

text \<open>C36. \<open>yield()\<close> ignores the coroutine that awaits it. When a
  coroutine that is not the running task (one the task resumed itself) yields and the running
  task then yields too, the slot is queued twice: its link points to itself, it stands twice in
  the ready FIFO, so the next pass would run it twice, and the invariant is broken. All other
  awaitables reject a foreign awaiter.\<close>

theorem foreign_yield_duplicates:
  assumes inv: "sched_inv s" and i: "current s = Some i" "st_of s i = Running"
  shows "ready_list (yield_suspend (handle_of s i) (yield_suspend other s)) = ready_list s @ [i, i] \<and>
    next_of (yield_suspend (handle_of s i) (yield_suspend other s)) i = Some i \<and>
    \<not> sched_inv (yield_suspend (handle_of s i) (yield_suspend other s))"
proof -
  let ?t = "make_ready i s" and ?u = "make_ready i (make_ready i s)"
  have u: "yield_suspend (handle_of s i) (yield_suspend other s) = ?u"
    using i by (simp add: yield_suspend_def yield_make_ready)
  have im: "i < max_tasks s" using sched_invD(8) [OF inv] i by (simp add: current_ok_def)
  note t = make_ready_fifo [OF sched_invD(5) [OF inv] im]
  have nr: "st_of s i \<noteq> Ready" using i by simp
  have f: "fifo (next_of ?t) (ready_head ?t) (ready_tail ?t) (ready_list s @ [i])"
    "ready_count ?t = length (ready_list s) + 1"
    using ready_okD(1,2) [OF t(1) [OF nr]] t(2) [OF nr] by simp_all
  then have tail: "ready_tail ?t = Some i" by (simp add: fifo_def)
  have notin: "i \<notin> set (ready_list s)" using ready_okD(4) [OF sched_invD(5) [OF inv]] nr by simp
  have nx: "next_of ?u = (next_of ?t)(i := Some i)" "ready_head ?u = ready_head ?t"
    "ready_count ?u = length (ready_list s) + 2"
    using tail f(2) by (simp_all add: make_ready_def [of i ?t] ready_push_next)
  have rl: "ready_list ?u = ready_list s @ [i, i]"
    unfolding ready_list_def [of ?u] nx by (rule walk_self_loop [OF _ notin]) (use f(1) in \<open>simp add: fifo_def\<close>)
  have "\<not> sched_inv ?u"
  proof
    assume "sched_inv ?u"
    from ready_okD(3) [OF sched_invD(5) [OF this]] show False by (simp add: rl)
  qed
  then show ?thesis unfolding u using rl nx(1) by simp
qed

text \<open>A yield of the running task puts it behind every ready task, once, and
  keeps the invariant; \<open>delay(0)\<close> is the same operation; a positive delay whose deadline is
  representable parks the task until exactly that deadline, not queued, and lowers the cached
  deadline when it is sooner; an unrepresentable one is reported and the task is queued again.\<close>

theorem yield_requeues:
  assumes inv: "sched_inv s" and i: "current s = Some i" "st_of s i = Running"
  shows "(let s' = delay_suspend d awaiting s in
      sched_inv s' \<and>
      (if d = 0 then s' = yield_suspend awaiting s \<and> ready_list s' = ready_list s @ [i] \<and> st_of s' i = Ready
       else if unat (now_us s) + unat d < 2 ^ 64
       then st_of s' i = Waiting_timer \<and> unat (deadline_of s' i) = unat (now_us s) + unat d \<and>
         nearest_deadline s' = min (nearest_deadline s) (deadline_of s' i) \<and>
         ready_list s' = ready_list s \<and> hook_log s' = hook_log s
       else ready_list s' = ready_list s @ [i] \<and> st_of s' i = Ready \<and>
         hook_log s' = hook_log s @ [Deadline_overflow]))"
proof -
  let ?s' = "delay_suspend d awaiting s"
  have im: "i < max_tasks s" using sched_invD(8) [OF inv] i by (simp add: current_ok_def)
  have y: "ready_list (yield_current s) = ready_list s @ [i]" "st_of (yield_current s) i = Ready"
    using make_ready_fifo(2) [OF sched_invD(5) [OF inv] im] i by (simp_all add: yield_make_ready)
  have inv': "sched_inv ?s'" using arm_inv(1) [OF inv i] by (simp add: delay_suspend_def)
  show ?thesis
  proof (cases "d = 0")
    case True
    then have "?s' = yield_current s" using i by (simp add: delay_suspend_def arm_current_timer_def)
    then show ?thesis using True y inv' by (simp add: Let_def yield_suspend_def)
  next
    case False
    show ?thesis
    proof (cases "unat (now_us s) + unat d < 2 ^ 64")
      case True
      then have "compute_deadline (now_us s) d 0 (hook_log s) = (True, now_us s + d, hook_log s)"
        by (simp add: compute_deadline_cases)
      moreover have "unat (now_us s + d) = unat (now_us s) + unat d"
        using True by (simp add: unat_word_ariths(1))
      ultimately show ?thesis
        using False True i inv'
        by (auto simp: delay_suspend_def arm_current_timer_def Let_def min_def ready_list_def fun_upd_idem)
    next
      case over: False
      then have cd: "compute_deadline (now_us s) d 0 (hook_log s) = (False, 0, hook_log s @ [Deadline_overflow])"
        by (simp add: compute_deadline_cases)
      let ?l = "s\<lparr>hook_log := hook_log s @ [Deadline_overflow]\<rparr>"
      have l: "sched_inv ?l" using inv by (subst sched_inv_more [of _ s]) simp_all
      have eq: "?s' = make_ready i ?l"
        using False cd i by (simp add: delay_suspend_def arm_current_timer_def yield_make_ready)
      have "ready_list (make_ready i ?l) = ready_list ?l @ [i]"
        by (rule make_ready_fifo(2) [OF sched_invD(5) [OF l]]) (use im i in simp_all)
      then show ?thesis using False over inv' eq by (simp add: Let_def ready_list_def)
    qed
  qed
qed

section \<open>Timers\<close>

text \<open>C19. \<open>process_due_timers\<close> appends to the ready FIFO exactly the tasks
  whose deadline has come, in ascending order of deadline and by slot index among equal
  deadlines; no other task changes state, none wakes early and none that is due is left waiting;
  the cached deadline is exact again.\<close>

theorem due_timers_in_order:
  assumes "sched_inv s"
  shows "\<exists>ds. ready_list (process_due_timers s) = ready_list s @ ds \<and> distinct ds \<and>
    (\<forall>i. i \<in> set ds \<longleftrightarrow> i < max_tasks s \<and> st_of s i = Waiting_timer \<and> deadline_of s i \<le> now_us s) \<and>
    sorted_wrt (\<lambda>i j. deadline_of s i < deadline_of s j \<or> (deadline_of s i = deadline_of s j \<and> i < j)) ds \<and>
    st_of (process_due_timers s) = (\<lambda>i. if i \<in> set ds then Ready else st_of s i) \<and>
    sched_inv (process_due_timers s)"
  using process_due_inv [OF assms] process_due_views(1) [OF sched_invD(3) [OF assms]]
    distinct_due_list [of s] sorted_due_list [of s] set_due_list [of s]
  by (intro exI [of _ "due_list s"]) (simp add: due_def)


section \<open>The pass\<close>

text \<open>C5. For coroutines that respect the scheduler, one pass takes the tasks
  that were ready when it began, one turn each, in FIFO order, and no other: a task readied
  during the pass stays queued for a later one, and no task runs twice. Afterwards no task is
  running, the invariants hold, generations have only grown and no waiting timer was touched.\<close>

theorem pass_runs_snapshot:
  assumes "coroutines co J" and "at_rest J s"
  shows "run_pass co s = fold (run_turn co) (ready_list s) s \<and> distinct (ready_list s) \<and>
    (\<forall>i. i \<in> set (ready_list s) \<longleftrightarrow> i < max_tasks s \<and> st_of s i = Ready) \<and>
    at_rest J (run_pass co s) \<and> lives s (run_pass co s) \<and> timers_kept s (run_pass co s)"
proof -
  have inv: "sched_inv s" using assms(2) by (simp add: at_rest_def)
  show ?thesis
    using coroutines.pass_inv [OF assms] ready_okD(3,4) [OF sched_invD(5) [OF inv]]
    by (simp add: progress_def)
qed

text \<open>During the turns of a pass the FIFO is consumed from the front: after the
  turns of the first tasks the remaining ones are still in front, in their order, and whatever
  the turns readied stands behind them.\<close>

theorem turn_order:
  assumes "coroutines co J" and "at_rest J s" and "ready_list s = done_tasks @ rest"
  shows "\<exists>readied. ready_list (fold (run_turn co) done_tasks s) = rest @ readied \<and>
    at_rest J (fold (run_turn co) done_tasks s)"
  using coroutines.turns_inv(2,4) [OF assms] by blast

text \<open>C15. When the task of a turn completes, its frame is destroyed
  once, its slot keeps its generation and becomes completed without a frame, and the parent that
  waits for it, if any, is appended to the ready FIFO, to run in a later pass.\<close>

theorem child_completion_wakes_parent:
  fixes s :: "'a sched_scheme"
  assumes "coroutines co J" and "at_rest J s" and "ready_list s = i # rs"
    and fin: "handle_done co (handle_of s i) (resumed co i s)"
  shows "let d = handle_destroy co (handle_of s i) (resumed co i s); u = run_turn co i s in
    st_of u = (case parent_of s i of None \<Rightarrow> (st_of d)(i := Completed)
       | Some p \<Rightarrow> (st_of d)(i := Completed, p := Ready)) \<and>
    handle_of u i = None \<and> gen_of u i = gen_of s i \<and>
    ready_list u = ready_list d @ (case parent_of s i of None \<Rightarrow> [] | Some p \<Rightarrow> [p]) \<and>
    (\<forall>p. parent_of s i = Some p \<longrightarrow> p < max_tasks s \<and> st_of s p = Waiting_child \<and> st_of d p = Waiting_child)"
  unfolding Let_def by (rule coroutines.turn_completed [OF assms])

section \<open>Polling\<close>

text \<open>C6. A poll outside any task runs one complete pass: it samples the
  clock, resolves the external signals, wakes the due timers, and gives one turn to each task
  that was ready, then each woken by a signal, then each due timer by deadline, and to no other.
  It ends with no task running, the reentry guard released and the invariants kept.\<close>

theorem poll_runs_ready_then_due:
  assumes "poll_system co J external" and "outside J s"
  shows "\<exists>t woken. t = sampled external clock s \<and> ready_list t = ready_list s @ woken \<and>
    run_poll_pass co external clock s =
      (True, (fold (run_turn co) (ready_list s @ woken @ due_list t) (process_due_timers t))\<lparr>in_poll := False\<rparr>) \<and>
    distinct (ready_list s @ woken @ due_list t) \<and>
    outside J (poll co external clock s) \<and> now_us (poll co external clock s) = clock"
proof -
  let ?t = "sampled external clock s"
  have o: "at_rest J s" "\<not> in_poll s" "\<not> shutting_down s" using assms(2) by (simp_all add: outside_def)
  note t = poll_system.sampled_inv [OF assms(1) o(1), of clock]
  note p = poll_system.poll_pass_inv [OF assms(1) o, of clock]
  obtain ys where ys: "ready_list ?t = ready_list s @ ys" using t(6) by blast
  note d = poll_system.timers_rest(1,2) [OF assms(1) t(1)]
  have "sched_inv (process_due_timers ?t)" using d(1) by (simp add: at_rest_def)
  then have "distinct (ready_list (process_due_timers ?t))" by (rule ready_okD(3) [OF sched_invD(5)])
  then show ?thesis
    using p o ys d(2) by (intro exI [of _ ?t] exI [of _ ys]) (simp add: outside_def poll_def)
qed


text \<open>From any state outside the tasks, whatever calls the program makes
  between two tasks (coroutine calls, moves and destructions of \<open>Task\<close> objects, task
  creation, polls with any clock), every reachable state satisfies the scheduler's invariant
  and the invariant of the coroutines, no task is running and the reentry guard is free.\<close>

theorem reachable_states_safe:
  assumes "main_system co J external" and "outside J s" and "(main_step co external)\<^sup>*\<^sup>* s s'"
  shows "sched_inv s' \<and> J s' \<and> idle s' \<and> \<not> in_poll s' \<and> max_tasks s' = max_tasks s"
  using main_system.main_steps_outside [OF assms(1,3,2)]
  by (simp add: outside_def at_rest_def lives_def)

text \<open>C8. Along any execution of the program, a handle that was valid
  stays done once it is done, until its slot is used again; from then on it is invalid for ever:
  the generation of the slot has grown and never comes back, so no reuse of the slot can make
  the old handle refer to another task.\<close>

theorem handles_generation_checked:
  assumes "main_system co J external" and "outside J s" and "th_valid s h"
    and "(main_step co external)\<^sup>*\<^sup>* s s'" and "(main_step co external)\<^sup>*\<^sup>* s' s''"
  shows "(th_valid s' h \<longrightarrow> th_done s h \<longrightarrow> th_done s' h) \<and>
    (\<not> th_valid s' h \<longrightarrow> tid_generation (h_id h) < gen_of s' (unat (tid_slot (h_id h))) \<and> \<not> th_valid s'' h)"
proof -
  note o = main_system.main_steps_outside [OF assms(1,4,2)]
  have "outside J s'" "lives s s'" using o by simp_all
  moreover have "lives s' s''"
    using main_system.main_steps_outside [OF assms(1,5)] o by simp
  ultimately show ?thesis using lives_handle [OF assms(3)] by blast
qed

section \<open>Teardown\<close>

text \<open>C17. \<open>~Scheduler()\<close> destroys the frame of every slot that owns one,
  in slot order and each once, after that slot was detached and with the shutdown flag set, as
  long as no destructor gives a slot a frame or completes one; afterwards no slot owns a frame.\<close>

theorem teardown_destroys_once:
  assumes "teardown co" and "frame_ok s"
  shows "sched_destructor co s =
      fold (\<lambda>(i, f) s. co_destroy co f (detach i s)) (owned_frames s) (s\<lparr>shutting_down := True\<rparr>) \<and>
    map fst (owned_frames s) = filter (\<lambda>i. is_active (st_of s i)) [0..<max_tasks s] \<and>
    (\<forall>(i, f) \<in> set (owned_frames s). handle_of s i = Some f) \<and>
    (\<forall>i < max_tasks s. handle_of (sched_destructor co s) i = None)"
proof -
  have "\<forall>i < max_tasks s. handle_of s i \<noteq> None \<longrightarrow> st_of s i \<noteq> Completed"
    using assms(2) by (auto simp: frame_ok_def)
  note d = teardown.destructor_frames [OF assms(1) this]
  have "map fst [(i, the (handle_of s i)). i \<leftarrow> is, handle_of s i \<noteq> None] = filter (\<lambda>i. is_active (st_of s i)) is"
    if "\<forall>i \<in> set is. i < max_tasks s" for "is"
    using that assms(2) by (induction "is") (auto simp: frame_ok_def)
  then have "map fst (owned_frames s) = filter (\<lambda>i. is_active (st_of s i)) [0..<max_tasks s]"
    unfolding owned_frames_def by simp
  moreover have "\<forall>(i, f) \<in> set (owned_frames s). handle_of s i = Some f"
    by (auto simp: owned_frames_def)
  ultimately show ?thesis using d by simp
qed

end
