(* ===== verification/Scenarios.thy ===== *)
theory Scenarios
  imports Platform_Idle Scheduler_Props
begin

text \<open>
  Concrete runs: each property that has hypotheses is applied at a concrete state where they
  hold.
\<close>

section \<open>The frame pool on a 64-bit host\<close>

definition host :: target where
  "host = \<lparr>word_bits = 64, max_align = 16, header_bytes = 12, pool_bytes = 256, storage_addr = 4096\<rparr>"

definition host_pool :: pool where
  "host_pool = pool_init host (\<lambda>_. mk_header 0 0 False)"

definition whole :: "block_header list" where
  "whole = [mk_header 256 16 False]"

lemma host_consts: "kAlign host = 16" "kHeader host = 16" "kUsable host = 256"
proof -
  show "kAlign host = 16" by (simp add: kAlign_def host_def)
  show "kUsable host = 256" by (simp add: kUsable_def kAlign_def host_def)
  have "and 27 ((2 :: nat) ^ 64 - 1 - (2 ^ 4 - 1)) = 27 - 27 mod 2 ^ 4"
    by (rule and_high_bits) simp_all
  then show "kHeader host = 16"
    by (simp add: kHeader_def kAlign_def host_def sz_sub_def sz_add_def sz_not_def)
qed

lemma wf_host: "wf_target host"
proof -
  have "max_align host = 2 ^ 4" "(4 :: nat) < word_bits host" by (simp_all add: host_def)
  then have "\<exists>k < word_bits host. max_align host = 2 ^ k" by blast
  then show ?thesis using host_consts by (simp add: wf_target_def) (simp add: host_def)
qed

lemma host_pool_rep: "pool_rep host host_pool whole"
  by (simp add: pool_rep_def host_pool_def whole_def pool_init_def pool_reset_def host_consts
      block_ok_def used_bytes_def mk_header_def)

lemma host_align: "(16 :: nat) < 2 ^ word_bits host"
  by (simp add: host_def)

theorem allocate_contract_witness:
  "\<exists>r p' bs'. allocate host 40 16 host_pool = Some (r, p') \<and> pool_rep host p' bs' \<and>
    (case r of None \<Rightarrow> bs' = whole \<and> p' = count_failure host host_pool
     | Some a \<Rightarrow> \<exists>lo hi. live host 0 bs' = insert (a, lo, hi) (live host 0 whole) \<and>
         a mod effective_align host 16 = 0 \<and> lo + kHeader host \<le> a \<and> a + 40 \<le> hi \<and>
         storage_addr host \<le> lo \<and> hi \<le> storage_addr host + kUsable host \<and>
         (\<forall>(a', lo', hi') \<in> live host 0 whole. hi \<le> lo' \<or> hi' \<le> lo))"
  by (rule allocate_contract [OF wf_host host_pool_rep host_align])

text \<open>The block of 256 bytes can take 40 bytes after its header.\<close>

lemma host_offset: "payload_offset host 16 0 = 16"
proof -
  have "and (4112 :: nat) (2 ^ 4 - 1) = 4112 mod 2 ^ 4" by (rule and_mask_mod)
  then show ?thesis
    by (simp add: payload_offset_def host_consts align_padding_def sz_sub_def sz_add_def)
       (simp add: host_def)
qed

lemma host_effective: "effective_align host 16 = 16"
  by (simp add: effective_align_def host_consts)

lemma host_pow2: "is_power_of_two host 16"
  using is_power_of_two_iff [of 16 host] by (auto simp: host_def intro: exI [of _ 4])

theorem allocate_fails_only_when_full_witness:
  "\<not> (\<exists>p'. allocate host 40 16 host_pool = Some (None, p')) \<and>
   (\<exists>p'. allocate host 241 16 host_pool = Some (None, p'))"
proof -
  have "\<not> (\<forall>pre b post. whole = pre @ b # post \<longrightarrow> \<not> bh_allocated b \<longrightarrow>
      blk_size b < payload_offset host 16 (total_size pre) + 40)"
    using host_offset by (auto simp: whole_def mk_header_def intro!: exI [of _ "[]"])
  moreover have "\<forall>pre b post. whole = pre @ b # post \<longrightarrow> \<not> bh_allocated b \<longrightarrow>
      blk_size b < payload_offset host 16 (total_size pre) + 241"
    using host_offset by (auto simp: whole_def mk_header_def Cons_eq_append_conv)
  ultimately show ?thesis
    using allocate_fails_only_when_full [OF wf_host host_pool_rep host_align, of 40]
      allocate_fails_only_when_full [OF wf_host host_pool_rep host_align, of 241]
    by (simp only: host_effective host_pow2 simp_thms)
qed

text \<open>A pool whose first block is allocated, its payload at 4112.\<close>

definition busy :: "block_header list" where
  "busy = [mk_header 64 16 True, mk_header 192 16 False]"

definition busy_pool :: pool where
  "busy_pool = \<lparr>headers = (\<lambda>_. mk_header 0 0 False)(0 := mk_header 64 16 True, 64 := mk_header 192 16 False),
     bytes_used = 64, peak_bytes_used = 64, allocation_failures = 0\<rparr>"

lemma busy_rep: "pool_rep host busy_pool busy"
  by (simp add: pool_rep_def busy_pool_def busy_def host_consts block_ok_def used_bytes_def mk_header_def)

lemma busy_live: "live host 0 busy = {(4112, 4096, 4160)}"
  by (simp add: busy_def mk_header_def) (simp add: host_def)

theorem deallocate_contract_witness:
  "\<exists>p' bs'. deallocate host (Some 4112) busy_pool = Some (p', []) \<and> pool_rep host p' bs' \<and>
    live host 0 bs' = {} \<and> bytes_used p' = 0"
proof -
  have "(4112, 4096, 4160) \<in> live host 0 busy" by (simp add: busy_live)
  from deallocate_contract [OF wf_host busy_rep this]
  show ?thesis by (simp add: busy_live) (simp add: busy_pool_def)
qed

lemma host_allocates: "\<exists>a p1. allocate host 40 16 host_pool = Some (Some a, p1)"
proof -
  have fits: "fits host 40 16 0 256"
    by (simp add: fits_def host_offset sz_sub_def) (simp add: host_def)
  have "allocate host 40 16 host_pool = Some (case place host 40 16 0 host_pool of (a, p') \<Rightarrow> (Some a, p'))"
    using host_pow2 fits
    by (simp add: allocate_def host_consts) (subst alloc_walk.simps,
        simp add: host_consts host_pool_def pool_init_def pool_reset_def mk_header_def)
  then show ?thesis by (cases "place host 40 16 0 host_pool") simp
qed

theorem alloc_dealloc_roundtrip_witness:
  "\<exists>a p1 p2 bs2. allocate host 40 16 host_pool = Some (Some a, p1) \<and>
    deallocate host (Some a) p1 = Some (p2, []) \<and> pool_rep host p2 bs2 \<and>
    shape bs2 = shape whole \<and> live host 0 bs2 = live host 0 whole \<and> bytes_used p2 = 0"
proof -
  obtain a p1 where a: "allocate host 40 16 host_pool = Some (Some a, p1)" using host_allocates by blast
  have "bytes_used host_pool = 0" by (simp add: host_pool_def pool_init_def pool_reset_def)
  with a alloc_dealloc_roundtrip [OF wf_host host_pool_rep host_align a] show ?thesis by auto
qed

section \<open>Time\<close>

text \<open>
  Three samples of a 32-bit counter, the last one after a wrap; the state of the machine is the
  time itself.
\<close>

definition wall_clock :: "nat clock_source" where
  "wall_clock = \<lparr>clock_now_us = int, time_us_64 = of_nat, esp_timer_get_time = int, micros = of_nat,
     steady_clock_us = int\<rparr>"

theorem clock_survives_wraps_witness:
  "map unat (clock_trace Clock_micros wall_clock [1000, 4294967295, 4294967301] extender_init) =
      [1000, 4294967295, 4294967301] \<and>
    micros wall_clock 4294967301 = 5"
  using clock_survives_wraps [of Clock_micros wall_clock id "[1000, 4294967295, 4294967301]"]
  by (simp add: counts_us_def wall_clock_def)

theorem timeout_covers_deadline_witness:
  "(let n = unat (platform_timeout_ticks 500 2001 1000 4294967294)
    in n \<le> 4294967294 \<and> 0 < n \<and> (n < 4294967294 \<longrightarrow> 1501000 \<le> n * 1000000) \<and>
       (n - 1) * 1000000 < 1501000)"
  using timeout_covers_deadline [of 500 2001 1000 4294967294] by (simp add: Let_def)

section \<open>Tasks and their frames\<close>

text \<open>Two tasks, each owning a frame.\<close>

definition two_tasks :: core where
  "two_tasks = \<lparr>hook_log = [], tasks = (\<lambda>_. None)(1 := Some 100, 2 := Some 200), fpool = host_pool\<rparr>"

lemma two_tasks_simps: "tasks two_tasks = (\<lambda>_. None)(1 := Some 100, 2 := Some 200)"
  by (simp add: two_tasks_def)

lemma two_tasks_owners: "sole_owners two_tasks"
  by (auto simp: sole_owners_def two_tasks_def split: if_splits)

text \<open>The destruction of a frame, observed through the log of the hook.\<close>

definition log_destroy :: "nat \<Rightarrow> core \<Rightarrow> core" where
  "log_destroy f s = on_error Internal_error s"

theorem task_assign_ownership_witness:
  "\<exists>s2. task_assign log_destroy 1 2 two_tasks = on_error Internal_error s2 \<and>
    tasks s2 1 = Some 200 \<and> tasks s2 2 = None \<and> 100 \<notin> owned s2"
  using task_assign_ownership [OF two_tasks_owners, of 1 2 log_destroy]
  by (simp only: two_tasks_simps) (auto simp: log_destroy_def)

text \<open>No task yet, and the whole arena free.\<close>

definition no_tasks :: core where
  "no_tasks = \<lparr>hook_log = [], tasks = (\<lambda>_. None), fpool = host_pool\<rparr>"

theorem coroutine_call_contract_witness:
  "\<exists>s' bs'. coroutine_call host 40 3 no_tasks = Some s' \<and> pool_rep host (fpool s') bs' \<and>
    sole_owners s' \<and> frames_live host bs' s'"
proof -
  have f: "fpool no_tasks = host_pool" "tasks no_tasks = (\<lambda>_. None)" by (simp_all add: no_tasks_def)
  have "pool_rep host (fpool no_tasks) whole" "tasks no_tasks 3 = None" "sole_owners no_tasks"
    "frames_live host whole no_tasks"
    by (simp_all add: f host_pool_rep sole_owners_def frames_live_def)
  from coroutine_call_contract [OF wf_host this, of 40] show ?thesis by blast
qed

text \<open>Starting a child that only records the call.\<close>

definition log_start :: "nat option \<Rightarrow> nat option \<Rightarrow> core \<Rightarrow> bool \<times> core" where
  "log_start child awaiting s = (True, on_error No_error s)"

theorem awaiter_hands_over_once_witness:
  "\<exists>a s1. task_co_await 1 two_tasks = (a, s1) \<and> \<not> awaiter_ready a \<and>
    (case task_co_await 1 s1 of (a2, s3) \<Rightarrow> awaiter_ready a2 \<and>
       awaiter_resume a2 s3 = on_error Task_awaited_twice s3)"
proof -
  have "tasks two_tasks 1 = Some 100" by (simp add: two_tasks_simps)
  from awaiter_hands_over_once [OF this, of log_destroy log_start "Some 5"]
  show ?thesis by (auto split: prod.splits)
qed

section \<open>Scheduler states\<close>

text \<open>A scheduler with two slots and one task object that owns a frame.\<close>

definition st0 :: sched where
  "st0 = set_task 7 (Some 100) (sched_init host_pool 2)"

lemma st0_facts:
  "sched_inv st0" "\<not> shutting_down st0" "tasks st0 7 = Some 100" "max_tasks st0 = 2"
  "st_of st0 i = Free" "gen_of st0 i = 0" "ready_list st0 = []" "idle st0" "hook_log st0 = []"
  "current st0 = None" "now_us st0 = 0" "in_poll st0 = False" "handle_of st0 i = None"
  using sched_init_inv [where pl = host_pool and n = 2]
  by (simp_all add: st0_def sched_init_def view_defs slot_init_def idle_def ready_list_def)

text \<open>The task scheduled in slot 0, and then running.\<close>

definition st1 :: sched where
  "st1 = adopt 0 (Some 100) None (set_generation 0 1 (set_task 7 None st0))"

definition st2 :: sched where
  "st2 = begin_run 0 st1"

lemma st1_create: "create_task 7 st0 = (mk_task_handle 0 st1, st1)"
proof -
  have "acquire_slot st0 = (Some 0, set_generation 0 1 st0)"
    by (simp add: acquire_slot_def st0_facts max_generation_def upt_rec)
  then show ?thesis
    by (simp add: create_task_def schedule_cases st0_facts Let_def set_task_upd_slot st1_def)
qed

lemma st1_facts:
  "sched_inv st1" "ready_list st1 = [0]" "idle st1" "st_of st1 = (\<lambda>_. Free)(0 := Ready)"
  "handle_of st1 = (\<lambda>_. None)(0 := Some 100)" "max_tasks st1 = 2" "gen_of st1 = (\<lambda>_. 0)(0 := 1)"
  "\<not> shutting_down st1" "\<not> in_poll st1" "parent_of st1 0 = None" "hook_log st1 = []"
proof -
  show "sched_inv st1" using schedule_inv(1) [OF st0_facts(1), of 7] st1_create by (simp add: create_task_def)
  have s: "sched_inv (set_generation 0 1 (set_task 7 None st0))" using st0_facts(1) by simp
  have "ready_list (set_generation 0 1 (set_task 7 None st0)) = ready_list st0"
    by (rule ready_list_cong) simp_all
  then show "ready_list st1 = [0]"
    using adopt_fifo(2) [OF sched_invD(5) [OF s], of 0] by (simp add: st1_def st0_facts)
  show "st_of st1 = (\<lambda>_. Free)(0 := Ready)" "handle_of st1 = (\<lambda>_. None)(0 := Some 100)"
    "gen_of st1 = (\<lambda>_. 0)(0 := 1)"
    by (simp_all add: st1_def st0_facts fun_eq_iff)
  then show "idle st1" by (simp add: idle_def st1_def st0_facts)
  show "max_tasks st1 = 2" "\<not> shutting_down st1" "\<not> in_poll st1" "parent_of st1 0 = None" "hook_log st1 = []"
    by (simp_all add: st1_def st0_facts)
qed

lemma st2_facts:
  "sched_inv st2" "current st2 = Some 0" "st_of st2 = (\<lambda>_. Free)(0 := Running)"
  "handle_of st2 = (\<lambda>_. None)(0 := Some 100)" "max_tasks st2 = 2" "ready_list st2 = []"
  "gen_of st2 = (\<lambda>_. 0)(0 := 1)" "now_us st2 = 0" "hook_log st2 = []"
  using begin_run_inv [OF st1_facts(1,2)]
  by (simp_all add: st2_def st1_facts) (simp add: st1_def st0_facts)

theorem create_task_accepted_witness:
  "\<exists>k h s'. create_task 7 st0 = (h, s') \<and> k < 2 \<and> sched_inv s' \<and> handle_of s' k = Some 100 \<and>
    ready_list s' = [k] \<and> tasks s' 7 = None \<and> th_valid s' h \<and> \<not> th_valid st0 h"
proof -
  have "(0 :: nat) < max_tasks st0" "\<not> is_active (st_of st0 0)" "gen_of st0 0 \<noteq> max_generation"
    by (simp_all add: st0_facts max_generation_def)
  from create_task_accepted [OF st0_facts(1-3) this] show ?thesis
    by (elim exE conjE) (intro exI conjI, assumption, simp_all add: st0_facts)
qed

theorem create_task_refused_witness:
  "create_task 8 st0 = (invalid_handle, on_error Invalid_task st0)"
proof -
  have "tasks st0 8 = None" by (simp add: st0_def sched_init_def)
  with create_task_refused [of st0 8 st0] show ?thesis by (simp add: st0_facts)
qed

text \<open>Coroutines that yield whenever they are resumed, end never, and whose destruction is
  recorded in the log.\<close>

definition yielder :: "sched coro" where
  "yielder = \<lparr>co_resume = (\<lambda>f s. yield_current s), co_done = (\<lambda>f s. False),
     co_destroy = (\<lambda>f s. on_error No_error s)\<rparr>"

theorem await_child_adopted_witness:
  "\<exists>k s'. start_child yielder (Some 300) (Some 100) st2 = (True, s') \<and> parent_of s' k = Some 0 \<and>
    st_of s' 0 = Waiting_child \<and> ready_list s' = [k] \<and> sched_inv s'"
proof -
  have "current st2 = Some 0" "st_of st2 0 = Running" "handle_of st2 0 = Some 100" "1 < max_tasks st2"
    "\<not> is_active (st_of st2 1)" "gen_of st2 1 \<noteq> max_generation"
    by (simp_all add: st2_facts max_generation_def)
  from await_child_adopted [OF st2_facts(1) this, of yielder 300] show ?thesis
    by (elim exE conjE) (intro exI conjI, assumption, simp_all add: st2_facts)
qed

theorem await_child_rejected_witness:
  "start_child yielder (Some 300) (Some 999) st2 = (False, on_error Invalid_task (on_error No_error st2))"
proof -
  have "foreign (Some 999) st2" by (simp add: foreign_def st2_facts)
  with await_child_rejected [of "Some 999" st2 yielder 300] show ?thesis by (simp add: yielder_def)
qed

theorem foreign_yield_duplicates_witness:
  "ready_list (yield_suspend (Some 100) (yield_suspend (Some 999) st2)) = [0, 0]"
  using foreign_yield_duplicates [OF st2_facts(1,2), of "Some 999"] by (simp add: st2_facts)

theorem yield_requeues_witness:
  "st_of (delay_suspend 5000 (Some 100) st2) 0 = Waiting_timer \<and>
   unat (deadline_of (delay_suspend 5000 (Some 100) st2) 0) = 5000 \<and>
   ready_list (delay_suspend 5000 (Some 100) st2) = []"
  using yield_requeues [OF st2_facts(1,2), of 5000 "Some 100"] by (simp add: st2_facts Let_def)

text \<open>The task delayed by 5 ms, 6 ms later.\<close>

definition st3 :: sched where
  "st3 = (arm_current_timer 5000 st2)\<lparr>current := None, now_us := 6000\<rparr>"

lemma st3_facts:
  "sched_inv st3" "max_tasks st3 = 2" "st_of st3 0 = Waiting_timer" "deadline_of st3 0 = 5000"
  "now_us st3 = 6000"
proof -
  have "sched_inv (arm_current_timer 5000 st2)" by (rule arm_inv(1) [OF st2_facts(1,2)]) (simp add: st2_facts)
  from current_None_inv [OF this] show "sched_inv st3" by (subst sched_inv_more) (simp_all add: st3_def)
  show "max_tasks st3 = 2" "st_of st3 0 = Waiting_timer" "deadline_of st3 0 = 5000" "now_us st3 = 6000"
    by (simp_all add: st3_def arm_current_timer_def compute_deadline_cases st2_facts Let_def)
qed

theorem due_timers_in_order_witness:
  "0 \<in> set (ready_list (process_due_timers st3)) \<and> sched_inv (process_due_timers st3)"
proof -
  have due: "0 < max_tasks st3 \<and> st_of st3 0 = Waiting_timer \<and> deadline_of st3 0 \<le> now_us st3"
    by (simp add: st3_facts)
  from due_timers_in_order [OF st3_facts(1)] show ?thesis
    by (elim exE conjE) (use due in \<open>simp del: fold_views\<close>)
qed



end
