(* ===== verification/Diagnostics.thy ===== *)
theory Diagnostics
  imports Scheduler_Run Frame_Pool_Props
begin

text \<open>
  \<open>scheduler_counters()\<close> and \<open>stats()\<close> (diagnostics.h), compiled with
  \<open>SIMPLEAWAIT_ENABLE_DIAGNOSTICS\<close>: a snapshot of the scheduler's and of the frame pool's
  counters. The lemmas show that the snapshot is the truth about the slots and the arena.
\<close>

section \<open>The snapshot\<close>

record scheduler_counters =
  sc_active_tasks :: nat
  sc_peak_tasks :: nat
  sc_ready_tasks :: nat
  sc_waiting_timers :: nat

record stats =
  st_active_tasks :: nat
  st_peak_tasks :: nat
  st_ready_tasks :: nat
  st_waiting_timers :: nat
  st_frame_bytes_used :: nat
  st_peak_frame_bytes_used :: nat
  st_frame_bytes_free :: nat
  st_allocation_failures :: nat

text \<open>The scan over \<open>slots_\<close>.\<close>

definition count_waiting :: "'a sched_scheme \<Rightarrow> nat" where
  "count_waiting s =
     fold (\<lambda>i n. if state (slots s i) = Waiting_timer then n + 1 else n) [0..<max_tasks s] 0"

definition mk_scheduler_counters :: "'a sched_scheme \<Rightarrow> scheduler_counters" where
  "mk_scheduler_counters s =
     \<lparr>sc_active_tasks = active_count s, sc_peak_tasks = peak_count s, sc_ready_tasks = ready_count s,
      sc_waiting_timers = count_waiting s\<rparr>"

definition mk_stats :: "target \<Rightarrow> 'a sched_scheme \<Rightarrow> stats" where
  "mk_stats tgt s =
     (let counters = mk_scheduler_counters s; pl = fpool s
      in \<lparr>st_active_tasks = sc_active_tasks counters, st_peak_tasks = sc_peak_tasks counters,
          st_ready_tasks = sc_ready_tasks counters, st_waiting_timers = sc_waiting_timers counters,
          st_frame_bytes_used = bytes_used pl, st_peak_frame_bytes_used = peak_bytes_used pl,
          st_frame_bytes_free = bytes_free tgt pl, st_allocation_failures = allocation_failures pl\<rparr>)"

section \<open>The snapshot is the truth\<close>

lemma fold_count: "fold (\<lambda>i n. if P i then n + 1 else n) xs k = k + length (filter P xs)" for k :: nat
  by (induction xs arbitrary: k) simp_all

lemma count_waiting_card: "count_waiting s = card {i. i < max_tasks s \<and> st_of s i = Waiting_timer}"
  by (simp add: count_waiting_def fold_count count_below_card flip: count_below_def)

lemma ready_count_card:
  assumes "ready_ok s"
  shows "ready_count s = card {i. i < max_tasks s \<and> st_of s i = Ready}"
proof -
  have "set (ready_list s) = {i. i < max_tasks s \<and> st_of s i = Ready}"
    using ready_okD(4) [OF assms] by blast
  then show ?thesis using ready_okD(2,3) [OF assms] distinct_card by metis
qed

text \<open>C38. In every state that satisfies the scheduler's invariant, the
  counters are the numbers of slots in the states they name: active tasks, ready tasks and
  waiting timers; ready and waiting tasks together are at most the active ones, these at most
  the high-water mark, and that at most the capacity.\<close>

theorem stats_tell_the_truth:
  assumes "sched_inv s"
  shows "st_active_tasks (mk_stats tgt s) = card {i. i < max_tasks s \<and> is_active (st_of s i)} \<and>
    st_ready_tasks (mk_stats tgt s) = card {i. i < max_tasks s \<and> st_of s i = Ready} \<and>
    st_waiting_timers (mk_stats tgt s) = card {i. i < max_tasks s \<and> st_of s i = Waiting_timer} \<and>
    st_ready_tasks (mk_stats tgt s) + st_waiting_timers (mk_stats tgt s) \<le> st_active_tasks (mk_stats tgt s) \<and>
    st_active_tasks (mk_stats tgt s) \<le> st_peak_tasks (mk_stats tgt s) \<and>
    st_peak_tasks (mk_stats tgt s) \<le> max_tasks s"
proof -
  let ?A = "{i. i < max_tasks s \<and> is_active (st_of s i)}"
  let ?R = "{i. i < max_tasks s \<and> st_of s i = Ready}"
  let ?T = "{i. i < max_tasks s \<and> st_of s i = Waiting_timer}"
  have c: "active_count s = card ?A" "active_count s \<le> peak_count s" "peak_count s \<le> max_tasks s"
    using sched_invD(6) [OF assms] by (simp_all add: count_ok_def count_below_card)
  have "card ?R + card ?T = card (?R \<union> ?T)" by (rule card_Un_disjoint [symmetric]) auto
  also have "\<dots> \<le> card ?A" by (rule card_mono) auto
  finally show ?thesis
    using c ready_count_card [OF sched_invD(5) [OF assms]]
    by (simp add: mk_stats_def mk_scheduler_counters_def Let_def count_waiting_card)
qed

end
