(* ===== verification/Wait_Until.thy ===== *)
theory Wait_Until
  imports Scheduler_Run
begin

text \<open>
  \<open>waitUntil(predicate)\<close> (waituntil.h): a coroutine over \<open>yield()\<close>. Its body is modelled
  from one suspension point to the next: \<open>wait_until_run\<close> is what one resumption of the
  frame does. The predicate is user code: a function of the state that returns its verdict and
  the state it leaves.
\<close>

section \<open>The coroutine body\<close>

text \<open>
  The loop runs from its test, both when the frame starts and when \<open>co_await yield()\<close> returns.
  The Boolean is whether the coroutine has returned; otherwise it is suspended at the yield.
\<close>

definition wait_until_run ::
    "('a sched_scheme \<Rightarrow> bool \<times> 'a sched_scheme) \<Rightarrow> nat option \<Rightarrow> 'a sched_scheme \<Rightarrow> bool \<times> 'a sched_scheme" where
  "wait_until_run predicate self s =
     (case predicate s of (b, s1) \<Rightarrow> if \<not> b then (False, yield_suspend self s1) else (True, s1))"

section \<open>One evaluation per pass\<close>

text \<open>One resumption of \<open>waitUntil\<close> in the running task
  evaluates the predicate once. If it holds, the coroutine returns without a suspension and
  nothing else has changed; otherwise the task is put behind all tasks that are ready, so each
  of them runs before the predicate is looked at again.\<close>

theorem wait_until_yields_or_returns:
  assumes "sched_inv s" and "current s = Some i" and "st_of s i = Running"
    and "predicate s = (b, s1)" and "sched_inv s1" and "quiet s s1"
  shows "case wait_until_run predicate self s of
      (True, s') \<Rightarrow> b \<and> s' = s1 \<and> st_of s' i = Running
    | (False, s') \<Rightarrow> \<not> b \<and> sched_inv s' \<and> evolves s s' \<and> ready_list s' = ready_list s1 @ [i] \<and> st_of s' i = Ready"
proof -
  have cur: "current s1 = Some i" "st_of s1 i = Running"
    using assms(2,3,6) evolvesD(2) [OF quiet_evolves [OF assms(6)]] by (simp_all add: quiet_def)
  have m: "i < max_tasks s1" using sched_invD(8) [OF assms(5)] cur by (simp add: current_ok_def)
  have y: "yield_suspend self s1 = make_ready i s1"
    using cur by (simp add: yield_suspend_def yield_current_def make_ready_def)
  have "sched_inv (make_ready i s1)" by (rule make_ready_inv [OF assms(5) m]) (use cur in simp)
  moreover have "evolves s1 (make_ready i s1)"
    by (rule make_ready_evolves [OF sched_invD(5) [OF assms(5)] m]) (use cur in auto)
  moreover have "ready_list (make_ready i s1) = ready_list s1 @ [i]"
    by (rule make_ready_fifo(2) [OF sched_invD(5) [OF assms(5)] m]) (use cur in simp)
  ultimately show ?thesis
    using cur assms(4) evolves_trans [OF quiet_evolves [OF assms(6)]] by (auto simp: wait_until_run_def y)
qed

end
