(* ===== verification/Scenarios_Objects.thy ===== *)
theory Scenarios_Objects
  imports Scenarios Diagnostics Wait_Until Queue
begin

text \<open>
  The concrete scheduler states of \<open>Scenarios\<close> in a program that also has events, flags and
  queues; the properties of the synchronisation objects are applied there.
\<close>

definition world_of :: "sched \<Rightarrow> nat q_world" where
  "world_of s = \<lparr>hook_log = hook_log s, tasks = tasks s, fpool = fpool s, max_tasks = max_tasks s,
     slots = slots s, ready_head = ready_head s, ready_tail = ready_tail s, ready_count = ready_count s,
     active_count = active_count s, peak_count = peak_count s, current = current s, in_poll = in_poll s,
     shutting_down = shutting_down s, now_us = now_us s, nearest_deadline = nearest_deadline s,
     events = (\<lambda>_. event_init), flags = (\<lambda>_. flag_init), armed_head = None, pending = False,
     wake_created = False, wake_given = False, queues = (\<lambda>_. queue_init 2),
     senders = (\<lambda>_. \<lparr>sa_queue = 0, sa_value = 0, sa_next = None, sa_slot = None, sa_linked = False\<rparr>),
     receivers = (\<lambda>_. \<lparr>ra_queue = 0, ra_storage = None, ra_has_result = False, ra_next = None,
       ra_slot = None, ra_linked = False\<rparr>)\<rparr>"

lemma world_of_fields [simp]:
  "hook_log (world_of s) = hook_log s" "max_tasks (world_of s) = max_tasks s" "slots (world_of s) = slots s"
  "ready_head (world_of s) = ready_head s" "ready_tail (world_of s) = ready_tail s"
  "ready_count (world_of s) = ready_count s" "active_count (world_of s) = active_count s"
  "peak_count (world_of s) = peak_count s" "current (world_of s) = current s"
  "nearest_deadline (world_of s) = nearest_deadline s" "events (world_of s) = (\<lambda>_. event_init)"
  "flags (world_of s) = (\<lambda>_. flag_init)" "armed_head (world_of s) = None" "\<not> pending (world_of s)"
  "ready_list (world_of s) = ready_list s" "shutting_down (world_of s) = shutting_down s"
  "in_poll (world_of s) = in_poll s" "now_us (world_of s) = now_us s" "tasks (world_of s) = tasks s"
  "sched_inv (world_of s) = sched_inv s"
proof -
  show f: "hook_log (world_of s) = hook_log s" "max_tasks (world_of s) = max_tasks s" "slots (world_of s) = slots s"
    "ready_head (world_of s) = ready_head s" "ready_tail (world_of s) = ready_tail s"
    "ready_count (world_of s) = ready_count s" "active_count (world_of s) = active_count s"
    "peak_count (world_of s) = peak_count s" "current (world_of s) = current s"
    "nearest_deadline (world_of s) = nearest_deadline s" "events (world_of s) = (\<lambda>_. event_init)"
    "flags (world_of s) = (\<lambda>_. flag_init)" "armed_head (world_of s) = None" "\<not> pending (world_of s)"
    "shutting_down (world_of s) = shutting_down s"
    "in_poll (world_of s) = in_poll s" "now_us (world_of s) = now_us s" "tasks (world_of s) = tasks s"
    by (simp_all add: world_of_def)
  show r: "ready_list (world_of s) = ready_list s" by (simp add: ready_list_def f)
  show "sched_inv (world_of s) = sched_inv s"
    using r f by (simp add: sched_inv_def sched_base_def inv_defs ready_rep_def)
qed

lemma world_waiters: "waiters e (world_of s) = []" "events_ok (world_of s)"
proof -
  have "wq_rep (ev_waiters (events (world_of s) e)) (world_of s) []" for e
    by (simp add: event_init_def)
  then show "waiters e (world_of s) = []" "events_ok (world_of s)"
    using events_okI [of "world_of s" "\<lambda>_. []"] by simp_all
qed

section \<open>Events\<close>

theorem event_wait_parks_witness:
  "\<exists>s'. event_suspend 3 (Some 100) (world_of st2) = (True, s') \<and> waiters 3 s' = [0] \<and> sched_inv s' \<and> events_ok s'"
proof -
  have run: "current (world_of st2) = Some 0 \<and> st_of (world_of st2) 0 = Running \<and> handle_of (world_of st2) 0 = Some 100"
    by (simp add: st2_facts)
  have "sched_inv (world_of st2)" by (simp add: st2_facts)
  from event_wait_parks [OF this world_waiters(2), of "Some 100" 3] run
  show ?thesis by (auto simp: world_waiters)
qed

text \<open>The task of slot 0 waits for event 3.\<close>

definition ew :: "nat q_world" where
  "ew = snd (event_suspend 3 (Some 100) (world_of st2))"

lemma ew_facts:
  "sched_inv ew" "events_ok ew" "waiters 3 ew = [0]" "ready_list ew = []"
proof -
  have i: "sched_inv (world_of st2)" by (simp add: st2_facts)
  obtain s' where "event_suspend 3 (Some 100) (world_of st2) = (True, s')" "sched_inv s'" "events_ok s'"
    "waiters 3 s' = waiters 3 (world_of st2) @ [0]" "ready_list s' = ready_list (world_of st2)"
    by (rule event_park_inv [OF i world_waiters(2), of 0 "Some 100" 3]) (simp_all add: st2_facts)
  then show "sched_inv ew" "events_ok ew" "waiters 3 ew = [0]" "ready_list ew = []"
    by (simp_all add: ew_def world_waiters st2_facts)
qed

theorem event_set_wakes_all_witness:
  "\<exists>s'. event_set 3 ew = Some s' \<and> ready_list s' = [0] \<and> waiters 3 s' = [] \<and> sched_inv s'"
  using event_set_wakes_all [OF ew_facts(1,2), of 3] by (auto simp: ew_facts)

section \<open>Diagnostics and waitUntil\<close>

theorem stats_tell_the_truth_witness:
  "st_ready_tasks (mk_stats host st1) = 1 \<and> st_waiting_timers (mk_stats host st3) = 1"
proof -
  have "{i. i < max_tasks st1 \<and> st_of st1 i = Ready} = {0}" by (auto simp: st1_facts)
  moreover have "{i. i < max_tasks st3 \<and> st_of st3 i = Waiting_timer} = {0}"
  proof -
    have "st_of st3 (Suc 0) = Free"
      by (simp add: st3_def arm_current_timer_def compute_deadline_cases st2_facts Let_def)
    then show ?thesis using st3_facts by (auto simp: less_2_cases_iff)
  qed
  ultimately show ?thesis
    using stats_tell_the_truth [OF st1_facts(1), of host] stats_tell_the_truth [OF st3_facts(1), of host]
    by simp
qed

theorem wait_until_yields_or_returns_witness:
  "fst (wait_until_run (\<lambda>s. (now_us s > 5, s)) (Some 100) st2) = False \<and>
   ready_list (snd (wait_until_run (\<lambda>s. (now_us s > 5, s)) (Some 100) st2)) = [0]"
proof -
  let ?p = "\<lambda>s :: sched. (now_us s > 5, s)"
  have "?p st2 = (False, st2)" "st_of st2 0 = Running" by (simp_all add: st2_facts)
  then have "case wait_until_run ?p (Some 100) st2 of
      (True, s') \<Rightarrow> False \<and> s' = st2 \<and> st_of s' 0 = Running
    | (False, s') \<Rightarrow> \<not> False \<and> sched_inv s' \<and> evolves st2 s' \<and> ready_list s' = ready_list st2 @ [0] \<and> st_of s' 0 = Ready"
    by (intro wait_until_yields_or_returns [OF st2_facts(1,2) _ _ st2_facts(1) quiet_refl])
  moreover obtain b s' where r: "wait_until_run ?p (Some 100) st2 = (b, s')" by fastforce
  ultimately show ?thesis by (cases b) (simp_all add: r st2_facts)
qed

end
