(* ===== verification/Flag_Signals.thy ===== *)
theory Flag_Signals
  imports Flag_Props
begin

text \<open>
  \<open>set()\<close> from interrupts and other cores while the scheduler runs (threadsafeflag.h,
  scheduler.h, platform_idle.h). The scheduler's thread is a program counter over the steps of
  \<open>poll()\<close> and \<open>poll_and_wait()\<close> that matter to the flags; each critical section is one
  step, and between any two steps other contexts may run the two halves of \<open>set()\<close>: its
  critical section, and the wake-up it issues after leaving it. The invariant shows that no
  signal is lost: not to a scan in progress, not to a task about to park, and not to the
  platform wait.
\<close>

section \<open>The machine\<close>

text \<open>
  The Boolean says whether the pass belongs to \<open>poll_and_wait()\<close>. \<open>Scanning\<close> holds the
  loop variables \<open>prev\<close> and \<open>f\<close> of \<open>poll_external_signals\<close>, \<open>Resolving\<close> is
  after the critical section of one flag; \<open>Awaiting\<close> is between \<open>await_ready\<close>, which has
  returned false, and \<open>await_suspend\<close> of one \<open>co_await flag.wait()\<close>.
\<close>

datatype main_pc =
    Idle
  | Polling bool
  | Scanning bool "nat option" "nat option"
  | Resolving bool "nat option" nat bool
  | Tasks bool
  | Awaiting bool nat "nat option"
  | Waiting idle_action

text \<open>The number of \<open>set()\<close> calls that have left their critical section and not yet given the semaphore.\<close>

type_synonym 'a machine = "main_pc \<times> nat \<times> 'a flag_world_scheme"

text \<open>Any other scheduler-context code: it leaves the flags alone and keeps their waiters parked.\<close>

definition other_work :: "'a flag_world_scheme \<Rightarrow> 'a flag_world_scheme \<Rightarrow> bool" where
  "other_work s s' \<longleftrightarrow> sched_inv s' \<and> flags s' = flags s \<and> armed_head s' = armed_head s \<and>
     pending s' = pending s \<and> wake_created s' = wake_created s \<and> wake_given s' = wake_given s \<and>
     max_tasks s' = max_tasks s \<and> (\<forall>i \<in> flag_parked s. st_of s' i = Waiting_local)"

definition in_tasks :: "main_pc \<Rightarrow> bool" where
  "in_tasks p \<longleftrightarrow> (case p of Idle \<Rightarrow> True | Tasks _ \<Rightarrow> True | _ \<Rightarrow> False)"

inductive sys_step :: "32 word \<Rightarrow> 64 word \<Rightarrow> 'a machine \<Rightarrow> 'a machine \<Rightarrow> bool" for port_max_delay tick_rate where
  poll: "sys_step port_max_delay tick_rate (Idle, n, s) (Polling False, n, s)"
| poll_and_wait: "sys_step port_max_delay tick_rate (Idle, n, s) (Polling True, n, platform_prepare_scheduler_wait s)"
| refused: "sys_step port_max_delay tick_rate (Polling w, n, s) (Idle, n, s)"
| not_pending: "sys_step port_max_delay tick_rate (Polling w, n, s) (Tasks w, n, s')"
    if "take_pending s = (False, s')"
| was_pending: "sys_step port_max_delay tick_rate (Polling w, n, s) (Scanning w None (armed_head s'), n, s')"
    if "take_pending s = (True, s')"
| scanned: "sys_step port_max_delay tick_rate (Scanning w prev None, n, s) (Tasks w, n, s)"
| scan: "sys_step port_max_delay tick_rate (Scanning w prev (Some g), n, s) (Resolving w prev g wake, n, s')"
    if "take_signal g s = (wake, s')"
| resolve: "sys_step port_max_delay tick_rate (Resolving w prev g wake, n, s) (Scanning w prev' nxt, n, s')"
    if "resolve_flag wake prev g s = (prev', nxt, s')"
| ready: "sys_step port_max_delay tick_rate (Tasks w, n, s) (Tasks w, n, s')"
    if "flag_consume f s = (True, s')"
| not_ready: "sys_step port_max_delay tick_rate (Tasks w, n, s) (Awaiting w f h, n, s')"
    if "flag_consume f s = (False, s')"
| suspend: "sys_step port_max_delay tick_rate (Awaiting w f h, n, s) (Tasks w, n, s')"
    if "flag_park f h s = (b, s')"
| clear: "sys_step port_max_delay tick_rate (p, n, s) (p, n, flag_clear f s)" if "in_tasks p"
| destroy: "sys_step port_max_delay tick_rate (p, n, s) (p, n, s')" if "in_tasks p" "flag_destructor f s = Some s'"
| work: "sys_step port_max_delay tick_rate (p, n, s) (p, n, s')" if "in_tasks p" "other_work s s'"
| polled: "sys_step port_max_delay tick_rate (Tasks w, n, s) (Idle, n, s)"
    if "\<not> w \<or> wait_for_work has_external_waiters s = None"
| wait: "sys_step port_max_delay tick_rate (Tasks True, n, s)
      (Waiting (platform_wait_until port_max_delay tick_rate (wake_created s) now deadline external), n, s)"
    if "wait_for_work has_external_waiters s = Some (deadline, external)"
| no_wait: "sys_step port_max_delay tick_rate (Waiting No_wait, n, s) (Idle, n, s)"
| delayed: "sys_step port_max_delay tick_rate (Waiting (Task_delay k), n, s) (Idle, n, s)"
| taken: "sys_step port_max_delay tick_rate (Waiting (Semaphore_take k), n, s) (Idle, n, s\<lparr>wake_given := False\<rparr>)"
    if "wake_given s"
| timed_out: "sys_step port_max_delay tick_rate (Waiting (Semaphore_take k), n, s) (Idle, n, s)"
    if "k \<noteq> port_max_delay"
| signal: "sys_step port_max_delay tick_rate (p, n, s) (p, if newly then n + 1 else n, s')"
    if "flag_signal f s = (newly, s')"
| give: "sys_step port_max_delay tick_rate (p, Suc n, s) (p, n, platform_wake_scheduler s)"

section \<open>The invariant\<close>

text \<open>The armed flags a scan has still to look at; \<open>None\<close> when its loop variables do not fit the list.\<close>

definition scan_at :: "'a flag_world_scheme \<Rightarrow> nat list \<Rightarrow> nat list \<Rightarrow> nat option \<Rightarrow> nat option \<Rightarrow> bool" where
  "scan_at s pre xs prev f \<longleftrightarrow> armed s = pre @ xs \<and> prev = (if pre = [] then None else Some (last pre)) \<and>
     f = (if xs = [] then None else Some (hd xs))"

text \<open>\<open>at_pc p s xs\<close>: the flags \<open>xs\<close> are still to be looked at.\<close>

definition at_pc :: "main_pc \<Rightarrow> 'a flag_world_scheme \<Rightarrow> nat list \<Rightarrow> bool" where
  "at_pc p s xs \<longleftrightarrow> (case p of
       Scanning w prev f \<Rightarrow> \<exists>pre. scan_at s pre xs prev f
     | Resolving w prev g wake \<Rightarrow> \<exists>pre. scan_at s pre (g # xs) prev (Some g)
     | _ \<Rightarrow> xs = [])"

text \<open>Passes of \<open>poll_and_wait()\<close> from the scan on, and the wait itself.\<close>

definition may_wait :: "main_pc \<Rightarrow> bool" where
  "may_wait p \<longleftrightarrow> (case p of Scanning w _ _ \<Rightarrow> w | Resolving w _ _ _ \<Rightarrow> w | Tasks w \<Rightarrow> w | Awaiting w _ _ \<Rightarrow> w
     | Waiting _ \<Rightarrow> True | _ \<Rightarrow> False)"

lemma pc_simps [simp]:
  "at_pc Idle s xs \<longleftrightarrow> xs = []" "at_pc (Polling w) s xs \<longleftrightarrow> xs = []" "at_pc (Tasks w) s xs \<longleftrightarrow> xs = []"
  "at_pc (Awaiting w f h) s xs \<longleftrightarrow> xs = []" "at_pc (Waiting a) s xs \<longleftrightarrow> xs = []"
  "at_pc (Scanning w prev f') s xs \<longleftrightarrow> (\<exists>pre. scan_at s pre xs prev f')"
  "at_pc (Resolving w prev g b) s xs \<longleftrightarrow> (\<exists>pre. scan_at s pre (g # xs) prev (Some g))"
  "\<not> may_wait Idle" "\<not> may_wait (Polling w)" "may_wait (Scanning w prev f') = w" "may_wait (Resolving w prev g b) = w"
  "may_wait (Tasks w) = w" "may_wait (Awaiting w f h) = w" "may_wait (Waiting a)"
  "in_tasks Idle" "\<not> in_tasks (Polling w)" "\<not> in_tasks (Scanning w prev f')" "\<not> in_tasks (Resolving w prev g b)"
  "in_tasks (Tasks w)" "\<not> in_tasks (Awaiting w f h)" "\<not> in_tasks (Waiting a)"
  by (simp_all add: at_pc_def may_wait_def in_tasks_def)

text \<open>
  A signaled flag with a waiter is still to be looked at by the scan, or the next poll will
  scan again; and when the thread may go on to wait, the semaphore has been or will be given.
\<close>

definition signal_noted :: "main_pc \<Rightarrow> nat \<Rightarrow> 'a flag_world_scheme \<Rightarrow> nat \<Rightarrow> bool" where
  "signal_noted p n s f \<longleftrightarrow> pending s \<and> (may_wait p \<longrightarrow> wake_given s \<or> 0 < n)"

definition signals_ok :: "'a machine \<Rightarrow> bool" where
  "signals_ok m \<longleftrightarrow> (case m of (p, n, s) \<Rightarrow> sched_inv s \<and> flags_ok s \<and>
     (\<exists>xs. at_pc p s xs \<and> (\<forall>f \<in> set (armed s). signaled s f \<longrightarrow> f \<in> set xs \<or> signal_noted p n s f)) \<and>
     (may_wait p \<or> p = Polling True \<longrightarrow> wake_created s) \<and>
     (\<forall>w f h. p = Awaiting w f h \<longrightarrow> signaled s f \<longrightarrow> signal_noted p n s f) \<and>
     (\<forall>k. p = Waiting (Task_delay k) \<longrightarrow> armed s = []))"

lemma signals_okI:
  assumes "sched_inv s" "flags_ok s" "at_pc p s xs"
    and "\<And>f. f \<in> set (armed s) \<Longrightarrow> signaled s f \<Longrightarrow> f \<notin> set xs \<Longrightarrow> signal_noted p n s f"
    and "may_wait p \<or> p = Polling True \<Longrightarrow> wake_created s"
    and "\<And>w f h. p = Awaiting w f h \<Longrightarrow> signaled s f \<Longrightarrow> signal_noted p n s f"
    and "\<And>k. p = Waiting (Task_delay k) \<Longrightarrow> armed s = []"
  shows "signals_ok (p, n, s)"
  using assms unfolding signals_ok_def by auto

lemma signals_okE:
  assumes "signals_ok (p, n, s)"
  obtains xs where "sched_inv s" "flags_ok s" "at_pc p s xs"
    "\<forall>f. f \<in> set (armed s) \<longrightarrow> signaled s f \<longrightarrow> f \<notin> set xs \<longrightarrow> signal_noted p n s f"
    "may_wait p \<or> p = Polling True \<longrightarrow> wake_created s"
    "\<forall>w f h. p = Awaiting w f h \<longrightarrow> signaled s f \<longrightarrow> signal_noted p n s f"
    "\<forall>k. p = Waiting (Task_delay k) \<longrightarrow> armed s = []"
  using assms unfolding signals_ok_def by auto

text \<open>Steps that keep the armed list.\<close>

lemma keep_armed:
  assumes "flags_ok s" "below_flags s s'" "armed_next_of s' = armed_next_of s" "waiter_of s' = waiter_of s"
    "armed_head s' = armed_head s"
  shows "flags_ok s'" "armed s' = armed s" "at_pc p s' xs = at_pc p s xs" "sched_inv s' = sched_inv s"
proof -
  note r = flag_rep_armed [OF flag_rep_signal(1) [OF flags_okD [OF assms(1)] assms(2-5)]]
  show "flags_ok s'" "armed s' = armed s" by (rule r)+
  then show "at_pc p s' xs = at_pc p s xs" by (cases p) (simp_all add: scan_at_def)
  show "sched_inv s' = sched_inv s" by (rule below_flagsD(4) [OF assms(2)])
qed

section \<open>Every step keeps it\<close>

text \<open>The external contexts, at any point of the scheduler's thread.\<close>

lemma signal_ok:
  assumes ok: "signals_ok (p, n, s)" and sig: "flag_signal f s = (newly, s')"
  shows "signals_ok (p, if newly then n + 1 else n, s')"
proof (rule signals_okE [OF ok])
  fix xs assume a: "sched_inv s" "flags_ok s" "at_pc p s xs"
    "\<forall>f. f \<in> set (armed s) \<longrightarrow> signaled s f \<longrightarrow> f \<notin> set xs \<longrightarrow> signal_noted p n s f"
    "may_wait p \<or> p = Polling True \<longrightarrow> wake_created s"
    "\<forall>w f h. p = Awaiting w f h \<longrightarrow> signaled s f \<longrightarrow> signal_noted p n s f"
    "\<forall>k. p = Waiting (Task_delay k) \<longrightarrow> armed s = []"
  have n: "newly = (\<not> signaled s f)" and s': "s' = (set_signaled f True s)\<lparr>pending := True\<rparr>"
    using sig by (auto simp: flag_signal_def Let_def)
  have v: "below_flags s s'" "armed_next_of s' = armed_next_of s" "waiter_of s' = waiter_of s" "armed_head s' = armed_head s"
    "signaled s' = (signaled s)(f := True)" "pending s'" "wake_created s' = wake_created s" "wake_given s' = wake_given s"
    by (simp_all add: s' fun_eq_iff)
  note k = keep_armed [OF a(2) v(1-4)]
  have noted: "signal_noted p (if newly then n + 1 else n) s' g" if "signaled s g \<Longrightarrow> signal_noted p n s g" "signaled s' g" for g
    using that n v by (auto simp: signal_noted_def split: if_splits)
  show ?thesis
  proof (rule signals_okI)
    show "sched_inv s'" "flags_ok s'" "at_pc p s' xs" using a k by simp_all
    show "signal_noted p (if newly then n + 1 else n) s' g" if "g \<in> set (armed s')" "signaled s' g" "g \<notin> set xs" for g
      by (rule noted) (use that a(4) k(2) in auto)
    show "signal_noted p (if newly then n + 1 else n) s' g" if "p = Awaiting w g h" "signaled s' g" for w g h
      by (rule noted) (use that a(6) in auto)
    show "armed s' = []" if "p = Waiting (Task_delay i)" for i using that a(7) k(2) by simp
    show "wake_created s'" if "may_wait p \<or> p = Polling True" using that a(5) v by simp
  qed
qed

lemma give_ok:
  assumes ok: "signals_ok (p, Suc n, s)"
  shows "signals_ok (p, n, platform_wake_scheduler s)"
proof (rule signals_okE [OF ok])
  let ?s' = "platform_wake_scheduler s"
  fix xs assume a: "sched_inv s" "flags_ok s" "at_pc p s xs"
    "\<forall>f. f \<in> set (armed s) \<longrightarrow> signaled s f \<longrightarrow> f \<notin> set xs \<longrightarrow> signal_noted p (Suc n) s f"
    "may_wait p \<or> p = Polling True \<longrightarrow> wake_created s"
    "\<forall>w f h. p = Awaiting w f h \<longrightarrow> signaled s f \<longrightarrow> signal_noted p (Suc n) s f"
    "\<forall>k. p = Waiting (Task_delay k) \<longrightarrow> armed s = []"
  have v: "below_flags s ?s'" "flags ?s' = flags s" "armed_head ?s' = armed_head s"
    "pending ?s' = pending s" "wake_created ?s' = wake_created s" "wake_given ?s' = (wake_created s \<or> wake_given s)"
    by (simp_all add: platform_wake_scheduler_def)
  have k: "flags_ok ?s'" "armed ?s' = armed s" "at_pc p ?s' xs = at_pc p s xs" "sched_inv ?s' = sched_inv s"
    by (rule keep_armed [OF a(2) v(1)]; simp add: v)+
  have noted: "signal_noted p n ?s' g" if "signal_noted p (Suc n) s g" for g
    using that v a(5) by (auto simp: signal_noted_def)
  show ?thesis by (rule signals_okI [OF _ k(1)]) (use a k v noted in auto)
qed

text \<open>Scheduler-context code between two scans.\<close>

lemma tasks_ok:
  assumes ok: "signals_ok (p, n, s)" and p: "in_tasks p" and inv: "sched_inv s'" "flags_ok s'"
    and sub: "set (armed s') \<subseteq> set (armed s)" and sg: "\<And>f. f \<in> set (armed s') \<Longrightarrow> signaled s' f \<Longrightarrow> signaled s f"
    and same: "pending s' = pending s" "wake_created s' = wake_created s" "wake_given s' = wake_given s"
  shows "signals_ok (p, n, s')"
proof (rule signals_okE [OF ok])
  fix xs assume a: "sched_inv s" "flags_ok s" "at_pc p s xs"
    "\<forall>f. f \<in> set (armed s) \<longrightarrow> signaled s f \<longrightarrow> f \<notin> set xs \<longrightarrow> signal_noted p n s f"
    "may_wait p \<or> p = Polling True \<longrightarrow> wake_created s"
    "\<forall>w f h. p = Awaiting w f h \<longrightarrow> signaled s f \<longrightarrow> signal_noted p n s f"
    "\<forall>k. p = Waiting (Task_delay k) \<longrightarrow> armed s = []"
  have xs: "xs = []" "at_pc p s' []" using a(3) p by (cases p; simp)+
  show ?thesis
  proof (rule signals_okI [OF inv xs(2)])
    fix f assume "f \<in> set (armed s')" "signaled s' f"
    then have "signal_noted p n s f" using a(4) sub sg xs(1) by auto
    then show "signal_noted p n s' f" using same by (simp add: signal_noted_def)
  qed (use a(5) same p in auto)
qed

lemma work_ok:
  assumes "signals_ok (p, n, s)" "in_tasks p" "other_work s s'"
  shows "signals_ok (p, n, s')"
proof -
  have f: "flags_ok s" using assms(1) by (auto elim: signals_okE)
  have w: "sched_inv s'" "flags s' = flags s" "armed_head s' = armed_head s" "pending s' = pending s"
    "wake_created s' = wake_created s" "wake_given s' = wake_given s" "max_tasks s' = max_tasks s"
    "\<forall>i \<in> flag_parked s. st_of s' i = Waiting_local"
    using assms(3) by (simp_all add: other_work_def)
  have "flag_rep s' (armed s)" by (rule flag_rep_keep [OF flags_okD [OF f]]) (use w in simp_all)
  note r = flag_rep_armed [OF this]
  show ?thesis by (rule tasks_ok [OF assms(1,2) w(1) r(2)]) (use r w in simp_all)
qed

lemma clear_ok:
  assumes "signals_ok (p, n, s)" "in_tasks p"
  shows "signals_ok (p, n, flag_clear f s)"
proof -
  have f: "flags_ok s" "sched_inv s" using assms(1) by (auto elim: signals_okE)
  note v = signal_views [where s = s and f = f and b = False]
  note k = keep_armed [OF f(1) v(5,1,2,4)]
  show ?thesis unfolding flag_clear_def
    by (rule tasks_ok [OF assms _ k(1)]) (use k(2,4) f(2) v(3) in \<open>simp_all split: if_splits\<close>)
qed

lemma destroy_ok:
  assumes "signals_ok (p, n, s)" "in_tasks p" "flag_destructor f s = Some s'"
  shows "signals_ok (p, n, s')"
proof (cases "waiter_of s f")
  case None
  then show ?thesis using assms by (simp add: flag_destructor_def)
next
  case (Some i)
  have f: "flags_ok s" "sched_inv s" using assms(1) by (auto elim: signals_okE)
  obtain t where t: "flag_unarm f s = Some t" "flag_rep t (filter (\<lambda>g. g \<noteq> f) (armed s))" "below_flags s t"
    "waiter_of t = (waiter_of s)(f := None)" "signaled t = signaled s" "pending t = pending s"
    "wake_created t = wake_created s" "wake_given t = wake_given s"
    by (rule flag_unarm_inv [OF flags_okD [OF f(1)] Some])
  have s': "s' = on_error Object_destroyed_with_waiters t" using assms(3) Some t(1) by (simp add: flag_destructor_def)
  have m: "flags s' = flags t" "armed_head s' = armed_head t" "pending s' = pending t"
    "wake_created s' = wake_created t" "wake_given s' = wake_given t"
    unfolding s' by (rule flags_of_more; simp)+
  have "flag_rep s' (filter (\<lambda>g. g \<noteq> f) (armed s))" by (rule flag_rep_keep [OF t(2)]) (simp_all add: m, simp_all add: s')
  note r = flag_rep_armed [OF this]
  have "sched_inv s'" using f(2) below_flagsD(4) [OF t(3)] by (simp add: s')
  then show ?thesis by (rule tasks_ok [OF assms(1,2) _ r(2)]) (use r(1) m t in auto)
qed

text \<open>Waiting for a flag.\<close>

lemma consume_ok:
  assumes ok: "signals_ok (Tasks w, n, s)" and c: "flag_consume f s = (b, s')"
  shows "signals_ok (if b then Tasks w else Awaiting w f h, n, s')"
proof (cases "signaled s f")
  case True
  then have "b" "s' = flag_clear f s" using c by (auto simp: flag_consume_def flag_clear_def)
  then show ?thesis using clear_ok [OF ok] by simp
next
  case False
  then have b: "\<not> b" "s' = s" using c by (auto simp: flag_consume_def)
  show ?thesis
  proof (rule signals_okE [OF ok])
    fix xs assume a: "sched_inv s" "flags_ok s" "at_pc (Tasks w) s xs"
      "\<forall>f. f \<in> set (armed s) \<longrightarrow> signaled s f \<longrightarrow> f \<notin> set xs \<longrightarrow> signal_noted (Tasks w) n s f"
      "may_wait (Tasks w) \<or> Tasks w = Polling True \<longrightarrow> wake_created s"
    have "signals_ok (Awaiting w f h, n, s)"
      by (rule signals_okI [OF a(1,2), of _ "[]"]) (use a(3-5) False in \<open>auto simp: signal_noted_def\<close>)
    then show ?thesis by (simp add: b)
  qed
qed

lemma park_ok:
  assumes ok: "signals_ok (Awaiting w f h, n, s)" and c: "flag_park f h s = (b, s')"
  shows "signals_ok (Tasks w, n, s')"
proof (rule signals_okE [OF ok])
  fix xs assume a: "sched_inv s" "flags_ok s" "at_pc (Awaiting w f h) s xs"
      "\<forall>g. g \<in> set (armed s) \<longrightarrow> signaled s g \<longrightarrow> g \<notin> set xs \<longrightarrow> signal_noted (Awaiting w f h) n s g"
      "may_wait (Awaiting w f h) \<or> Awaiting w f h = Polling True \<longrightarrow> wake_created s"
      "\<forall>v g i. Awaiting w f h = Awaiting v g i \<longrightarrow> signaled s g \<longrightarrow> signal_noted (Awaiting w f h) n s g"
  have stay: "signals_ok (Tasks w, n, s)"
    by (rule signals_okI [OF a(1,2), of _ "[]"]) (use a(3-5) in \<open>auto simp: signal_noted_def\<close>)
  have err: "signals_ok (Tasks w, n, on_error e s)" for e
  proof (rule work_ok [OF stay])
    have m: "flags (on_error e s) = flags s" "armed_head (on_error e s) = armed_head s" "pending (on_error e s) = pending s"
      "wake_created (on_error e s) = wake_created s" "wake_given (on_error e s) = wake_given s"
      by (rule flags_of_more; simp)+
    have "st_of s i = Waiting_local" if "i \<in> flag_parked s" for i
      using that flag_repD(5) [OF flags_okD [OF a(2)]] by (auto simp: flag_parked_def)
    then show "other_work s (on_error e s)" using a(1) by (simp add: other_work_def m)
  qed simp
  show ?thesis
  proof (cases "\<exists>i. current s = Some i \<and> st_of s i = Running \<and> handle_of s i = h")
    case False
    then have "running_is h s = (False, on_error Invalid_task s)"
      using running_is_iff [of h s] by (cases "running_is h s") auto
    then show ?thesis using c err by (auto simp: flag_park_def)
  next
    case True
    then obtain i where run: "current s = Some i" "st_of s i = Running" "handle_of s i = h" by blast
    show ?thesis
    proof (cases "waiter_of s f")
      case (Some j)
      have "running_is h s = (True, s)" using run by (simp add: running_is_def)
      then show ?thesis using Some c err by (auto simp: flag_park_def)
    next
      case None
      obtain t where t: "flag_park f h s = (True, t)" "sched_inv t" "flag_rep t (f # armed s)"
        "signaled t = signaled s" "pending t = pending s" "wake_created t = wake_created s" "wake_given t = wake_given s"
        by (rule flag_park_inv [OF a(1) flags_okD [OF a(2)] run None]) (rule that; assumption)
      have s': "s' = t" using c t(1) by simp
      note r = flag_rep_armed [OF t(3)]
      show ?thesis unfolding s'
      proof (rule signals_okI [OF t(2) r(2), of _ "[]"])
        fix g assume g: "g \<in> set (armed t)" "signaled t g"
        have "signal_noted (Awaiting w f h) n s g"
          using g a(3,4,6) r(1) t(4) by auto
        then show "signal_noted (Tasks w) n t g" using t(5,7) by (simp add: signal_noted_def)
      qed (use a(5) t(6) in auto)
    qed
  qed
qed

text \<open>The scan.\<close>

lemma scan_ok:
  assumes ok: "signals_ok (Scanning w prev (Some g), n, s)" and c: "take_signal g s = (wake, s')"
  shows "signals_ok (Resolving w prev g wake, n, s')"
proof (rule signals_okE [OF ok])
  fix xs assume a: "sched_inv s" "flags_ok s" "at_pc (Scanning w prev (Some g)) s xs"
      "\<forall>f. f \<in> set (armed s) \<longrightarrow> signaled s f \<longrightarrow> f \<notin> set xs \<longrightarrow> signal_noted (Scanning w prev (Some g)) n s f"
      "may_wait (Scanning w prev (Some g)) \<or> Scanning w prev (Some g) = Polling True \<longrightarrow> wake_created s"
  then obtain pre where at: "scan_at s pre xs prev (Some g)" by auto
  then obtain ys where xs: "xs = g # ys" by (cases xs) (auto simp: scan_at_def)
  have g: "g \<in> set (armed s)" using at xs by (simp add: scan_at_def)
  have s': "s' = (if signaled s g then set_signaled g False s else s)"
    using c take_signal_eq [OF flags_okD [OF a(2)] g] by auto
  have k: "flags_ok s'" "armed s' = armed s" "sched_inv s' = sched_inv s" "pending s' = pending s"
    "wake_created s' = wake_created s" "wake_given s' = wake_given s" "signaled s' = (signaled s)(g := False)"
    using keep_armed [OF a(2) signal_views(5,1,2,4) [where f = g and b = False]] a(2)
    by (auto simp: s' fun_eq_iff)
  show ?thesis
  proof (rule signals_okI [OF _ k(1), of _ ys])
    show "at_pc (Resolving w prev g wake) s' ys" using at by (auto simp: xs scan_at_def k(2))
    fix f assume "f \<in> set (armed s')" "signaled s' f" "f \<notin> set ys"
    then have "f \<in> set (armed s)" "signaled s f" "f \<notin> set xs" unfolding k(2,7) xs by (auto split: if_splits)
    then have "signal_noted (Scanning w prev (Some g)) n s f" using a(4) by simp
    then show "signal_noted (Resolving w prev g wake) n s' f" by (simp add: signal_noted_def k(4,6))
  qed (use a(1,5) k(3,5) in auto)
qed

lemma chain_next: "chain nxt h (pre @ g # post) \<Longrightarrow> nxt g = (if post = [] then None else Some (hd post))"
proof (induction pre arbitrary: h)
  case Nil
  then show ?case by (cases post) auto
qed auto

lemma resolve_ok:
  assumes ok: "signals_ok (Resolving w prev g wake, n, s)" and c: "resolve_flag wake prev g s = (prev', nxt, s')"
  shows "signals_ok (Scanning w prev' nxt, n, s')"
proof (rule signals_okE [OF ok])
  fix xs assume a: "sched_inv s" "flags_ok s" "at_pc (Resolving w prev g wake) s xs"
      "\<forall>f. f \<in> set (armed s) \<longrightarrow> signaled s f \<longrightarrow> f \<notin> set xs \<longrightarrow> signal_noted (Resolving w prev g wake) n s f"
      "may_wait (Resolving w prev g wake) \<or> Resolving w prev g wake = Polling True \<longrightarrow> wake_created s"
  then obtain pre where at: "armed s = pre @ g # xs" "prev = (if pre = [] then None else Some (last pre))"
    by (auto simp: scan_at_def)
  have rep: "flag_rep s (pre @ g # xs)" using flags_okD [OF a(2)] by (simp add: at(1))
  have noted: "signal_noted (Scanning w prev' nxt) n t f"
    if "signal_noted (Resolving w prev g wake) n s f" "pending t = pending s" "wake_given t = wake_given s" for f and t :: "'a flag_world_scheme"
    using that by (simp add: signal_noted_def)
  show ?thesis
  proof (cases wake)
    case False
    have e: "prev' = Some g" "nxt = (if xs = [] then None else Some (hd xs))" "s' = s"
      using c False chain_next [OF flag_repD(1) [OF rep]] by (auto simp: resolve_flag_def Let_def)
    have "scan_at s (pre @ [g]) xs prev' nxt" using at(1) by (simp add: scan_at_def e)
    then show ?thesis unfolding e(3)
      by (intro signals_okI [OF a(1,2), of _ xs]) (use a(4,5) noted in auto)
  next
    case True
    obtain i t where t: "resolve_flag True prev g s = (prev, if xs = [] then None else Some (hd xs), t)"
      "waiter_of s g = Some i" "sched_inv t" "flag_rep t (pre @ xs)" "quiet s t"
      "ready_list t = ready_list s @ [i]" "signaled t = signaled s" "waiter_of t = (waiter_of s)(g := None)"
      "st_of t = (st_of s)(i := Ready)" "locals_kept (flag_parked s) s t" "events t = events s"
      "flag_world.more t = flag_world.more s" "pending t = pending s" "wake_created t = wake_created s"
      "wake_given t = wake_given s" "max_tasks t = max_tasks s"
      by (rule wake_flag [OF a(1) rep at(2)])
    have e: "prev' = prev" "nxt = (if xs = [] then None else Some (hd xs))" "s' = t" using c t(1) True by auto
    note r = flag_rep_armed [OF t(4)]
    have at': "scan_at t pre xs prev' nxt" using at(2) by (simp add: scan_at_def e r(1))
    show ?thesis unfolding e(3)
    proof (rule signals_okI [OF t(3) r(2), of _ xs])
      show "at_pc (Scanning w prev' nxt) t xs" using at' by auto
      fix f assume "f \<in> set (armed t)" "signaled t f" "f \<notin> set xs"
      then have "signal_noted (Resolving w prev g wake) n s f" using a(4) r(1) at(1) t(7) by auto
      then show "signal_noted (Scanning w prev' nxt) n t f" by (rule noted) (fact t(13,15))+
    qed (use a(5) t(14) in auto)
  qed
qed

lemma poll_ok:
  assumes ok: "signals_ok (Polling w, n, s)"
  shows "take_pending s = (False, s') \<Longrightarrow> signals_ok (Tasks w, n, s')"
    "take_pending s = (True, s') \<Longrightarrow> signals_ok (Scanning w None (armed_head s'), n, s')"
proof -
  obtain xs where a: "sched_inv s" "flags_ok s" "at_pc (Polling w) s xs"
      "\<forall>f. f \<in> set (armed s) \<longrightarrow> signaled s f \<longrightarrow> f \<notin> set xs \<longrightarrow> signal_noted (Polling w) n s f"
      "may_wait (Polling w) \<or> Polling w = Polling True \<longrightarrow> wake_created s"
    by (rule signals_okE [OF ok])
  {
    assume "take_pending s = (False, s')"
    then have "s' = s" "\<not> pending s" by (auto simp: take_pending_def split: if_splits)
    then show "signals_ok (Tasks w, n, s')"
      by (intro signals_okI [of s' _ "[]"]) (use a in \<open>auto simp: signal_noted_def\<close>)
  next
    assume "take_pending s = (True, s')"
    then have s': "s' = s\<lparr>pending := False\<rparr>" by (auto simp: take_pending_def split: if_splits)
    have k: "flags_ok s'" "armed s' = armed s" "sched_inv s' = sched_inv s"
      by (rule keep_armed [OF a(2)]; simp add: s')+
    have "armed_head s' = (if armed s = [] then None else Some (hd (armed s)))"
      using flag_repD(1) [OF flags_okD [OF a(2)]] by (cases "armed s") (auto simp: s')
    then have "scan_at s' [] (armed s) None (armed_head s')" by (simp add: scan_at_def k(2))
    then show "signals_ok (Scanning w None (armed_head s'), n, s')"
      by (intro signals_okI [of s' _ "armed s"]) (use a k s' in auto)
  }
qed

lemma wait_ok:
  assumes ok: "signals_ok (Tasks True, n, s)" and w: "wait_for_work has_external_waiters s = Some (deadline, external)"
  shows "signals_ok (Waiting (platform_wait_until mx hz (wake_created s) now deadline external), n, s)"
proof -
  obtain xs where a: "sched_inv s" "flags_ok s" "at_pc (Tasks True) s xs"
      "\<forall>f. f \<in> set (armed s) \<longrightarrow> signaled s f \<longrightarrow> f \<notin> set xs \<longrightarrow> signal_noted (Tasks True) n s f"
      "may_wait (Tasks True) \<or> Tasks True = Polling True \<longrightarrow> wake_created s"
    by (rule signals_okE [OF ok])
  have "external = (armed_head s \<noteq> None)" using w by (auto simp: wait_for_work_def has_external_waiters_def split: if_splits)
  moreover have "armed_head s = None \<longleftrightarrow> armed s = []"
    using flag_repD(1) [OF flags_okD [OF a(2)]] by (cases "armed s") auto
  ultimately have "armed s = []" if "platform_wait_until mx hz (wake_created s) now deadline external = Task_delay k" for k
    using that a(5) by (auto simp: platform_wait_until_def Let_def split: if_splits)
  then show ?thesis by (intro signals_okI [OF a(1,2), of _ "[]"]) (use a(3-5) in \<open>auto simp: signal_noted_def\<close>)
qed

text \<open>Leaving the wait or the pass, or starting a poll.\<close>

lemma idle_ok:
  assumes "signals_ok (p, n, s)" "at_pc p s [] \<and> (\<forall>xs. at_pc p s xs \<longrightarrow> xs = [])"
  shows "signals_ok (Idle, n, s\<lparr>wake_given := b\<rparr>)" "signals_ok (Idle, n, s)" "signals_ok (Polling False, n, s)"
    "signals_ok (Polling True, n, platform_prepare_scheduler_wait s)"
proof -
  obtain xs where a: "sched_inv s" "flags_ok s" "at_pc p s xs"
      "\<forall>f. f \<in> set (armed s) \<longrightarrow> signaled s f \<longrightarrow> f \<notin> set xs \<longrightarrow> signal_noted p n s f"
      "may_wait p \<or> p = Polling True \<longrightarrow> wake_created s"
    by (rule signals_okE [OF assms(1)])
  then have pd: "pending s" if "f \<in> set (armed s)" "signaled s f" for f
    using that assms(2) by (auto simp: signal_noted_def)
  have k: "flags_ok (s\<lparr>wake_given := b\<rparr>)" "armed (s\<lparr>wake_given := b\<rparr>) = armed s" "sched_inv (s\<lparr>wake_given := b\<rparr>) = sched_inv s"
    by (rule keep_armed [OF a(2)]; simp)+
  show "signals_ok (Idle, n, s\<lparr>wake_given := b\<rparr>)"
    by (intro signals_okI [of _ _ "[]"]) (use a k pd in \<open>auto simp: signal_noted_def\<close>)
  show "signals_ok (Idle, n, s)" "signals_ok (Polling False, n, s)"
    by (intro signals_okI [of _ _ "[]"]; use a pd in \<open>auto simp: signal_noted_def\<close>)+
  let ?s = "platform_prepare_scheduler_wait s"
  have v: "below_flags s ?s" "flags ?s = flags s" "armed_head ?s = armed_head s" "pending ?s = pending s" "wake_created ?s"
    by (simp_all add: platform_prepare_scheduler_wait_def)
  have k': "flags_ok ?s" "armed ?s = armed s" "sched_inv ?s = sched_inv s"
    by (rule keep_armed [OF a(2) v(1)]; simp add: v)+
  show "signals_ok (Polling True, n, ?s)"
    by (intro signals_okI [of _ _ "[]"]) (use a k' v pd in \<open>auto simp: signal_noted_def\<close>)
qed

lemma scanned_ok:
  assumes "signals_ok (Scanning w prev None, n, s)"
  shows "signals_ok (Tasks w, n, s)"
proof -
  obtain xs where a: "sched_inv s" "flags_ok s" "at_pc (Scanning w prev None) s xs"
      "\<forall>f. f \<in> set (armed s) \<longrightarrow> signaled s f \<longrightarrow> f \<notin> set xs \<longrightarrow> signal_noted (Scanning w prev None) n s f"
      "may_wait (Scanning w prev None) \<or> Scanning w prev None = Polling True \<longrightarrow> wake_created s"
    by (rule signals_okE [OF assms])
  then have "xs = []" by (cases xs) (auto simp: scan_at_def)
  then show ?thesis by (intro signals_okI [OF a(1,2), of _ "[]"]) (use a(4,5) in \<open>auto simp: signal_noted_def\<close>)
qed

lemma sys_step_ok: "sys_step mx hz m m' \<Longrightarrow> signals_ok m \<Longrightarrow> signals_ok m'"
proof (induction rule: sys_step.induct)
  case (ready f s s' w n)
  then show ?case using consume_ok [of w n s f True s'] by simp
next
  case (not_ready f s s' w n h)
  then show ?case using consume_ok [of w n s f False s' h] by simp
next
  case (signal f s newly s' p n)
  then show ?case by (intro signal_ok)
qed (auto intro: idle_ok poll_ok scanned_ok scan_ok resolve_ok park_ok clear_ok destroy_ok work_ok wait_ok signal_ok give_ok)

section \<open>Reachable states\<close>

inductive sys_reach :: "32 word \<Rightarrow> 64 word \<Rightarrow> 'a machine \<Rightarrow> bool" for port_max_delay tick_rate where
  boot: "sys_reach port_max_delay tick_rate (Idle, 0, s)" if "sched_inv s" "flags_ok s" "armed s = []"
| step: "sys_reach port_max_delay tick_rate m'"
    if "sys_reach port_max_delay tick_rate m" "sys_step port_max_delay tick_rate m m'"

lemma sys_reach_ok: "sys_reach mx hz m \<Longrightarrow> signals_ok m"
proof (induction rule: sys_reach.induct)
  case (boot s)
  then show ?case by (intro signals_okI [of s _ "[]"]) auto
next
  case (step m m')
  then show ?case using sys_step_ok by blast
qed

text \<open>C3. However \<open>set()\<close> calls from other contexts interleave with the
  scheduler: whenever the scheduler's thread sits in the platform wait while a flag with a
  waiter is signaled, it does not sit in the plain delay; the semaphore it waits for is given,
  or a \<open>set()\<close> that has left its critical section is about to give it, the take then ends the
  wait, and the pending marker makes the next poll scan the flags.\<close>

theorem no_lost_wakeup:
  assumes "sys_reach port_max_delay tick_rate (Waiting a, n, s)" and "f \<in> set (armed s)" and "signaled s f"
  shows "pending s \<and> (case a of
      Task_delay k \<Rightarrow> False
    | No_wait \<Rightarrow> sys_step port_max_delay tick_rate (Waiting a, n, s) (Idle, n, s)
    | Semaphore_take k \<Rightarrow>
        if wake_given s then sys_step port_max_delay tick_rate (Waiting a, n, s) (Idle, n, s\<lparr>wake_given := False\<rparr>)
        else \<exists>m. n = Suc m \<and> wake_given (platform_wake_scheduler s))"
proof -
  obtain xs where x: "at_pc (Waiting a) s xs"
      "\<forall>f. f \<in> set (armed s) \<longrightarrow> signaled s f \<longrightarrow> f \<notin> set xs \<longrightarrow> signal_noted (Waiting a) n s f"
      "may_wait (Waiting a) \<or> Waiting a = Polling True \<longrightarrow> wake_created s"
      "\<forall>k. Waiting a = Waiting (Task_delay k) \<longrightarrow> armed s = []"
    by (rule signals_okE [OF sys_reach_ok [OF assms(1)]])
  then have "pending s" "wake_given s \<or> 0 < n" "wake_created s" "\<forall>k. a \<noteq> Task_delay k"
    using assms(2,3) by (auto simp: signal_noted_def)
  then show ?thesis
    by (cases a) (auto intro: sys_step.no_wait sys_step.taken simp: platform_wake_scheduler_def gr0_conv_Suc)
qed

text \<open>The steps of one \<open>poll_external_signals\<close>, and of the other contexts meanwhile.\<close>

definition scanning :: "main_pc \<Rightarrow> bool" where
  "scanning p \<longleftrightarrow> (case p of Polling _ \<Rightarrow> True | Scanning _ _ _ \<Rightarrow> True | Resolving _ _ _ _ \<Rightarrow> True | _ \<Rightarrow> False)"

inductive poll_run :: "32 word \<Rightarrow> 64 word \<Rightarrow> 'a machine \<Rightarrow> 'a machine \<Rightarrow> bool" for port_max_delay tick_rate m where
  begin_run: "poll_run port_max_delay tick_rate m m"
| next_step: "poll_run port_max_delay tick_rate m m''"
    if "poll_run port_max_delay tick_rate m m'" "sys_step port_max_delay tick_rate m' m''"
      "scanning (fst m')" "fst m'' \<noteq> Idle"

text \<open>The flag \<open>f\<close> with waiter \<open>i\<close> is ahead of the scan, being resolved, or its task is ready.\<close>

definition ahead :: "nat \<Rightarrow> nat \<Rightarrow> nat list \<Rightarrow> 'a flag_world_scheme \<Rightarrow> bool" where
  "ahead f i xs s \<longleftrightarrow> f \<in> set xs \<and> signaled s f \<and> waiter_of s f = Some i"

definition will_wake :: "nat \<Rightarrow> nat \<Rightarrow> 'a machine \<Rightarrow> bool" where
  "will_wake f i m \<longleftrightarrow> (case m of (p, n, s) \<Rightarrow> signals_ok m \<and> i < max_tasks s \<and>
     (case p of
        Polling w \<Rightarrow> ahead f i (armed s) s
      | Scanning w prev g \<Rightarrow> (\<exists>pre xs. scan_at s pre xs prev g \<and> ahead f i xs s) \<or> st_of s i = Ready
      | Resolving w prev g wake \<Rightarrow> (g = f \<and> wake \<and> waiter_of s f = Some i) \<or>
          (\<exists>pre xs. scan_at s pre (g # xs) prev (Some g) \<and> ahead f i xs s) \<or> st_of s i = Ready
      | Tasks w \<Rightarrow> st_of s i = Ready
      | _ \<Rightarrow> False))"

lemma will_wake_pc:
  "will_wake f i (Idle, n, s) \<longleftrightarrow> False" "will_wake f i (Awaiting w g h, n, s) \<longleftrightarrow> False"
  "will_wake f i (Waiting a, n, s) \<longleftrightarrow> False"
  "will_wake f i (Polling w, n, s) \<longleftrightarrow> signals_ok (Polling w, n, s) \<and> i < max_tasks s \<and> ahead f i (armed s) s"
  "will_wake f i (Scanning w prev g', n, s) \<longleftrightarrow> signals_ok (Scanning w prev g', n, s) \<and> i < max_tasks s \<and>
     ((\<exists>pre xs. scan_at s pre xs prev g' \<and> ahead f i xs s) \<or> st_of s i = Ready)"
  "will_wake f i (Resolving w prev g wake, n, s) \<longleftrightarrow> signals_ok (Resolving w prev g wake, n, s) \<and> i < max_tasks s \<and>
     ((g = f \<and> wake \<and> waiter_of s f = Some i) \<or>
      (\<exists>pre xs. scan_at s pre (g # xs) prev (Some g) \<and> ahead f i xs s) \<or> st_of s i = Ready)"
  "will_wake f i (Tasks w, n, s) \<longleftrightarrow> signals_ok (Tasks w, n, s) \<and> i < max_tasks s \<and> st_of s i = Ready"
  by (simp_all add: will_wake_def)

lemma will_wake_external:
  assumes ww: "will_wake f i (p, n, s)" and ok: "signals_ok (p, n', s')"
    and v: "below_flags s s'" "armed_next_of s' = armed_next_of s" "waiter_of s' = waiter_of s" "armed_head s' = armed_head s"
    and sg: "\<And>g. signaled s g \<Longrightarrow> signaled s' g"
  shows "will_wake f i (p, n', s')"
proof -
  have "flags_ok s" using ww by (auto simp: will_wake_def elim: signals_okE)
  note k = keep_armed [OF this v]
  have a: "ahead f i xs s \<Longrightarrow> ahead f i xs s'" for xs using sg v(3) by (auto simp: ahead_def)
  have sc: "scan_at s pre xs prev g \<Longrightarrow> scan_at s' pre xs prev g" for pre xs prev g by (simp add: scan_at_def k(2))
  have st: "st_of s' = st_of s" "max_tasks s' = max_tasks s" using below_flagsD(1,2) [OF v(1)] by simp_all
  show ?thesis
    using ww ok k(2) v(3) by (cases p) (auto simp: will_wake_pc st intro: a sc)
qed

lemma will_wake_step:
  assumes step: "sys_step mx hz m m'" and ww: "will_wake f i m" and p: "scanning (fst m)" "fst m' \<noteq> Idle"
  shows "will_wake f i m'"
  using step ww p
proof (cases rule: sys_step.cases)
  case (not_pending s s' w n)
  have ok: "signals_ok (Polling w, n, s)" "ahead f i (armed s) s"
    using ww not_pending(1) by (simp_all add: will_wake_def)
  then have "pending s" by (auto simp: ahead_def signal_noted_def elim!: signals_okE)
  then show ?thesis using not_pending(3) by (simp add: take_pending_def)
next
  case (was_pending s s' w n)
  have ok: "signals_ok (Polling w, n, s)" "ahead f i (armed s) s"
    using ww was_pending(1) by (simp_all add: will_wake_def)
  have ok': "signals_ok (Scanning w None (armed_head s'), n, s')" by (rule poll_ok(2) [OF ok(1) was_pending(3)])
  have s': "s' = s\<lparr>pending := False\<rparr>" using was_pending(3) by (auto simp: take_pending_def split: if_splits)
  have i: "i < max_tasks s'" using ww was_pending(1) by (simp add: will_wake_def s')
  have fo: "flags_ok s" using ok(1) by (auto elim: signals_okE)
  have k: "flags_ok s'" "armed s' = armed s" by (rule keep_armed [OF fo]; simp add: s')+
  have "armed_head s' = (if armed s = [] then None else Some (hd (armed s)))"
    using flag_repD(1) [OF flags_okD [OF fo]] by (cases "armed s") (auto simp: s')
  then have "scan_at s' [] (armed s) None (armed_head s')" by (simp add: scan_at_def k(2))
  moreover have "ahead f i (armed s) s'" using ok(2) by (simp add: ahead_def s')
  ultimately show ?thesis using ok' i was_pending(2) by (auto simp: will_wake_def)
next
  case (scanned w prev n s)
  have "\<not> ahead f i xs s" if "scan_at s pre xs prev None" for pre xs
    using that by (cases xs) (auto simp: scan_at_def ahead_def)
  then have "st_of s i = Ready" using ww scanned(1) by (auto simp: will_wake_def)
  then show ?thesis using ww scanned scanned_ok [of w prev n s] by (simp add: will_wake_def)
next
  case (scan g s wake s' w prev n)
  have ok: "signals_ok (Scanning w prev (Some g), n, s)" using ww scan(1) by (simp add: will_wake_def)
  have ok': "signals_ok (Resolving w prev g wake, n, s')" by (rule scan_ok [OF ok scan(3)])
  have fo: "flags_ok s" using ok by (auto elim: signals_okE)
  have sv: "st_of s' = st_of s" "waiter_of s' = waiter_of s" "armed s' = armed s" "\<And>h. h \<noteq> g \<Longrightarrow> signaled s' h = signaled s h"
    "max_tasks s' = max_tasks s"
    using scan(3) keep_armed(2) [OF fo signal_views(5,1,2,4) [where f = g and b = False]]
      below_flagsD(1,2) [OF signal_views(5) [where f = g and b = False and s = s]]
    by (auto simp: take_signal_def split: if_splits)
  have i: "i < max_tasks s'" using ww scan(1) by (simp add: will_wake_def sv(5))
  consider (ready) "st_of s i = Ready" | (ah) pre xs where "scan_at s pre xs prev (Some g)" "ahead f i xs s"
    using ww scan(1) by (auto simp: will_wake_def)
  then show ?thesis
  proof cases
    case ready
    then show ?thesis using ok' i scan(2) sv(1) by (simp add: will_wake_def)
  next
    case ah
    then obtain ys where xs: "xs = g # ys" by (cases xs) (auto simp: scan_at_def)
    have at: "scan_at s' pre (g # ys) prev (Some g)" using ah(1) by (simp add: scan_at_def xs sv(3))
    show ?thesis
    proof (cases "g = f")
      case True
      then have "wake" using ah(2) scan(3) by (auto simp: ahead_def take_signal_def split: if_splits)
      then show ?thesis using True ok' i scan(2) ah(2) sv(2) by (simp add: will_wake_def ahead_def)
    next
      case False
      then have "ahead f i ys s'" using ah(2) sv(2,4) by (simp add: ahead_def xs)
      then show ?thesis using ok' i scan(2) at by (auto simp: will_wake_def)
    qed
  qed
next
  case (resolve wake prev g s prev' nxt s' w n)
  have ok: "signals_ok (Resolving w prev g wake, n, s)" using ww resolve(1) by (simp add: will_wake_def)
  have ok': "signals_ok (Scanning w prev' nxt, n, s')" by (rule resolve_ok [OF ok resolve(3)])
  obtain pre0 xs0 where at0: "armed s = pre0 @ g # xs0" "prev = (if pre0 = [] then None else Some (last pre0))"
    and inv: "sched_inv s" "flags_ok s"
    by (rule signals_okE [OF ok]) (auto simp: scan_at_def)
  have rep: "flag_rep s (pre0 @ g # xs0)" using flags_okD [OF inv(2)] by (simp add: at0(1))
  have i: "i < max_tasks s" using ww resolve(1) by (simp add: will_wake_def)
  have dist: "distinct (pre0 @ g # xs0)" by (rule flag_repD(2) [OF rep])
  have uniq: "pre = pre0 \<and> xs = xs0" if "scan_at s pre (g # xs) prev (Some g)" for pre xs
    using that at0(1) dist append_Cons_eq_iff [of g pre xs pre0 xs0] by (auto simp: scan_at_def)
  show ?thesis
  proof (cases wake)
    case False
    have e: "prev' = Some g" "nxt = (if xs0 = [] then None else Some (hd xs0))" "s' = s"
      using resolve(3) False chain_next [OF flag_repD(1) [OF rep]] by (auto simp: resolve_flag_def Let_def)
    have at: "scan_at s (pre0 @ [g]) xs0 prev' nxt" using at0(1) by (simp add: scan_at_def e)
    have "ahead f i xs0 s \<or> st_of s i = Ready" using ww resolve(1) False uniq by (auto simp: will_wake_def)
    then show ?thesis using ok' i resolve(2) at unfolding e(3) by (auto simp: will_wake_def)
  next
    case True
    obtain j t where t: "resolve_flag True prev g s = (prev, if xs0 = [] then None else Some (hd xs0), t)"
      "waiter_of s g = Some j" "sched_inv t" "flag_rep t (pre0 @ xs0)" "quiet s t"
      "ready_list t = ready_list s @ [j]" "signaled t = signaled s" "waiter_of t = (waiter_of s)(g := None)"
      "st_of t = (st_of s)(j := Ready)" "locals_kept (flag_parked s) s t" "events t = events s"
      "flag_world.more t = flag_world.more s" "pending t = pending s" "wake_created t = wake_created s"
      "wake_given t = wake_given s" "max_tasks t = max_tasks s"
      by (rule wake_flag [OF inv(1) rep at0(2)])
    have e: "prev' = prev" "nxt = (if xs0 = [] then None else Some (hd xs0))" "s' = t" using resolve(3) t(1) True by auto
    have at: "scan_at t pre0 xs0 prev' nxt" using at0(2) flag_rep_armed(1) [OF t(4)] by (simp add: scan_at_def e)
    consider (this) "waiter_of s g = Some i" | (ah) "ahead f i xs0 s" | (ready) "st_of s i = Ready"
      using ww resolve(1) uniq by (auto simp: will_wake_def)
    then have "st_of t i = Ready \<or> ahead f i xs0 t"
    proof cases
      case ah
      then have "f \<noteq> g" using dist by (auto simp: ahead_def)
      then show ?thesis using ah t(7,8) by (simp add: ahead_def)
    qed (use t(2,9) in auto)
    then show ?thesis using ok' i resolve(2) at t(16) unfolding e(3) by (auto simp: will_wake_def)
  qed
next
  case (signal g s newly s' q n)
  have ok: "signals_ok (q, n, s)" using ww signal(1) by (simp add: will_wake_def)
  have s': "s' = (set_signaled g True s)\<lparr>pending := True\<rparr>" using signal(3) by (auto simp: flag_signal_def Let_def)
  show ?thesis unfolding signal(2)
    by (rule will_wake_external [where s = s and n = n, OF _ signal_ok [OF ok signal(3)]])
      (use ww signal(1) in \<open>auto simp: s' fun_eq_iff\<close>)
next
  case (give q n s)
  have ok: "signals_ok (q, Suc n, s)" using ww give(1) by (simp add: will_wake_def)
  show ?thesis unfolding give(2)
    by (rule will_wake_external [where s = s and n = "Suc n", OF _ give_ok [OF ok]])
      (use ww give(1) in \<open>auto simp: platform_wake_scheduler_def\<close>)
qed (auto simp: scanning_def in_tasks_def split: main_pc.splits)

lemma will_wake_run: "poll_run mx hz m m' \<Longrightarrow> will_wake f i m \<Longrightarrow> will_wake f i m'"
proof (induction rule: poll_run.induct)
  case (next_step m' m'')
  then show ?case using will_wake_step by blast
qed

text \<open>C12. If a flag with a waiter is signaled when \<open>poll()\<close> gets to the
  external signals, then, whatever other contexts do during the scan, the waiting task is ready
  when the scan is over: it runs in the same pass.\<close>

theorem signal_reaches_waiter:
  assumes "sys_reach port_max_delay tick_rate (Polling w, n, s)" and "signaled s f" and "waiter_of s f = Some i"
    and "poll_run port_max_delay tick_rate (Polling w, n, s) (Tasks w', n', s')"
  shows "st_of s' i = Ready \<and> i \<in> set (ready_list s')"
proof -
  have ok: "signals_ok (Polling w, n, s)" by (rule sys_reach_ok [OF assms(1)])
  then have "flags_ok s" by (auto elim: signals_okE)
  then have "f \<in> set (armed s)" using flag_repD(3) [OF flags_okD, of s f] assms(3) by simp
  moreover have "i < max_tasks s" using flag_repD(4) [OF flags_okD [OF \<open>flags_ok s\<close>] assms(3)] .
  ultimately have "will_wake f i (Polling w, n, s)" using ok assms(2,3) by (simp add: will_wake_def ahead_def)
  with assms(4) have "will_wake f i (Tasks w', n', s')" by (rule will_wake_run)
  then have "st_of s' i = Ready" "i < max_tasks s'" "sched_inv s'" by (auto simp: will_wake_def elim: signals_okE)
  then show ?thesis using ready_okD(4) [OF sched_invD(5), of s' i] by simp
qed

end
