(* ===== verification/Platform_Sync.thy ===== *)
theory Platform_Sync
  imports Thread_Safe_Flag
begin

text \<open>
  The critical sections of detail/platform_sync.h. The rest of the development takes the body of
  a critical section as one step; here the class \<open>CriticalSection\<close> is modelled with each of its
  backends, and shown to keep other contexts out for the whole body and to leave the
  interrupt state as it found it, however sections nest.
\<close>

section \<open>Backends\<close>

text \<open>The macros that select a backend. A generic Arduino target without override has none (\<open>#error\<close>).\<close>

record build =
  critical_section_override :: bool
  arch_rp2040 :: bool
  arch_esp32 :: bool
  arduino :: bool

datatype sync_backend = Sync_override | Sync_rp2040 | Sync_esp32 | Sync_host

definition sync_backend_of :: "build \<Rightarrow> sync_backend option" where
  "sync_backend_of b =
     (if critical_section_override b then Some Sync_override
      else if arch_rp2040 b then Some Sync_rp2040
      else if arch_esp32 b then Some Sync_esp32
      else if arduino b then None
      else Some Sync_host)"

text \<open>
  The primitives of the application and of the vendors act on a machine state \<open>'m\<close> that the
  program cannot touch otherwise. The portMUX of \<open>sa_flag_mux\<close> is part of it.
\<close>

record 'm sync_primitives =
  critical_section_enter :: "'m \<Rightarrow> 'm"
  critical_section_exit :: "'m \<Rightarrow> 'm"
  save_and_disable_interrupts :: "'m \<Rightarrow> 32 word \<times> 'm"
  restore_interrupts :: "32 word \<Rightarrow> 'm \<Rightarrow> 'm"
  port_enter_critical_safe :: "'m \<Rightarrow> 'm"
  port_exit_critical_safe :: "'m \<Rightarrow> 'm"

text \<open>Constructor and destructor; the object holds \<open>saved_\<close>, which only the RP2040 backend has.\<close>

definition cs_construct :: "sync_backend \<Rightarrow> 'm sync_primitives \<Rightarrow> 'm \<Rightarrow> 32 word option \<times> 'm" where
  "cs_construct b api m =
     (case b of
        Sync_override \<Rightarrow> (None, critical_section_enter api m)
      | Sync_rp2040 \<Rightarrow> (case save_and_disable_interrupts api m of (saved, m1) \<Rightarrow> (Some saved, m1))
      | Sync_esp32 \<Rightarrow> (None, port_enter_critical_safe api m)
      | Sync_host \<Rightarrow> (None, m))"

definition cs_destruct :: "sync_backend \<Rightarrow> 'm sync_primitives \<Rightarrow> 32 word option \<Rightarrow> 'm \<Rightarrow> 'm" where
  "cs_destruct b api cs m =
     (case b of
        Sync_override \<Rightarrow> critical_section_exit api m
      | Sync_rp2040 \<Rightarrow> (case cs of None \<Rightarrow> m | Some saved \<Rightarrow> restore_interrupts api saved m)
      | Sync_esp32 \<Rightarrow> port_exit_critical_safe api m
      | Sync_host \<Rightarrow> m)"

section \<open>Code with critical sections\<close>

text \<open>
  Accesses to shared data \<open>'d\<close>, some in the scope of a \<open>CriticalSection\<close> object; scopes may
  nest, e.g. when an interrupt handler that holds one calls \<open>set()\<close>. The run also records,
  for each access, whether other contexts were kept out.
\<close>

datatype 'd guarded = Access "'d \<Rightarrow> 'd" | Guarded "'d guarded list"

fun run_guarded where
  "run_guarded b api shut (Access f) (m, d, seen) = (m, f d, seen @ [shut m])"
| "run_guarded b api shut (Guarded xs) (m, d, seen) =
     (case cs_construct b api m of (cs, m1) \<Rightarrow>
        (case fold (run_guarded b api shut) xs (m1, d, seen) of (m2, d2, seen2) \<Rightarrow> (cs_destruct b api cs m2, d2, seen2)))"

text \<open>The accesses in program order.\<close>

fun accesses :: "'d guarded \<Rightarrow> ('d \<Rightarrow> 'd) list" where
  "accesses (Access f) = [f]"
| "accesses (Guarded xs) = concat (map accesses xs)"

text \<open>
  What is documented of the primitives. \<open>level m\<close> is 0 while other contexts may run. Saving
  disables, restoring brings back the level that was saved, whatever happened since; the
  spinlock and an override count their entries.
\<close>

definition documented :: "sync_backend \<Rightarrow> 'm sync_primitives \<Rightarrow> ('m \<Rightarrow> nat) \<Rightarrow> bool" where
  "documented b api level \<longleftrightarrow>
     (case b of
        Sync_override \<Rightarrow>
          (\<forall>m. level (critical_section_enter api m) = level m + 1 \<and> level (critical_section_exit api m) = level m - 1)
      | Sync_rp2040 \<Rightarrow>
          (\<forall>m saved m1. save_and_disable_interrupts api m = (saved, m1) \<longrightarrow>
             0 < level m1 \<and> (\<forall>m2. level (restore_interrupts api saved m2) = level m))
      | Sync_esp32 \<Rightarrow>
          (\<forall>m. level (port_enter_critical_safe api m) = level m + 1 \<and> level (port_exit_critical_safe api m) = level m - 1)
      | Sync_host \<Rightarrow> False)"

lemma construct_shuts:
  assumes "documented b api level" "cs_construct b api m = (cs, m1)"
  shows "0 < level m1" "level m2 = level m1 \<Longrightarrow> level (cs_destruct b api cs m2) = level m"
  using assms by (auto simp: documented_def cs_construct_def cs_destruct_def split: sync_backend.splits prod.splits)

text \<open>What a run does, and a run that starts with other contexts shut out.\<close>

definition excludes where
  "excludes b api level x m d seen \<longleftrightarrow>
     (case run_guarded b api (\<lambda>m. 0 < level m) x (m, d, seen) of (m', d', seen') \<Rightarrow>
        level m' = level m \<and> d' = fold (\<lambda>f. f) (accesses x) d \<and> seen' = seen @ replicate (length (accesses x)) True)"

lemma body_excludes:
  assumes "\<And>x m d seen. x \<in> set xs \<Longrightarrow> 0 < level m \<Longrightarrow> excludes b api level x m d seen" and "0 < level m"
    and "fold (run_guarded b api (\<lambda>m. 0 < level m)) xs (m, d, seen) = (m', d', seen')"
  shows "level m' = level m \<and> d' = fold (\<lambda>f. f) (concat (map accesses xs)) d \<and>
      seen' = seen @ replicate (length (concat (map accesses xs))) True"
  using assms
proof (induction xs arbitrary: m d seen)
  case (Cons x xs)
  obtain m1 d1 l1 where r: "run_guarded b api (\<lambda>m. 0 < level m) x (m, d, seen) = (m1, d1, l1)" by (rule prod_cases3)
  have x: "level m1 = level m" "d1 = fold (\<lambda>f. f) (accesses x) d" "l1 = seen @ replicate (length (accesses x)) True"
    using Cons.prems(1) [of x m d seen] Cons.prems(2) r by (simp_all add: excludes_def)
  have "0 < level m1" using x(1) Cons.prems(2) by simp
  with Cons.IH [of m1 d1 l1] Cons.prems(1,3) r x show ?case by (simp add: replicate_add)
qed simp

lemma section_excludes:
  assumes "documented b api level" and "\<And>x m d seen. x \<in> set xs \<Longrightarrow> 0 < level m \<Longrightarrow> excludes b api level x m d seen"
  shows "excludes b api level (Guarded xs) m d seen"
proof -
  obtain cs m1 where c: "cs_construct b api m = (cs, m1)" by fastforce
  obtain m2 d2 l2 where r: "fold (run_guarded b api (\<lambda>m. 0 < level m)) xs (m1, d, seen) = (m2, d2, l2)" by (rule prod_cases3)
  show ?thesis
    using body_excludes [OF assms(2) construct_shuts(1) [OF assms(1) c] r] construct_shuts(2) [OF assms(1) c] c r
    by (simp add: excludes_def)
qed

lemma nested_excludes:
  assumes "documented b api level" "0 < level m"
  shows "excludes b api level x m d seen"
  using assms(2)
proof (induction x arbitrary: m d seen)
  case (Guarded xs)
  show ?case by (rule section_excludes [OF assms(1) Guarded.IH])
qed (simp add: excludes_def)

section \<open>Properties\<close>


text \<open>The critical section of \<open>ThreadSafeFlag::set\<close> is the step \<open>flag_signal\<close> of the model.\<close>

definition flag_signal_section :: "nat \<Rightarrow> 'a flag_world_scheme guarded" where
  "flag_signal_section f = Guarded [Access (set_signaled f True), Access (\<lambda>s. s\<lparr>pending := True\<rparr>)]"

lemma flag_signal_is_its_section:
  assumes "documented b api level"
  shows "case run_guarded b api (\<lambda>m. 0 < level m) (flag_signal_section f) (m, s, []) of (m', s', seen) \<Rightarrow>
      level m' = level m \<and> s' = snd (flag_signal f s) \<and> seen = [True, True]"
  using section_excludes [OF assms nested_excludes [OF assms],
      where xs = "[Access (set_signaled f True), Access (\<lambda>s. s\<lparr>pending := True\<rparr>)]" and m = m and d = s and seen = "[]"]
  by (simp add: excludes_def flag_signal_section_def flag_signal_def Let_def)

end
