(* ===== verification/Scenarios_Sync.thy ===== *)
theory Scenarios_Sync
  imports Scenarios_Objects Queue_Props Flag_Signals Platform_Sync
begin

text \<open>
  Concrete uses of the queues and the flags of the program of \<open>Scenarios_Objects\<close>: the running
  task of slot 0, whose frame is 100, uses queue 0 and flag 4.
\<close>

section \<open>A queue\<close>

abbreviation "w2 \<equiv> world_of st2"

lemma w2_run: "sched_inv w2" "current w2 = Some 0" "st_of w2 0 = Running" "handle_of w2 0 = Some 100"
  "ready_list w2 = []"
  by (simp_all add: st2_facts)

lemma w2_queues:
  "queues_ok w2" "contents (queues w2 q) = []" "send_list q w2 = []" "recv_list q w2 = []"
  "chan_of q w2 = \<lparr>ch_capacity = 2, ch_buffer = [], ch_senders = [], ch_receivers = []\<rparr>"
proof -
  have f: "queues w2 = (\<lambda>_. queue_init 2)" "\<And>a. \<not> sa_linked (senders w2 a)" "\<And>a. \<not> ra_linked (receivers w2 a)"
    "\<And>a. ra_storage (receivers w2 a) = None" "\<And>a. \<not> ra_has_result (receivers w2 a)"
    by (simp_all add: world_of_def)
  have l: "\<not> q_linked w2 x" for x by (cases x) (simp_all add: f)
  have p: "parked_ok w2" by (simp add: parked_ok_def l)
  have r: "results_ok w2" by (simp add: results_ok_def f)
  have "queue_rep d w2 [] [] []" for d
    using ring_rep_init [of 2] by (simp add: queue_rep_def f fifo_def) (simp add: queue_init_def)
  note q = queues_okI [where vs = "\<lambda>_. []" and as = "\<lambda>_. []" and rs = "\<lambda>_. []", OF p r this]
  show "queues_ok w2" "contents (queues w2 q) = []" "send_list q w2 = []" "recv_list q w2 = []" by (rule q)+
  then show "chan_of q w2 = \<lparr>ch_capacity = 2, ch_buffer = [], ch_senders = [], ch_receivers = []\<rparr>"
    by (simp add: chan_of_def) (simp add: f queue_init_def)
qed

theorem queue_refines_channel_witness:
  "fst (do_send 0 7 w2) \<and> ch_buffer (chan_of 0 (snd (do_send 0 7 w2))) = [7] \<and> fst (try_receive 0 w2) = None"
proof -
  have c: "chan_send 7 (chan_of 0 w2) = (Buffered, \<lparr>ch_capacity = 2, ch_buffer = [7], ch_senders = [], ch_receivers = []\<rparr>)"
    "chan_receive (chan_of 0 w2) = (None, chan_of 0 w2)"
    by (simp_all add: w2_queues chan_send_def chan_receive_def)
  obtain b s' out s'' where r: "do_send 0 7 w2 = (b, s')" "try_receive 0 w2 = (out, s'')" by fastforce
  show ?thesis using queue_refines_channel [OF w2_run(1) w2_queues(1), where q = 0 and v = 7] by (simp add: c r)
qed

theorem queue_waits_parked_witness:
  "\<exists>s'. receive_suspend 5 (Some 100) w2 = (True, s') \<and> ch_receivers (chan_of 0 s') = [5] \<and> queues_ok s' \<and>
    sched_inv s' \<and> st_of s' 0 = Waiting_local"
proof -
  have a: "\<not> ra_linked (receivers w2 5) \<and> \<not> ra_has_result (receivers w2 5) \<and> fst (receive_ready 5 w2) = False"
    "ra_queue (receivers w2 5) = 0"
    by (simp_all add: world_of_def receive_ready_def queue_init_def)
  from queue_waits_parked [OF w2_run(1) w2_queues(1) w2_run(2-4), of 0 5] a(1)
  obtain s' where "receive_suspend 5 (Some 100) w2 = (True, s')" "sched_inv s'" "queues_ok s'"
    "st_of s' = (st_of w2)(0 := Waiting_local)"
    "ch_receivers (chan_of (ra_queue (receivers w2 5)) s') = ch_receivers (chan_of (ra_queue (receivers w2 5)) w2) @ [5]"
    by blast
  then show ?thesis by (intro exI [of _ s']) (simp add: a(2) w2_queues)
qed

text \<open>The task of slot 0 waits to receive.\<close>

definition rw :: "nat q_world" where
  "rw = snd (receive_suspend 5 (Some 100) w2)"

lemma rw_facts: "sched_inv rw" "queues_ok rw" "ch_receivers (chan_of 0 rw) = [5]"
  "ra_linked (receivers rw 5)" "ra_queue (receivers rw 5) = 0" "recv_list 0 rw = [5]"
proof -
  have a: "\<not> ra_linked (receivers w2 5)" "ra_queue (receivers w2 5) = 0" "\<not> ra_has_result (receivers w2 5)"
    by (simp_all add: world_of_def)
  obtain s' where s': "receive_suspend 5 (Some 100) w2 = (True, s')" "q_step w2 s'"
    "chan_of 0 s' = (chan_of 0 w2)\<lparr>ch_receivers := ch_receivers (chan_of 0 w2) @ [5]\<rparr>"
    by (rule recv_park [OF w2_run(1) w2_queues(1) w2_run(2-4) a w2_queues(3,2)])
  then show i: "sched_inv rw" "queues_ok rw" "ch_receivers (chan_of 0 rw) = [5]"
    by (simp_all add: rw_def q_step_def w2_queues)
  then show l: "recv_list 0 rw = [5]" by (simp add: chan_of_def)
  show "ra_linked (receivers rw 5)" "ra_queue (receivers rw 5) = 0"
    using queue_repD(5) [OF queues_okD(3) [OF i(2)], of 5 0] by (simp_all add: l)
qed

theorem parked_awaiter_destroyed_witness:
  "\<exists>s'. receive_destructor 5 rw = Some s' \<and> ch_receivers (chan_of 0 s') = [] \<and> queues_ok s'"
proof -
  from parked_awaiter_destroyed [OF rw_facts(1,2), of 0 5] rw_facts(4)
  obtain s' where "receive_destructor 5 rw = Some s'" "queues_ok s'"
    "chan_of (ra_queue (receivers rw 5)) s' = (chan_of (ra_queue (receivers rw 5)) rw)
      \<lparr>ch_receivers := filter (\<lambda>x. x \<noteq> 5) (ch_receivers (chan_of (ra_queue (receivers rw 5)) rw))\<rparr>"
    by blast
  then show ?thesis by (intro exI [of _ s']) (simp add: rw_facts)
qed


theorem ring_object_lifetimes_witness:
  "ring_rep (store_back 7 (queue_init 2 :: nat queue)) [7] \<and> tail_index (queue_init 2 :: nat queue) < 2"
  using ring_object_lifetimes [OF ring_rep_init [of 2], where v = "7 :: nat"] by (simp add: queue_init_def)

section \<open>A flag\<close>

lemma w2_flags: "flags_ok w2" "armed w2 = []" "waiter_of w2 f = None" "\<not> signaled w2 f" "\<not> flag_is_set f w2"
proof -
  have w: "waiter_of w2 g = None" "\<not> signaled w2 g" for g by (simp_all add: fl_waiters_def fl_signals_def flag_init_def)
  have "flag_rep w2 []" by (rule flag_repI) (use w in simp_all)
  from flag_rep_armed [OF this] show "flags_ok w2" "armed w2 = []" by simp_all
  show "waiter_of w2 f = None" "\<not> signaled w2 f" by (rule w)+
  show "\<not> flag_is_set f w2" by (simp add: flag_init_def flag_is_set_def)
qed

theorem flag_wait_contract_witness:
  "flag_consume 4 w2 = (False, w2) \<and>
   (\<exists>s'. flag_park 4 (Some 100) w2 = (True, s') \<and> waiter_of s' 4 = Some 0 \<and> armed s' = [4] \<and> flags_ok s') \<and>
   flag_park 4 (Some 999) w2 = (False, on_error Invalid_task w2)"
proof -
  have n: "\<not> flag_is_set 4 w2" by (rule w2_flags)
  have r: "current w2 = Some 0 \<and> st_of w2 0 = Running \<and> handle_of w2 0 = Some 100" using w2_run by simp
  have f: "\<nexists>i. current w2 = Some i \<and> st_of w2 i = Running \<and> handle_of w2 i = Some 999" using w2_run by simp
  from flag_wait_contract [OF w2_run(1) w2_flags(1), of 4 "Some 100"] n r
  have "flag_consume 4 w2 = (False, w2)"
    "\<exists>s'. flag_park 4 (Some 100) w2 = (True, s') \<and> waiter_of s' 4 = Some 0 \<and> armed s' = 4 # armed w2 \<and> flags_ok s'"
    using w2_flags(3) [of 4] by auto
  moreover from flag_wait_contract [OF w2_run(1) w2_flags(1), of 4 "Some 999"] f
  have "flag_park 4 (Some 999) w2 = (False, on_error Invalid_task w2)" by blast
  ultimately show ?thesis by (simp add: w2_flags)
qed

text \<open>The task of slot 0 waits for flag 4.\<close>

definition fw :: "nat q_world" where
  "fw = snd (flag_park 4 (Some 100) w2)"

lemma fw_facts: "flag_park 4 (Some 100) w2 = (True, fw)" "sched_inv fw" "flags_ok fw" "armed fw = [4]"
  "waiter_of fw 4 = Some 0" "ready_list fw = []" "signaled fw = signaled w2"
  "pending fw = pending w2" "flag_rep fw [4]"
proof -
  have rep: "flag_rep w2 []" using flags_okD [OF w2_flags(1)] by (simp add: w2_flags)
  obtain t where t: "flag_park 4 (Some 100) w2 = (True, t)" "sched_inv t" "flag_rep t [4]" "ready_list t = ready_list w2"
    "waiter_of t = (waiter_of w2)(4 := Some 0)" "signaled t = signaled w2" "pending t = pending w2"
    by (rule flag_park_inv [OF w2_run(1) rep w2_run(2-4) w2_flags(3) [of 4]]) (rule that; assumption)
  then have e: "fw = t" by (simp add: fw_def)
  show "flag_park 4 (Some 100) w2 = (True, fw)" "sched_inv fw" "waiter_of fw 4 = Some 0" "ready_list fw = []"
    "signaled fw = signaled w2" "pending fw = pending w2" "flag_rep fw [4]"
    using t w2_run(5) by (simp_all add: e)
  then show "flags_ok fw" "armed fw = [4]" using flag_rep_armed [OF t(3)] by (simp_all add: e)
qed

definition fs :: "nat q_world" where
  "fs = snd (flag_signal 4 fw)"

lemma fs_facts: "flag_signal 4 fw = (True, fs)" "sched_inv fs" "flags_ok fs" "armed fs = [4]" "waiter_of fs 4 = Some 0"
  "signaled fs 4" "ready_list fs = []" "pending fs"
proof -
  have e: "fs = (set_signaled 4 True fw)\<lparr>pending := True\<rparr>" by (simp add: fs_def flag_signal_def Let_def)
  have ns: "\<not> signaled fw 4" unfolding fw_facts(7) by (rule w2_flags)
  then show "flag_signal 4 fw = (True, fs)" by (simp add: e flag_signal_def Let_def)
  have k: "flags_ok fs" "armed fs = armed fw" "sched_inv fs = sched_inv fw" by (rule keep_armed [OF fw_facts(3)]; simp add: e fun_eq_iff)+
  then show "sched_inv fs" "flags_ok fs" "armed fs = [4]" using fw_facts by simp_all
  show "waiter_of fs 4 = Some 0" "signaled fs 4" "pending fs" by (simp_all add: e fw_facts)
  have "below_flags fw fs" by (simp add: e)
  from below_flagsD(3) [OF this] show "ready_list fs = []" using fw_facts(6) by simp
qed

theorem flag_resolution_witness:
  "\<exists>s'. poll_external_signals fs = Some s' \<and> ready_list s' = [0] \<and> armed s' = [] \<and> \<not> signaled s' 4"
proof -
  from flag_resolution [OF fs_facts(2,3)] obtain s' where "poll_external_signals fs = Some s'"
    "ready_list s' = ready_list fs @ map (\<lambda>f. the (waiter_of fs f)) (filter (signaled fs) (armed fs))"
    "armed s' = filter (\<lambda>f. \<not> signaled fs f) (armed fs)"
    "\<forall>f. signaled s' f = (signaled fs f \<and> f \<notin> set (armed fs))"
    using fs_facts(8) by auto
  then show ?thesis by (intro exI [of _ s']) (simp add: fs_facts)
qed

section \<open>A signal between the park and the wait\<close>

text \<open>The flag is set by another context when the scheduler already waits.\<close>

lemma waiting_reached:
  "\<exists>a s. sys_reach (- 1) 1000 (Waiting a, 1, s :: nat q_world) \<and> 4 \<in> set (armed s) \<and> signaled s 4"
proof -
  let ?p = "platform_prepare_scheduler_wait w2"
  have v: "below_flags w2 ?p" "flags ?p = flags w2" "armed_head ?p = armed_head w2" "pending ?p = pending w2"
    by (simp_all add: platform_prepare_scheduler_wait_def)
  have k: "flags_ok ?p" "armed ?p = armed w2" "sched_inv ?p = sched_inv w2"
    by (rule keep_armed [OF w2_flags(1) v(1)]; simp add: v)+
  have inv: "sched_inv ?p" using k(3) w2_run(1) by simp
  have run: "current ?p = Some 0" "st_of ?p 0 = Running" "handle_of ?p 0 = Some 100"
    using w2_run below_flagsD(1,6) [OF v(1)] by simp_all
  have rep: "flag_rep ?p []" using flags_okD [OF k(1)] k(2) w2_flags(2) by simp
  have wn: "waiter_of ?p 4 = None" using w2_flags(3) [of 4] by (simp only: fl_waiters_def v(2))
  obtain t where t: "flag_park 4 (Some 100) ?p = (True, t)" "flag_rep t [4]" "ready_list t = ready_list ?p" "sched_inv t"
    "signaled t = signaled ?p"
    by (rule flag_park_inv [OF inv rep run wn]) (rule that; assumption)
  have "sys_reach (- 1) 1000 (Idle, 0, w2)" by (rule sys_reach.boot [OF w2_run(1) w2_flags(1,2)])
  from sys_reach.step [OF this sys_step.poll_and_wait]
  have "sys_reach (- 1) 1000 (Polling True, 0, ?p)" .
  from sys_reach.step [OF this sys_step.not_pending]
  have "sys_reach (- 1) 1000 (Tasks True, 0, ?p)" by (simp add: take_pending_def v(4))
  have nr: "flag_consume 4 ?p = (False, ?p)"
    using w2_flags(5) [of 4] unfolding flag_is_set_def flag_consume_def v(2) by (rule if_not_P)
  from sys_reach.step [OF \<open>sys_reach (- 1) 1000 (Tasks True, 0, ?p)\<close> sys_step.not_ready [OF nr]]
  have "sys_reach (- 1) 1000 (Awaiting True 4 (Some 100), 0, ?p)" .
  from sys_reach.step [OF this sys_step.suspend [OF t(1)]]
  have "sys_reach (- 1) 1000 (Tasks True, 0, t)" .
  moreover have "ready_count t = 0"
    using ready_okD(2) [OF sched_invD(5) [OF t(4)]] t(3) below_flagsD(3) [OF v(1)] w2_run(5) by simp
  then have "wait_for_work has_external_waiters t = Some (nearest_deadline t, has_external_waiters t)"
    by (simp add: wait_for_work_def)
  ultimately obtain a where "sys_reach (- 1) 1000 (Waiting a, 0, t)"
    using sys_reach.step sys_step.wait by blast
  moreover obtain newly u where u: "flag_signal 4 t = (newly, u)" by fastforce
  ultimately have r: "sys_reach (- 1) 1000 (Waiting a, if newly then 0 + 1 else 0, u)"
    using sys_reach.step sys_step.signal by blast
  have nw: "\<not> signaled t 4" using w2_flags(4) [of 4] unfolding t(5) fl_signals_def v(2) .
  then have "newly" using u by (simp add: flag_signal_def Let_def)
  moreover have "u = (set_signaled 4 True t)\<lparr>pending := True\<rparr>" using u by (simp add: flag_signal_def Let_def)
  then have "armed u = armed t" "signaled u 4"
    using keep_armed(2) [OF flag_rep_armed(2) [OF t(2)], of u] by (simp_all add: fun_eq_iff)
  ultimately have "sys_reach (- 1) 1000 (Waiting a, 1, u) \<and> 4 \<in> set (armed u) \<and> signaled u 4"
    using r flag_rep_armed(1) [OF t(2)] by simp
  then show ?thesis by blast
qed

theorem no_lost_wakeup_witness:
  "\<exists>a s. sys_reach (- 1) 1000 (Waiting a, 1, s :: nat q_world) \<and> signaled s 4 \<and> pending s"
  using waiting_reached no_lost_wakeup by blast

text \<open>The flag is set between two polls; the next one finds the waiter.\<close>

lemma scan_reached:
  "\<exists>s'. poll_run (- 1) 1000 (Polling False, 1, fs) (Tasks False, 1, s')"
proof -
  let ?s = "fs\<lparr>pending := False\<rparr>"
  obtain wake s1 where t: "take_signal 4 ?s = (wake, s1)" by fastforce
  obtain prev nxt s2 where r: "resolve_flag wake None 4 s1 = (prev, nxt, s2)" by (metis surj_pair)
  have rep: "flag_rep fs [4]" using flags_okD [OF fs_facts(3)] by (simp add: fs_facts)
  have h: "armed_head ?s = Some 4" "armed_next_of fs 4 = None" using flag_repD(1) [OF rep] by auto
  have "armed_next_of s1 4 = armed_next_of fs 4" using t by (auto simp: take_signal_def split: if_splits)
  then have n: "nxt = None" using r h(2) by (cases wake) (simp_all add: resolve_flag_def Let_def)
  let ?P = "poll_run (- 1) 1000 (Polling False, 1, fs)"
  have "?P (Polling False, 1, fs)" by (rule poll_run.begin_run)
  moreover have "sys_step (- 1) 1000 (Polling False, 1, fs) (Scanning False None (Some 4), 1, ?s)"
    using sys_step.was_pending [of fs ?s] fs_facts(8) h(1) by (simp add: take_pending_def)
  ultimately have "?P (Scanning False None (Some 4), 1, ?s)" by (rule poll_run.next_step) (simp_all add: scanning_def)
  from poll_run.next_step [OF this sys_step.scan [OF t]]
  have "?P (Resolving False None 4 wake, 1, s1)" by (simp add: scanning_def)
  from poll_run.next_step [OF this sys_step.resolve [OF r]]
  have "?P (Scanning False prev None, 1, s2)" by (simp add: scanning_def n)
  from poll_run.next_step [OF this sys_step.scanned] show ?thesis by (auto simp: scanning_def)
qed

lemma signaled_reached: "sys_reach (- 1) 1000 (Polling False, 1, fs)"
proof -
  have "sys_reach (- 1) 1000 (Idle, 0, w2)" by (rule sys_reach.boot [OF w2_run(1) w2_flags(1,2)])
  from sys_reach.step [OF this sys_step.poll] have "sys_reach (- 1) 1000 (Polling False, 0, w2)" .
  moreover have "take_pending w2 = (False, w2)" by (simp add: take_pending_def)
  ultimately have "sys_reach (- 1) 1000 (Tasks False, 0, w2)" using sys_reach.step sys_step.not_pending by blast
  moreover have "flag_consume 4 w2 = (False, w2)"
    using w2_flags(5) [of 4] unfolding flag_is_set_def flag_consume_def by (rule if_not_P)
  ultimately have "sys_reach (- 1) 1000 (Awaiting False 4 (Some 100), 0, w2)"
    using sys_reach.step sys_step.not_ready by blast
  from sys_reach.step [OF this sys_step.suspend [OF fw_facts(1)]] have "sys_reach (- 1) 1000 (Tasks False, 0, fw)" .
  then have "sys_reach (- 1) 1000 (Idle, 0, fw)" by (rule sys_reach.step) (simp add: sys_step.polled)
  from sys_reach.step [OF this sys_step.signal [OF fs_facts(1)]] have "sys_reach (- 1) 1000 (Idle, 1, fs)" by simp
  from sys_reach.step [OF this sys_step.poll] show ?thesis .
qed

theorem signal_reaches_waiter_witness:
  "\<exists>s'. poll_run (- 1) 1000 (Polling False, 1, fs) (Tasks False, 1, s') \<and> 0 \<in> set (ready_list s')"
  using scan_reached signal_reaches_waiter [OF signaled_reached fs_facts(6,5)] by blast

section \<open>Critical sections\<close>

text \<open>The RP2040 primitives on a machine that only has its interrupt-enable state.\<close>

definition primask :: "bool sync_primitives" where
  "primask = \<lparr>critical_section_enter = id, critical_section_exit = id,
     save_and_disable_interrupts = (\<lambda>on. (if on then 0 else 1, False)), restore_interrupts = (\<lambda>saved _. saved = 0),
     port_enter_critical_safe = id, port_exit_critical_safe = id\<rparr>"


end
