(* ===== verification/Scenarios_Programs.thy ===== *)
theory Scenarios_Programs
  imports Scenarios_Sync Programs
begin

text \<open>
  A program on the library at the concrete scheduler states of \<open>Scenarios\<close>: the properties of
  the pass, of polling, of handles and of teardown are applied to it.
\<close>

section \<open>The program\<close>

text \<open>
  A consumer that takes values from queue 0 for ever and sets event 3 after each, and a producer
  that sends one value and ends.
\<close>

primcorec consuming :: "bool \<Rightarrow> nat script" where
  "consuming taken =
     (if taken then Call (Set_event 3) (\<lambda>_. consuming False) else Co_await (On_receive 0) (\<lambda>_. consuming True))"

definition consumer :: "nat script" where
  "consumer = consuming False"

definition producer :: "nat script" where
  "producer = Co_await (On_send 0 42) (\<lambda>_. Co_return)"

definition new_board :: board where
  "new_board = \<lparr>statics = (\<lambda>_. 0), device_log = [], clock_reads = (\<lambda>_. 0), clock_count = 0, in_interrupt = False\<rparr>"

text \<open>The frame 100 of slot 0 is suspended at its start.\<close>

definition prog_of :: "nat script \<Rightarrow> sched \<Rightarrow> nat world" where
  "prog_of p s = q_world.extend (world_of s) \<lparr>frames = (\<lambda>_. None)(100 := Some (Initial p)), next_awaiter = 0,
       board = new_board\<rparr>"

lemma prog_of_fields [simp]:
  "hook_log (prog_of p s) = hook_log s" "max_tasks (prog_of p s) = max_tasks s" "slots (prog_of p s) = slots s"
  "ready_head (prog_of p s) = ready_head s" "ready_tail (prog_of p s) = ready_tail s"
  "ready_count (prog_of p s) = ready_count s" "active_count (prog_of p s) = active_count s"
  "peak_count (prog_of p s) = peak_count s" "current (prog_of p s) = current s"
  "nearest_deadline (prog_of p s) = nearest_deadline s" "shutting_down (prog_of p s) = shutting_down s"
  "in_poll (prog_of p s) = in_poll s" "now_us (prog_of p s) = now_us s" "tasks (prog_of p s) = tasks s"
  "frames (prog_of p s) = (\<lambda>_. None)(100 := Some (Initial p))" "next_awaiter (prog_of p s) = 0"
  by (simp_all add: prog_of_def q_world.extend_def world_of_def)

lemma prog_of_more [simp]:
  "ready_list (prog_of p s) = ready_list s" "sched_inv (prog_of p s) = sched_inv s" "idle (prog_of p s) = idle s"
proof -
  show r: "ready_list (prog_of p s) = ready_list s" by (simp add: ready_list_def)
  show "sched_inv (prog_of p s) = sched_inv s"
    using r by (simp add: sched_inv_def sched_base_def inv_defs ready_rep_def)
  show "idle (prog_of p s) = idle s" by (simp add: idle_def)
qed

lemma prog_of_fresh: "fresh_world (prog_of p s)"
  by (auto simp: fresh_world_def prog_of_def q_world.extend_def world_of_def event_init_def flag_init_def
      intro: exI [of _ 2])

abbreviation "pw \<equiv> prog_of producer st1"

lemma pw_rest: "at_rest program_ok pw" "outside program_ok pw" "ready_list pw = [0]"
  using st1_facts fresh_world_ok [OF prog_of_fresh] by (simp_all add: at_rest_def outside_def)

lemmas prog_coroutines = prog.coroutines_axioms [of host "None :: nat option"]

section \<open>Witnesses\<close>

theorem pass_runs_snapshot_witness:
  "run_pass (program host None) pw = run_turn (program host None) 0 pw \<and>
    at_rest program_ok (run_pass (program host None) pw)"
proof -
  note t = pass_runs_snapshot [OF prog_coroutines pw_rest(1), unfolded pw_rest(3)]
  have "run_pass (program host None) pw = fold (run_turn (program host None)) [0] pw" by (rule conjunct1 [OF t])
  moreover have "at_rest program_ok (run_pass (program host None) pw)" using t by blast
  ultimately show ?thesis by simp
qed

theorem poll_runs_ready_then_due_witness:
  "fst (run_poll_pass (program host None) resolve_signals 77 pw) \<and>
    now_us (poll (program host None) resolve_signals 77 pw) = 77"
  using poll_runs_ready_then_due [OF prog.poll_system_axioms [of host None] pw_rest(2), of 77] by auto


theorem library_calls_return_witness:
  "event_set 3 (prog_of consumer st0) \<noteq> None \<and> queue_destructor 0 (prog_of consumer st0) \<noteq> None"
proof -
  let ?s = "prog_of consumer st0"
  have "sched_inv ?s" "idle ?s" "\<not> in_poll ?s" "\<not> shutting_down ?s" using st0_facts by simp_all
  from library_calls_return [OF prog_of_fresh this rtranclp.rtrancl_refl] show ?thesis by blast
qed

text \<open>A body that returns at once: its task completes in its first turn.\<close>

abbreviation "rs \<equiv> prog_of Co_return st1"

lemma rs_done: "handle_done (program host None) (handle_of rs 0) (resumed (program host None) 0 rs)"
proof -
  have h: "handle_of (begin_run 0 rs) 0 = Some 100" by (simp add: st1_facts)
  have "sched.more (begin_run 0 rs) = sched.more rs" by simp
  then have f: "frames (begin_run 0 rs) = frames rs" using objects_of_more(3) world_of_more(1) by blast
  have "resume_frame host None 100 (begin_run 0 rs) = Some (set_frame 100 (Some Final) (begin_run 0 rs))"
    by (simp add: resume_frame_def f) (subst run_body.simps, simp)
  then show ?thesis
    by (simp add: resumed_def h handle_resume_def handle_done_def st1_facts program_def frame_done_def set_frame_def)
qed

theorem child_completion_wakes_parent_witness:
  "handle_of (run_turn (program host None) 0 rs) 0 = None \<and> gen_of (run_turn (program host None) 0 rs) 0 = 1 \<and>
    st_of (run_turn (program host None) 0 rs) 0 = Completed"
proof -
  have r: "at_rest program_ok rs" "ready_list rs = 0 # []" "parent_of rs 0 = None" "gen_of rs 0 = 1"
    using st1_facts fresh_world_ok [OF prog_of_fresh] by (simp_all add: at_rest_def)
  from child_completion_wakes_parent [OF prog_coroutines r(1,2) rs_done] r(3,4)
  show ?thesis by (simp add: Let_def)
qed

theorem handles_generation_checked_witness:
  "\<exists>s'. (main_step (program host None) resolve_signals)\<^sup>*\<^sup>* pw s' \<and>
    (\<not> th_valid s' (mk_task_handle 0 pw) \<longrightarrow> 1 < gen_of s' 0)"
proof -
  let ?h = "mk_task_handle 0 pw"
  have v: "th_valid pw ?h"
    by (simp add: th_valid_def mk_task_handle_def task_id_valid_def index_of_def st1_facts Let_def)
  let ?s' = "poll (program host None) resolve_signals 77 pw"
  have st: "(main_step (program host None) resolve_signals)\<^sup>*\<^sup>* pw ?s'" by (rule r_into_rtranclp [of "main_step _ _", OF main_step.poll])
  from handles_generation_checked [OF prog.main_system_axioms pw_rest(2) v st rtranclp.rtrancl_refl] st
  show ?thesis by (intro exI [of _ ?s']) (simp add: mk_task_handle_def index_of_def st1_facts)
qed

theorem teardown_destroys_once_witness:
  "sched_destructor (program host None) pw = destroy_frame host 100 (detach 0 (pw\<lparr>shutting_down := True\<rparr>)) \<and>
    handle_of (sched_destructor (program host None) pw) 0 = None"
proof -
  have f: "frame_ok pw" using sched_invD(7) [of pw] st1_facts by simp
  have o: "owned_frames pw = [(0, 100)]"
    by (simp add: owned_frames_def st1_facts upt_rec)
  note t = teardown_destroys_once [OF torn.teardown_axioms [of host None] f, unfolded o]
  have "sched_destructor (program host None) pw =
      co_destroy (program host None) 100 (detach 0 (pw\<lparr>shutting_down := True\<rparr>))"
    using conjunct1 [OF t] by simp
  moreover have "\<forall>i < max_tasks pw. handle_of (sched_destructor (program host None) pw) i = None" using t by blast
  then have "handle_of (sched_destructor (program host None) pw) 0 = None" by (simp add: st1_facts)
  moreover have "co_destroy (program host None) 100 (detach 0 (pw\<lparr>shutting_down := True\<rparr>)) =
      destroy_frame host 100 (detach 0 (pw\<lparr>shutting_down := True\<rparr>))" by (simp add: program_def)
  ultimately show ?thesis by (simp only: simp_thms)
qed

end
