(* ===== verification/Scenarios_Frames.thy ===== *)
theory Scenarios_Frames
  imports Program_Frames Scenarios_Programs
begin

text \<open>
  A program from its start: the pool is whole, nobody owns a frame, and the first coroutine
  function is called.
\<close>

definition boot :: "nat world" where
  "boot = (prog_of producer (sched_init host_pool 2))\<lparr>frames := (\<lambda>_. None)\<rparr>"

lemma boot_fields:
  "tasks boot = (\<lambda>_. None)" "frames boot = (\<lambda>_. None)" "fpool boot = host_pool" "max_tasks boot = 2"
  "handle_of boot i = None" "\<not> in_poll boot" "\<not> shutting_down boot"
  by (simp_all add: boot_def sched_init_def slot_init_def view_defs prog_of_def world_of_def q_world.extend_def)

lemma boot_facts:
  "fresh_world boot" "fresh_frames host boot" "sched_inv boot" "idle boot" "\<not> in_poll boot" "\<not> shutting_down boot"
proof -
  let ?s = "sched_init host_pool 2"
  have i: "sched_inv ?s" "idle ?s" using sched_init_inv [where pl = host_pool and n = 2] by simp_all
  show "fresh_world boot" using prog_of_fresh [of producer ?s] by (simp add: fresh_world_def boot_def)
  have "live host 0 whole = {}" by (simp add: whole_def mk_header_def)
  then have "arena_frames host host_pool {}" using wf_host host_pool_rep by (auto simp: arena_frames_def)
  then show "fresh_frames host boot" by (simp add: fresh_frames_def boot_fields)
  show "sched_inv boot" using i(1) unfolding boot_def by (subst sched_inv_more [of _ "prog_of producer ?s"]) simp_all
  show "idle boot" using i(2) by (simp add: boot_def idle_def)
qed (simp_all add: boot_fields)

text \<open>The coroutine function of \<open>producer\<close> is called, with a frame of 40 bytes.\<close>

theorem frames_owned_once_witness:
  "\<exists>s f. do_call host (New_task 40 7 producer) boot = Some (Unit, s) \<and> tasks s 7 = Some f \<and> frames s f \<noteq> None \<and>
    (\<exists>bs. pool_rep host (fpool s) bs \<and> fst ` live host 0 bs = {f. frames s f \<noteq> None}) \<and> handle_of s 0 \<noteq> Some f"
proof -
  obtain a p1 where a: "allocate host 40 16 host_pool = Some (Some a, p1)" using host_allocates by blast
  let ?s = "set_frame a (Some (Initial producer)) (set_task 7 (Some a) (boot\<lparr>fpool := p1\<rparr>))"
  have "coroutine_call host 40 7 boot = Some (set_task 7 (Some a) (boot\<lparr>fpool := p1\<rparr>))"
    by (simp add: coroutine_call_def frame_alloc_def host_consts boot_fields a)
  then have r: "do_call host (New_task 40 7 producer) boot = Some (Unit, ?s)"
    by (simp add: do_call_def task_bool_def boot_fields)
  have "(program_step host None)\<^sup>*\<^sup>* boot ?s" by (rule r_into_rtranclp, rule program_step.call [OF r])
  note t = frames_owned_once [OF boot_facts(1-6) this]
  have "\<exists>bs. pool_rep host (fpool ?s) bs \<and> fst ` live host 0 bs = {f. frames ?s f \<noteq> None}" using t by meson
  moreover have "tasks ?s 7 = Some a" "frames ?s a \<noteq> None" by (simp_all add: set_frame_def set_task_def)
  moreover have "handle_of ?s 0 = None" by (simp add: set_frame_def set_task_def boot_fields)
  ultimately show ?thesis using r by (intro exI [of _ ?s] exI [of _ a]) simp
qed

end
