(* ===== verification/Sketch_Base.thy ===== *)
theory Sketch_Base
  imports Program_Frames
begin

text \<open>
  How the sketches of \<open>src/examples\<close> and \<open>src/extras/hardware\<close> are written as programs. A
  coroutine is a table with one entry per point where it starts, resumes or branches: the calls
  it makes from there, in order, and how the stretch ends. Its locals are the arguments of the
  point. \<open>setup()\<close> and interrupt handlers are lists of calls; \<open>loop()\<close> polls.
\<close>

section \<open>Coroutines\<close>

datatype ('v, 'm) ending =
    is_Return: Return
  | is_Await: Await (awaited: "'v operand") (resumes_at: "'v answer \<Rightarrow> 'm")
  | is_Ask: Ask (asked: "('v, 'v script) call") (goes_on_at: "'v answer \<Rightarrow> 'm")

type_synonym ('v, 'm) stretch = "('v, 'v script) call list \<times> ('v, 'm) ending"

primcorec steps :: "('m \<Rightarrow> ('v, 'm) stretch) \<Rightarrow> ('v, 'v script) call list \<Rightarrow> ('v, 'm) ending \<Rightarrow> 'v script" where
  "steps at xs e =
     (case xs of
        x # ys \<Rightarrow> Call x (\<lambda>_. steps at ys e)
      | [] \<Rightarrow>
          (case e of
             Return \<Rightarrow> Co_return
           | Await w k \<Rightarrow> Co_await w (\<lambda>r. steps at (fst (at (k r))) (snd (at (k r))))
           | Ask x k \<Rightarrow> Call x (\<lambda>r. steps at (fst (at (k r))) (snd (at (k r))))))"

definition body :: "('m \<Rightarrow> ('v, 'm) stretch) \<Rightarrow> 'm \<Rightarrow> 'v script" where
  "body at m = steps at (fst (at m)) (snd (at m))"

lemma steps_simps:
  "steps at (x # ys) e = Call x (\<lambda>_. steps at ys e)"
  "steps at [] Return = Co_return"
  "steps at [] (Await w k) = Co_await w (\<lambda>r. body at (k r))"
  "steps at [] (Ask x k) = Call x (\<lambda>r. body at (k r))"
  by (subst steps.code, simp add: body_def)+

text \<open>Values of answers; \<open>unsigned long\<close> and \<open>uint32_t\<close> have 32 bits on the targets.\<close>

fun number :: "'v answer \<Rightarrow> int" where
  "number (From_board (Value n)) = n"
| "number _ = 0"

fun truth :: "'v answer \<Rightarrow> bool" where
  "truth (Truth b) = b"
| "truth (From_board (Flag b)) = b"
| "truth _ = False"

fun payload :: "'v :: zero answer \<Rightarrow> 'v" where
  "payload (Payload (Some v)) = v"
| "payload _ = 0"

definition u32 :: "int \<Rightarrow> int" where
  "u32 n = n mod 2 ^ 32"

definition s32 :: "int \<Rightarrow> int" where
  "s32 n = (n + 2 ^ 31) mod 2 ^ 32 - 2 ^ 31"

definition u64 :: "int \<Rightarrow> int" where
  "u64 n = n mod 2 ^ 64"

abbreviation "load v \<equiv> Board (Load v)"
abbreviation "store v n \<equiv> Board (Store v n)"
abbreviation "dev d \<equiv> Board (Device d)"

text \<open>\<open>spawn(f(...))\<close>: the argument is a temporary, destroyed after the call.\<close>

definition spawned :: "nat \<Rightarrow> nat \<Rightarrow> 'v script \<Rightarrow> ('v, 'v script) call list" where
  "spawned sz t p = [New_task sz t p, Spawn_task t, Drop_task t]"

section \<open>Runs\<close>

fun run_calls :: "target \<Rightarrow> ('v, 'v script) call list \<Rightarrow> ('v, 'a) world_scheme \<Rightarrow> ('v, 'a) world_scheme option" where
  "run_calls c [] s = Some s"
| "run_calls c (x # xs) s = (case do_call c x s of None \<Rightarrow> None | Some (_, s1) \<Rightarrow> run_calls c xs s1)"

text \<open>
  The static variables of the sketch have their initial values. After \<open>setup()\<close> the Arduino core
  calls \<open>loop()\<close> for ever, here \<open>poll()\<close> with the clock value it reads; between two calls the
  interrupt handler may run.
\<close>

record 'v sketch =
  static_values :: "nat \<Rightarrow> int"
  setup_code :: "('v, 'v script) call list"
  interrupt_code :: "('v, 'v script) call list"

datatype happening = Loop tick_t | Interrupt

fun sketch_loop ::
    "target \<Rightarrow> 'v option \<Rightarrow> 'v sketch \<Rightarrow> happening list \<Rightarrow> ('v, 'a) world_scheme \<Rightarrow> ('v, 'a) world_scheme option" where
  "sketch_loop c fallback sk [] s = Some s"
| "sketch_loop c fallback sk (Loop clock # hs) s =
     sketch_loop c fallback sk hs (poll (program c fallback) resolve_signals clock s)"
| "sketch_loop c fallback sk (Interrupt # hs) s =
     (case run_calls c (interrupt_code sk) s of None \<Rightarrow> None | Some s1 \<Rightarrow> sketch_loop c fallback sk hs s1)"

definition sketch_run ::
    "target \<Rightarrow> 'v option \<Rightarrow> 'v sketch \<Rightarrow> happening list \<Rightarrow> ('v, 'a) world_scheme \<Rightarrow> ('v, 'a) world_scheme option" where
  "sketch_run c fallback sk hs s =
     (case run_calls c (setup_code sk) (s\<lparr>board := (board s)\<lparr>statics := static_values sk\<rparr>\<rparr>) of
        None \<Rightarrow> None
      | Some s1 \<Rightarrow> sketch_loop c fallback sk hs s1)"

end
