(* ===== verification/Sketch_Examples.thy ===== *)
theory Sketch_Examples
  imports Sketch_Base
begin

text \<open>
  The examples of \<open>src/examples\<close>. \<open>sz\<close> gives the frame size of each coroutine function of a
  sketch, in the order of the file. Queue, event and flag 0 are the sketch's only ones; its static variables
  are numbered in the order of the file. The payload of the queues is \<open>int\<close>, 32 bits wide.
\<close>

type_synonym payload = "32 word"

abbreviation "ms n \<equiv> On_delay (delay_ms n)"

text \<open>The fallback of the sketches that draw their own LED pin.\<close>

definition led_builtin :: "nat option \<Rightarrow> nat" where
  "led_builtin macro = (case macro of None \<Rightarrow> 2 | Some pin \<Rightarrow> pin)"

section \<open>01_Blink\<close>

datatype blink = Blink_begin | Blink_on | Blink_off

fun blink_at :: "nat \<Rightarrow> blink \<Rightarrow> (payload, blink) stretch" where
  "blink_at pin Blink_begin = ([dev (Output_pin pin), dev (Digital_write pin True)], Await (ms 500) (\<lambda>_. Blink_on))"
| "blink_at pin Blink_on = ([dev (Digital_write pin False)], Await (ms 500) (\<lambda>_. Blink_off))"
| "blink_at pin Blink_off = ([dev (Digital_write pin True)], Await (ms 500) (\<lambda>_. Blink_on))"

definition blink_sketch :: "(nat \<Rightarrow> nat) \<Rightarrow> nat option \<Rightarrow> payload sketch" where
  "blink_sketch sz led = \<lparr>static_values = (\<lambda>_. 0),
     setup_code = spawned (sz 0) 0 (body (blink_at (led_builtin led)) Blink_begin), interrupt_code = []\<rparr>"

section \<open>02_TwoTasks\<close>

datatype worker = Worker_begin | Worker_asked bool

fun worker_at :: "int \<Rightarrow> worker \<Rightarrow> (payload, worker) stretch" where
  "worker_at i Worker_begin = ([], Ask Is_current_valid (\<lambda>r. Worker_asked (truth r)))"
| "worker_at i (Worker_asked scheduled) =
     ([dev (Print ''worker ''), dev (Print_int i),
       dev (Print (if scheduled then '' running under scheduler'' else '' (unscheduled?)'')), dev (Println '''')], Return)"

text \<open>\<open>setup()\<close> also stores the handle \<open>g_first\<close>; \<open>loop()\<close> has the static variable \<open>reported\<close>.\<close>

definition two_tasks_setup ::
    "target \<Rightarrow> (nat \<Rightarrow> nat) \<Rightarrow> (payload, 'a) world_scheme \<Rightarrow> (task_handle \<times> (payload, 'a) world_scheme) option" where
  "two_tasks_setup c sz s =
     (case run_calls c [dev (Serial_begin 115200), New_task (sz 0) 0 (body (worker_at 1) Worker_begin)] s of
        None \<Rightarrow> None
      | Some s1 \<Rightarrow>
          (case create_task 0 s1 of (first, s2) \<Rightarrow>
             (case run_calls c (Drop_task 0 # spawned (sz 0) 1 (body (worker_at 2) Worker_begin)) s2 of
                None \<Rightarrow> None
              | Some s3 \<Rightarrow>
                  if \<not> th_valid s3 (current_task s3)
                  then map_option (Pair first) (run_calls c [dev (Println ''setup: no current task (expected)'')] s3)
                  else Some (first, s3))))"

definition two_tasks_loop ::
    "target \<Rightarrow> tick_t \<Rightarrow> task_handle \<Rightarrow> bool \<Rightarrow> (payload, 'a) world_scheme \<Rightarrow> (bool \<times> (payload, 'a) world_scheme) option" where
  "two_tasks_loop c clock first reported s =
     (let s1 = poll (program c (Some 0)) resolve_signals clock s
      in if \<not> reported \<and> th_done s1 first
         then map_option (Pair True) (run_calls c [dev (Println ''worker 1 completed'')] s1)
         else Some (reported, s1))"

section \<open>03_YieldFairness\<close>

text \<open>Static variables: \<open>g_a\<close> is 0, \<open>g_b\<close> is 1; the pointer argument of \<open>counter\<close> is the number.\<close>

datatype counter = Counter_step | Counter_read int

fun counter_at :: "nat \<Rightarrow> counter \<Rightarrow> (payload, counter) stretch" where
  "counter_at ticks Counter_step = ([], Ask (load ticks) (\<lambda>r. Counter_read (number r)))"
| "counter_at ticks (Counter_read n) = ([store ticks (u32 (n + 1))], Await On_yield (\<lambda>_. Counter_step))"

datatype reporter = Reporter_begin | Reporter_woken | Reporter_a int | Reporter_b int int

fun reporter_at :: "reporter \<Rightarrow> (payload, reporter) stretch" where
  "reporter_at Reporter_begin = ([], Await (ms 1000) (\<lambda>_. Reporter_woken))"
| "reporter_at Reporter_woken = ([dev (Print ''A='')], Ask (load 0) (\<lambda>r. Reporter_a (number r)))"
| "reporter_at (Reporter_a a) = ([dev (Print_int a), dev (Print '' B='')], Ask (load 1) (\<lambda>r. Reporter_b a (number r)))"
| "reporter_at (Reporter_b a b) =
     ([dev (Print_int b), dev (Print '' (skew=''), dev (Print_int (s32 (s32 a - s32 b))), dev (Println '')'')],
      Await (ms 1000) (\<lambda>_. Reporter_woken))"

definition yield_fairness_sketch :: "(nat \<Rightarrow> nat) \<Rightarrow> payload sketch" where
  "yield_fairness_sketch sz = \<lparr>static_values = (\<lambda>_. 0),
     setup_code = dev (Serial_begin 115200) # spawned (sz 0) 0 (body (counter_at 0) Counter_step) @
       spawned (sz 0) 1 (body (counter_at 1) Counter_step) @ spawned (sz 1) 2 (body reporter_at Reporter_begin),
     interrupt_code = []\<rparr>"

section \<open>04_ParentChild\<close>

datatype step = Step_begin | Step_end

fun step_at :: "int \<Rightarrow> step \<Rightarrow> (payload, step) stretch" where
  "step_at n Step_begin =
     ([dev (Print ''  step ''), dev (Print_int n), dev (Println '' begin'')], Await (ms 200) (\<lambda>_. Step_end))"
| "step_at n Step_end = ([dev (Print ''  step ''), dev (Print_int n), dev (Println '' end'')], Return)"

text \<open>The temporary \<open>Task\<close> of \<open>co_await step(n)\<close> is object \<open>10 + n\<close>; it is destroyed after the \<open>co_await\<close>.\<close>

datatype sequence = Sequence_begin | Sequence_step nat | Sequence_end

fun sequence_at :: "nat \<Rightarrow> sequence \<Rightarrow> (payload, sequence) stretch" where
  "sequence_at sz Sequence_begin =
     ([dev (Println ''sequence begin''), New_task sz 11 (body (step_at 1) Step_begin)],
      Await (On_task 11) (\<lambda>_. Sequence_step 1))"
| "sequence_at sz (Sequence_step n) =
     (if n < 3
      then ([Drop_task (10 + n), New_task sz (11 + n) (body (step_at (int n + 1)) Step_begin)],
            Await (On_task (11 + n)) (\<lambda>_. Sequence_step (n + 1)))
      else ([Drop_task (10 + n), dev (Println ''sequence end'')], Await (ms 1000) (\<lambda>_. Sequence_end)))"
| "sequence_at sz Sequence_end =
     ([dev (Println ''sequence begin''), New_task sz 11 (body (step_at 1) Step_begin)],
      Await (On_task 11) (\<lambda>_. Sequence_step 1))"

datatype led = Led_on | Led_off

fun heartbeat_led_at :: "nat \<Rightarrow> led \<Rightarrow> (payload, led) stretch" where
  "heartbeat_led_at pin Led_on = ([dev (Digital_write pin True)], Await (ms 100) (\<lambda>_. Led_off))"
| "heartbeat_led_at pin Led_off = ([dev (Digital_write pin False)], Await (ms 100) (\<lambda>_. Led_on))"

definition parent_child_sketch :: "(nat \<Rightarrow> nat) \<Rightarrow> nat option \<Rightarrow> payload sketch" where
  "parent_child_sketch sz led = \<lparr>static_values = (\<lambda>_. 0),
     setup_code = [dev (Serial_begin 115200), dev (Output_pin (led_builtin led))] @
       spawned (sz 1) 0 (body (sequence_at (sz 0)) Sequence_begin) @
       spawned (sz 2) 1 (body (heartbeat_led_at (led_builtin led)) Led_on),
     interrupt_code = []\<rparr>"

section \<open>05_Event\<close>

datatype runner = Runner_begin | Runner_released

fun runner_at :: "int \<Rightarrow> runner \<Rightarrow> (payload, runner) stretch" where
  "runner_at i Runner_begin = ([], Await (On_event 0) (\<lambda>_. Runner_released))"
| "runner_at i Runner_released = ([dev (Print ''runner ''), dev (Print_int i), dev (Println '' GO'')], Return)"

datatype starter = Starter_begin | Starter_marks | Starter_go

fun starter_at :: "starter \<Rightarrow> (payload, starter) stretch" where
  "starter_at Starter_begin = ([], Await (ms 1000) (\<lambda>_. Starter_marks))"
| "starter_at Starter_marks = ([dev (Println ''On your marks...'')], Await (ms 1000) (\<lambda>_. Starter_go))"
| "starter_at Starter_go = ([dev (Println ''Get set... GO!''), Set_event 0], Return)"

definition event_sketch :: "(nat \<Rightarrow> nat) \<Rightarrow> payload sketch" where
  "event_sketch sz = \<lparr>static_values = (\<lambda>_. 0),
     setup_code = dev (Serial_begin 115200) # spawned (sz 0) 0 (body (runner_at 1) Runner_begin) @
       spawned (sz 0) 1 (body (runner_at 2) Runner_begin) @ spawned (sz 0) 2 (body (runner_at 3) Runner_begin) @
       spawned (sz 1) 3 (body starter_at Starter_begin),
     interrupt_code = []\<rparr>"

section \<open>06_ThreadSafeFlagIRQ\<close>

datatype handler = Handler_wait int | Handler_woken int

fun handler_at :: "handler \<Rightarrow> (payload, handler) stretch" where
  "handler_at (Handler_wait count) = ([], Await (On_flag 0) (\<lambda>_. Handler_woken (u32 (count + 1))))"
| "handler_at (Handler_woken count) =
     ([dev (Print ''button interrupt #''), dev (Println_int count)],
      Await (On_flag 0) (\<lambda>_. Handler_woken (u32 (count + 1))))"

definition on_button_isr :: "(payload, payload script) call list" where
  "on_button_isr = [Set_flag 0]"

definition flag_irq_example :: "(nat \<Rightarrow> nat) \<Rightarrow> payload sketch" where
  "flag_irq_example sz = \<lparr>static_values = (\<lambda>_. 0),
     setup_code = [dev (Serial_begin 115200), dev (Input_pullup_pin 2), dev (Attach_interrupt 2)] @
       spawned (sz 0) 0 (body handler_at (Handler_wait 0)),
     interrupt_code = on_button_isr\<rparr>"

section \<open>07_QueueProducerConsumer\<close>

datatype sampler = Sampler_send payload | Sampler_sent payload

fun sampler_at :: "sampler \<Rightarrow> (payload, sampler) stretch" where
  "sampler_at (Sampler_send value) = ([], Await (On_send 0 value) (\<lambda>_. Sampler_sent value))"
| "sampler_at (Sampler_sent value) =
     ([dev (Print ''produced ''), dev (Println_int (sint value))], Await (ms 250) (\<lambda>_. Sampler_send (value + 1)))"

datatype drinker = Drinker_receive | Drinker_got payload

fun drinker_at :: "drinker \<Rightarrow> (payload, drinker) stretch" where
  "drinker_at Drinker_receive = ([], Await (On_receive 0) (\<lambda>r. Drinker_got (payload r)))"
| "drinker_at (Drinker_got value) =
     ([dev (Print ''            consumed ''), dev (Println_int (sint value))], Await (ms 1000) (\<lambda>_. Drinker_receive))"

definition samples_sketch :: "(nat \<Rightarrow> nat) \<Rightarrow> payload sketch" where
  "samples_sketch sz = \<lparr>static_values = (\<lambda>_. 0),
     setup_code = dev (Serial_begin 115200) # spawned (sz 0) 0 (body sampler_at (Sampler_send 0)) @
       spawned (sz 1) 1 (body drinker_at Drinker_receive),
     interrupt_code = []\<rparr>"

section \<open>08_WaitUntil\<close>

text \<open>
  \<open>g_sensor\<close> is variable 0. The coroutine \<open>waitUntil\<close> (waituntil.h) on a predicate that reads
  one variable: \<open>while (!predicate()) co_await yield();\<close>.
\<close>

datatype wait_until = Wait_test | Wait_tested bool

fun wait_until_at :: "nat \<Rightarrow> (int \<Rightarrow> bool) \<Rightarrow> wait_until \<Rightarrow> (payload, wait_until) stretch" where
  "wait_until_at v predicate Wait_test = ([], Ask (load v) (\<lambda>r. Wait_tested (predicate (number r))))"
| "wait_until_at v predicate (Wait_tested holds) =
     (if holds then ([], Return) else ([], Await On_yield (\<lambda>_. Wait_test)))"

datatype sensor = Sensor_step | Sensor_read int

fun sensor_at :: "sensor \<Rightarrow> (payload, sensor) stretch" where
  "sensor_at Sensor_step = ([], Ask (load 0) (\<lambda>r. Sensor_read (number r)))"
| "sensor_at (Sensor_read n) = ([store 0 (n + 1)], Await (ms 200) (\<lambda>_. Sensor_step))"

datatype threshold = Threshold_begin | Threshold_reached | Threshold_read int

fun threshold_at :: "nat \<Rightarrow> threshold \<Rightarrow> (payload, threshold) stretch" where
  "threshold_at sz Threshold_begin =
     ([New_task sz 10 (body (wait_until_at 0 (\<lambda>n. 10 \<le> n)) Wait_test)], Await (On_task 10) (\<lambda>_. Threshold_reached))"
| "threshold_at sz Threshold_reached =
     ([Drop_task 10, dev (Print ''threshold reached at sensor='')], Ask (load 0) (\<lambda>r. Threshold_read (number r)))"
| "threshold_at sz (Threshold_read n) = ([dev (Println_int n)], Return)"

fun tick_at :: "unit \<Rightarrow> (payload, unit) stretch" where
  "tick_at _ = ([dev (Println ''tick'')], Await (ms 500) (\<lambda>_. ()))"

definition wait_until_sketch :: "(nat \<Rightarrow> nat) \<Rightarrow> payload sketch" where
  "wait_until_sketch sz = \<lparr>static_values = (\<lambda>_. 0),
     setup_code = dev (Serial_begin 115200) # spawned (sz 0) 0 (body sensor_at Sensor_step) @
       spawned (sz 1) 1 (body (threshold_at (sz 3)) Threshold_begin) @ spawned (sz 2) 2 (body tick_at ()),
     interrupt_code = []\<rparr>"

end
