(* ===== verification/Sketch_Hardware.thy ===== *)
theory Sketch_Hardware
  imports Sketch_Examples
begin

text \<open>
  The validation sketches of \<open>src/extras/hardware\<close> that only poll; \<open>Sketch_Checks\<close> has those
  whose \<open>loop()\<close> does the checking. Static variables are numbered in the order of the file.
\<close>

section \<open>ChildAwait\<close>

text \<open>\<open>g_order\<close> is variable 0, \<open>g_heartbeats\<close> 1.\<close>

datatype child_step = Child_begin | Child_woken | Child_order int

fun child_step_at :: "int \<Rightarrow> child_step \<Rightarrow> (payload, child_step) stretch" where
  "child_step_at expected Child_begin = ([], Await (ms 50) (\<lambda>_. Child_woken))"
| "child_step_at expected Child_woken = ([], Ask (load 0) (\<lambda>r. Child_order (number r)))"
| "child_step_at expected (Child_order order) =
     ([store 0 (expected + 1), dev (Print ''child ''), dev (Print_int expected),
       dev (Println (if order = expected then '' OK'' else '' OUT-OF-ORDER''))], Return)"

text \<open>The temporary \<open>Task\<close> of \<open>co_await childStep(n)\<close> is object \<open>10 + n\<close>.\<close>

datatype parent_seq = Parent_begin | Parent_after nat | Parent_beats int

fun parent_seq_at :: "nat \<Rightarrow> parent_seq \<Rightarrow> (payload, parent_seq) stretch" where
  "parent_seq_at sz Parent_begin =
     ([store 0 0, New_task sz 10 (body (child_step_at 0) Child_begin)], Await (On_task 10) (\<lambda>_. Parent_after 0))"
| "parent_seq_at sz (Parent_after n) =
     (if n < 2
      then ([Drop_task (10 + n), New_task sz (11 + n) (body (child_step_at (int n + 1)) Child_begin)],
            Await (On_task (11 + n)) (\<lambda>_. Parent_after (n + 1)))
      else ([Drop_task (10 + n), dev (Print ''sequence done; heartbeats_this_round='')],
            Ask (load 1) (\<lambda>r. Parent_beats (number r))))"
| "parent_seq_at sz (Parent_beats n) = ([dev (Println_int n), store 1 0], Await (ms 1000) (\<lambda>_. Parent_begin))"

text \<open>A task that counts its rounds in a variable: \<open>++v; co_await w\<close>.\<close>

datatype beat = Beat | Beat_read int

fun beat_at :: "nat \<Rightarrow> payload operand \<Rightarrow> beat \<Rightarrow> (payload, beat) stretch" where
  "beat_at v w Beat = ([], Ask (load v) (\<lambda>r. Beat_read (number r)))"
| "beat_at v w (Beat_read n) = ([store v (u32 (n + 1))], Await w (\<lambda>_. Beat))"

definition heartbeat :: "payload script" where
  "heartbeat = body (beat_at 1 (ms 25)) Beat"

definition child_await_sketch :: "(nat \<Rightarrow> nat) \<Rightarrow> payload sketch" where
  "child_await_sketch sz = \<lparr>static_values = (\<lambda>_. 0),
     setup_code = dev (Serial_begin 115200) # spawned (sz 1) 0 (body (parent_seq_at (sz 0)) Parent_begin) @
       spawned (sz 2) 1 heartbeat,
     interrupt_code = []\<rparr>"

section \<open>EventWake\<close>

text \<open>\<open>g_order[0 .. 2]\<close> are variables 0 to 2, \<open>g_count\<close> is 3, \<open>g_go\<close> is event 0.\<close>

datatype waiter = Waiter_begin | Waiter_released | Waiter_count int

fun waiter_at :: "int \<Rightarrow> waiter \<Rightarrow> (payload, waiter) stretch" where
  "waiter_at i Waiter_begin = ([], Await (On_event 0) (\<lambda>_. Waiter_released))"
| "waiter_at i Waiter_released = ([], Ask (load 3) (\<lambda>r. Waiter_count (number r)))"
| "waiter_at i (Waiter_count n) =
     (if n < 3 then [store 3 (n + 1), store (nat n) i] else [], Await (ms 1) (\<lambda>_. Waiter_begin))"

datatype controller =
    Controller_begin
  | Controller_release
  | Controller_check
  | Controller_count int
  | Controller_first int int
  | Controller_second int int int
  | Controller_report int int int int

fun controller_at :: "controller \<Rightarrow> (payload, controller) stretch" where
  "controller_at Controller_begin = ([], Await (ms 1000) (\<lambda>_. Controller_release))"
| "controller_at Controller_release = ([store 3 0, Set_event 0], Await (ms 1) (\<lambda>_. Controller_check))"
| "controller_at Controller_check = ([Clear_event 0], Ask (load 3) (\<lambda>r. Controller_count (number r)))"
| "controller_at (Controller_count n) = ([], Ask (load 0) (\<lambda>r. Controller_first n (number r)))"
| "controller_at (Controller_first n a) = ([], Ask (load 1) (\<lambda>r. Controller_second n a (number r)))"
| "controller_at (Controller_second n a b) = ([], Ask (load 2) (\<lambda>r. Controller_report n a b (number r)))"
| "controller_at (Controller_report n a b c) =
     ([dev (Print ''release order=''), dev (Print_int a), dev (Print_int b), dev (Print_int c),
       dev (Println (if n = 3 \<and> a = 1 \<and> b = 2 \<and> c = 3 then '' FIFO-OK'' else '' OUT-OF-ORDER''))],
      Await (ms 1000) (\<lambda>_. Controller_release))"

definition event_wake_sketch :: "(nat \<Rightarrow> nat) \<Rightarrow> payload sketch" where
  "event_wake_sketch sz = \<lparr>static_values = (\<lambda>_. 0),
     setup_code = dev (Serial_begin 115200) # spawned (sz 0) 0 (body (waiter_at 1) Waiter_begin) @
       spawned (sz 0) 1 (body (waiter_at 2) Waiter_begin) @ spawned (sz 0) 2 (body (waiter_at 3) Waiter_begin) @
       spawned (sz 1) 3 (body controller_at Controller_begin),
     interrupt_code = []\<rparr>"

section \<open>QueueProducerConsumer\<close>

text \<open>\<open>g_received\<close> is variable 0, \<open>g_next_expected\<close> 1, \<open>g_order_ok\<close> 2; \<open>g_q\<close> is queue 0.\<close>

datatype producer = Producer_send "32 word"

fun producer_at :: "producer \<Rightarrow> (payload, producer) stretch" where
  "producer_at (Producer_send v) = ([], Await (On_send 0 v) (\<lambda>_. Producer_send (v + 1)))"

datatype consumer =
    Consumer_receive
  | Consumer_got "32 word"
  | Consumer_check "32 word" int
  | Consumer_count int

fun consumer_at :: "consumer \<Rightarrow> (payload, consumer) stretch" where
  "consumer_at Consumer_receive = ([], Await (On_receive 0) (\<lambda>r. Consumer_got (payload r)))"
| "consumer_at (Consumer_got v) = ([], Ask (load 1) (\<lambda>r. Consumer_check v (number r)))"
| "consumer_at (Consumer_check v expected) =
     ((if uint v \<noteq> expected then [store 2 0] else []) @ [store 1 (uint (v + 1))],
      Ask (load 0) (\<lambda>r. Consumer_count (number r)))"
| "consumer_at (Consumer_count n) = ([store 0 (u32 (n + 1))], Await (On_receive 0) (\<lambda>r. Consumer_got (payload r)))"

datatype monitor = Monitor_begin | Monitor_woken | Monitor_received int | Monitor_expected int | Monitor_verdict int

fun monitor_at :: "monitor \<Rightarrow> (payload, monitor) stretch" where
  "monitor_at Monitor_begin = ([], Await (ms 1000) (\<lambda>_. Monitor_woken))"
| "monitor_at Monitor_woken = ([dev (Print ''received='')], Ask (load 0) (\<lambda>r. Monitor_received (number r)))"
| "monitor_at (Monitor_received n) =
     ([dev (Print_int n), dev (Print '' next_expected='')], Ask (load 1) (\<lambda>r. Monitor_expected (number r)))"
| "monitor_at (Monitor_expected n) = ([dev (Print_int n)], Ask (load 2) (\<lambda>r. Monitor_verdict (number r)))"
| "monitor_at (Monitor_verdict ok) =
     ([dev (Println (if ok \<noteq> 0 then '' IN-ORDER'' else '' OUT-OF-ORDER''))], Await (ms 1000) (\<lambda>_. Monitor_woken))"

definition queue_order_sketch :: "(nat \<Rightarrow> nat) \<Rightarrow> payload sketch" where
  "queue_order_sketch sz = \<lparr>static_values = (\<lambda>_. 0)(2 := 1),
     setup_code = dev (Serial_begin 115200) # spawned (sz 0) 0 (body producer_at (Producer_send 0)) @
       spawned (sz 1) 1 (body consumer_at Consumer_receive) @ spawned (sz 2) 2 (body monitor_at Monitor_begin),
     interrupt_code = []\<rparr>"

section \<open>TimerWait\<close>

text \<open>\<open>g_yield_ticks\<close> is variable 0; the locals \<open>on\<close> and \<open>last\<close> are arguments.\<close>

datatype blinker =
    Blinker_begin
  | Blinker_sleep bool int
  | Blinker_woken bool int
  | Blinker_now bool int int
  | Blinker_ticks bool int int

fun blinker_at :: "nat \<Rightarrow> blinker \<Rightarrow> (payload, blinker) stretch" where
  "blinker_at pin Blinker_begin = ([dev (Output_pin pin)], Ask (Board Read_clock) (\<lambda>r. Blinker_sleep False (number r)))"
| "blinker_at pin (Blinker_sleep on since) = ([], Await (ms 500) (\<lambda>_. Blinker_woken (\<not> on) since))"
| "blinker_at pin (Blinker_woken on since) =
     ([dev (Digital_write pin on)], Ask (Board Read_clock) (\<lambda>r. Blinker_now on since (number r)))"
| "blinker_at pin (Blinker_now on since now) =
     ([dev (Print ''interval_ms=''), dev (Print_int (u32 (u64 (now - since) div 1000))),
       dev (Print '' yield_ticks_between='')],
      Ask (load 0) (\<lambda>r. Blinker_ticks on now (number r)))"
| "blinker_at pin (Blinker_ticks on since n) =
     ([dev (Println_int n), store 0 0], Await (ms 500) (\<lambda>_. Blinker_woken (\<not> on) since))"

definition busy :: "payload script" where
  "busy = body (beat_at 0 On_yield) Beat"

definition timer_wait_sketch :: "(nat \<Rightarrow> nat) \<Rightarrow> nat option \<Rightarrow> payload sketch" where
  "timer_wait_sketch sz led = \<lparr>static_values = (\<lambda>_. 0),
     setup_code = dev (Serial_begin 115200) # spawned (sz 0) 0 (body (blinker_at (led_builtin led)) Blinker_begin) @
       spawned (sz 1) 1 busy,
     interrupt_code = []\<rparr>"

end
