(* ===== verification/Sketch_Checks.thy ===== *)
theory Sketch_Checks
  imports Sketch_Hardware
begin

text \<open>The validation sketches of \<open>src/extras/hardware\<close> whose \<open>loop()\<close> does the checking.\<close>

definition verdict :: "bool \<Rightarrow> string" where
  "verdict b = (if b then ''OK'' else ''FAIL'')"

definition log_all :: "device_call list \<Rightarrow> ('v, 'a) world_scheme \<Rightarrow> ('v, 'a) world_scheme" where
  "log_all ds s = s\<lparr>board := (board s)\<lparr>device_log := device_log (board s) @ ds\<rparr>\<rparr>"

definition set_static :: "nat \<Rightarrow> int \<Rightarrow> ('v, 'a) world_scheme \<Rightarrow> ('v, 'a) world_scheme" where
  "set_static v n s = s\<lparr>board := (board s)\<lparr>statics := (statics (board s))(v := n)\<rparr>\<rparr>"

section \<open>SchedulerRun\<close>

text \<open>\<open>g_ran\<close> is variable 0, \<open>g_current_ok\<close> is 1. The handle \<open>h\<close> is a local of \<open>loop()\<close>.\<close>

datatype run_counter = Run_begin | Run_asked bool | Run_read int

fun run_counter_at :: "run_counter \<Rightarrow> (payload, run_counter) stretch" where
  "run_counter_at Run_begin = ([], Ask Is_current_valid (\<lambda>r. Run_asked (truth r)))"
| "run_counter_at (Run_asked valid) = (if \<not> valid then [store 1 0] else [], Ask (load 0) (\<lambda>r. Run_read (number r)))"
| "run_counter_at (Run_read n) = ([store 0 (n + 1)], Return)"

definition run_counter :: "payload script" where
  "run_counter = body run_counter_at Run_begin"

definition scheduler_run_setup :: "(payload, payload script) call list" where
  "scheduler_run_setup = [dev (Serial_begin 115200)]"

definition scheduler_run_loop ::
    "target \<Rightarrow> nat \<Rightarrow> tick_t \<Rightarrow> (payload, 'a) world_scheme \<Rightarrow> (payload, 'a) world_scheme option" where
  "scheduler_run_loop c sz clock s =
     (let s0 = set_static 1 1 (set_static 0 0 s);
          outside_ok = (\<not> th_valid s0 (current_task s0))
      in case run_calls c [New_task sz 0 run_counter] s0 of
        None \<Rightarrow> None
      | Some s1 \<Rightarrow>
          (case create_task 0 s1 of (h, s2) \<Rightarrow>
             (case run_calls c (Drop_task 0 # spawned sz 1 run_counter) s2 of
                None \<Rightarrow> None
              | Some s3 \<Rightarrow>
                  let ready_ok = (has_ready_tasks s3 \<and> \<not> th_done s3 h);
                      s4 = poll (program c (Some 0)) resolve_signals clock s3;
                      ran = statics (board s4) 0;
                      done_ok = (th_done s4 h \<and> active_count s4 = 0 \<and> ran = 2)
                  in Some (log_all
                       [Print ''ran='', Print_int ran,
                        Print '' current_inside='', Print (verdict (statics (board s4) 1 \<noteq> 0)),
                        Print '' current_outside='', Print (verdict outside_ok),
                        Print '' ready_before='', Print (verdict ready_ok),
                        Print '' done_after='', Println (verdict done_ok), Wait_ms 500] s4))))"

section \<open>TaskLifecycle\<close>

text \<open>\<open>g_body_ran\<close> is variable 0; the local \<open>t\<close> is \<open>Task\<close> object 0.\<close>

fun demo_at :: "unit \<Rightarrow> (payload, unit) stretch" where
  "demo_at _ = ([store 0 1], Return)"

definition demo :: "payload script" where
  "demo = body demo_at ()"

definition task_lifecycle_setup :: "(payload, payload script) call list" where
  "task_lifecycle_setup = [dev (Serial_begin 115200)]"

definition task_lifecycle_loop ::
    "target \<Rightarrow> nat \<Rightarrow> (payload, 'a) world_scheme \<Rightarrow> (payload, 'a) world_scheme option" where
  "task_lifecycle_loop c sz s =
     (let before = bytes_used (fpool s)
      in case run_calls c [New_task sz 0 demo] s of
        None \<Rightarrow> None
      | Some s1 \<Rightarrow>
          let owned = task_bool 0 s1
          in (case run_calls c [Drop_task 0] s1 of
                None \<Rightarrow> None
              | Some s2 \<Rightarrow>
                  let recovered = (bytes_used (fpool s2) = before)
                  in Some (log_all
                       [Print ''owned='', Print (verdict owned),
                        Print '' body_ran='', Print (if statics (board s2) 0 \<noteq> 0 then ''FAIL(ran)'' else ''OK(lazy)''),
                        Print '' recovered='', Println (verdict recovered),
                        Print ''pool_free='', Print_int (u32 (int (bytes_free c (fpool s2)))),
                        Print '' alloc_failures='', Println_int (u32 (int (allocation_failures (fpool s2)))), Wait_ms 1000] s2)))"

section \<open>FramePoolCheck\<close>

text \<open>
  The pool of the sketch is its own, a \<open>FramePool<2048>\<close>. The result is what is reported to
  the hook, what is printed, and the pool; a null pointer is aligned.
\<close>

definition frame_pool_setup :: "(payload, payload script) call list" where
  "frame_pool_setup = [dev (Serial_begin 115200)]"

definition frame_pool_loop :: "target \<Rightarrow> pool \<Rightarrow> (error list \<times> device_call list \<times> pool) option" where
  "frame_pool_loop cc p0 =
     (case allocate cc 64 (kAlign cc) p0 of None \<Rightarrow> None | Some (a, p1) \<Rightarrow>
     (case allocate cc 200 32 p1 of None \<Rightarrow> None | Some (b, p2) \<Rightarrow>
     (case allocate cc 16 (kAlign cc) p2 of None \<Rightarrow> None | Some (c, p3) \<Rightarrow>
        let allocated = (a \<noteq> None \<and> b \<noteq> None \<and> c \<noteq> None);
            bAligned = (and (case b of None \<Rightarrow> 0 | Some x \<Rightarrow> x) (32 - 1) = 0)
        in (case deallocate cc b p3 of None \<Rightarrow> None | Some (p4, e1) \<Rightarrow>
           (case deallocate cc a p4 of None \<Rightarrow> None | Some (p5, e2) \<Rightarrow>
           (case deallocate cc c p5 of None \<Rightarrow> None | Some (p6, e3) \<Rightarrow>
              let recovered = (bytes_used p6 = 0 \<and> bytes_free cc p6 = kUsable cc)
              in Some (e1 @ e2 @ e3,
                   [Print ''alloc='', Print (verdict allocated),
                    Print '' over_aligned='', Print (verdict bAligned),
                    Print '' recovered='', Println (verdict recovered),
                    Print ''capacity='', Print_int (u32 (int (kUsable cc))),
                    Print '' peak_used='', Println_int (u32 (int (peak_bytes_used p6))), Wait_ms 1000],
                   p6)))))))"

section \<open>ClockMonotonic\<close>

text \<open>The static variables, and the number of clock reads so far; \<open>reads\<close> are their values.\<close>

record clock_check =
  s_last :: tick_t
  s_have_last :: bool
  read_count :: nat

text \<open>The loop over \<open>i\<close>, with \<open>n\<close> rounds left and the next read \<open>k\<close>: \<open>monotonic\<close>, \<open>previous\<close>, next read.\<close>

fun clock_batch :: "(nat \<Rightarrow> tick_t) \<Rightarrow> nat \<Rightarrow> nat \<Rightarrow> tick_t \<Rightarrow> bool \<times> tick_t \<times> nat" where
  "clock_batch reads 0 k previous = (True, previous, k)"
| "clock_batch reads (Suc n) k previous =
     (let now = reads k
      in if now < previous then (False, previous, k + 1)
         else clock_batch reads n (k + 1) now)"

text \<open>\<open>busy_idle()\<close> counts without an effect.\<close>

fun busy_idle_loop :: "nat \<Rightarrow> 's \<Rightarrow> 's" where
  "busy_idle_loop 0 s = s"
| "busy_idle_loop (Suc n) s = busy_idle_loop n s"

definition busy_idle :: "'s \<Rightarrow> 's" where
  "busy_idle s = busy_idle_loop 2000000 s"

definition clock_monotonic_setup :: "(payload, payload script) call list" where
  "clock_monotonic_setup = [dev (Serial_begin 115200)]"

definition clock_monotonic_loop :: "(nat \<Rightarrow> tick_t) \<Rightarrow> clock_check \<Rightarrow> device_call list \<times> clock_check" where
  "clock_monotonic_loop reads s =
     (let batch_start = reads (read_count s)
      in case clock_batch reads 200000 (read_count s + 1) batch_start of (monotonic, previous, k) \<Rightarrow>
        let progressed_in_batch = (previous > batch_start);
            cross_batch_measured = s_have_last s;
            cross_batch_ok = (\<not> s_have_last s \<or> batch_start \<ge> s_last s);
            s1 = s\<lparr>s_last := previous, s_have_last := True, read_count := k\<rparr>;
            report =
              [Print ''monotonic='', Println (verdict monotonic),
               Print ''progressed_in_batch='', Println (if progressed_in_batch then ''OK'' else ''FAIL(frozen?)''),
               Print ''cross_batch='',
               Println (if \<not> cross_batch_measured then ''n/a(first batch)''
                        else if cross_batch_ok then ''OK'' else ''FAIL(rollback)''),
               Print ''now_us_low32='', Println_int (uint (and previous 0xFFFFFFFF))]
        in if monotonic \<and> progressed_in_batch \<and> cross_batch_ok
           then (report @ [Wait_ms 1000], s1)
           else (report @ [Println ''clock unhealthy: skipping clock-dependent delay''], busy_idle s1))"

end
