(* ===== verification/Sketch_Flag_Irq.thy ===== *)
theory Sketch_Flag_Irq
  imports Sketch_Checks
begin

text \<open>
  The stress sketch \<open>FlagIRQ\<close>: a timer interrupt sets flag 0 while a task waits for it; after
  2000 signals \<open>loop()\<close> stops the timer, lets the backlog drain, sends one more signal and prints
  a verdict. Variables: 0 \<open>g_isr_time_us\<close>, 1 \<open>g_isr_sets\<close>, 2 \<open>g_wakes\<close>, 3 \<open>g_last_latency_us\<close>,
  4 \<open>g_heartbeats\<close>, 5 \<open>g_ran_in_isr\<close>, 6 \<open>g_reported\<close>.
\<close>

abbreviation var :: "('v, 'a) world_scheme \<Rightarrow> nat \<Rightarrow> int" where
  "var s v \<equiv> statics (board s) v"

definition kStormSignals :: int where "kStormSignals = 2000"
definition kWatchdogUs :: int where "kWatchdogUs = 100000"
definition kQuiesceStable :: nat where "kQuiesceStable = 3"
definition kQuiesceMaxPolls :: nat where "kQuiesceMaxPolls = 1000"

section \<open>The interrupt\<close>

text \<open>\<open>platform_now_us()\<close> outside a coroutine.\<close>

definition read_clock :: "('v, 'a) world_scheme \<Rightarrow> int \<times> ('v, 'a) world_scheme" where
  "read_clock s = (case board_do Read_clock (board s) of (y, b) \<Rightarrow> (number (From_board y :: 'v answer), s\<lparr>board := b\<rparr>))"

definition sa_isr_fire :: "target \<Rightarrow> (payload, 'a) world_scheme \<Rightarrow> (payload, 'a) world_scheme option" where
  "sa_isr_fire c s =
     (case read_clock s of (now, s1) \<Rightarrow>
        let s2 = set_static 0 now s1;
            s3 = set_static 1 (u32 (var s2 1 + 1)) s2
        in run_calls c [Set_flag 0] s3)"

text \<open>The handler runs in interrupt context.\<close>

definition sa_on_timer :: "target \<Rightarrow> (payload, 'a) world_scheme \<Rightarrow> (payload, 'a) world_scheme option" where
  "sa_on_timer c s =
     map_option (\<lambda>s1. s1\<lparr>board := (board s1)\<lparr>in_interrupt := in_interrupt (board s)\<rparr>\<rparr>)
       (sa_isr_fire c (s\<lparr>board := (board s)\<lparr>in_interrupt := True\<rparr>\<rparr>))"

text \<open>
  The timer runs or not; on ESP32 that is whether the pointer \<open>g_timer\<close> is set. On RP2040
  \<open>cancel_repeating_timer\<close> is called in any case.
\<close>

definition sa_start_storm :: "(payload, 'a) world_scheme \<Rightarrow> bool \<times> (payload, 'a) world_scheme" where
  "sa_start_storm s = (True, log_all [Start_timer 250] s)"

definition sa_stop_storm :: "bool \<Rightarrow> bool \<Rightarrow> (payload, 'a) world_scheme \<Rightarrow> bool \<times> (payload, 'a) world_scheme" where
  "sa_stop_storm esp32 running s = (False, if esp32 \<and> \<not> running then s else log_all [Stop_timer] s)"

section \<open>The coroutines\<close>

datatype irq_waiter =
    Irq_wait
  | Irq_woken
  | Irq_context bool
  | Irq_time int
  | Irq_latency int int
  | Irq_count int

fun irq_waiter_at :: "irq_waiter \<Rightarrow> (payload, irq_waiter) stretch" where
  "irq_waiter_at Irq_wait = ([], Await (On_flag 0) (\<lambda>_. Irq_woken))"
| "irq_waiter_at Irq_woken = ([], Ask (Board In_isr_context) (\<lambda>r. Irq_context (truth r)))"
| "irq_waiter_at (Irq_context in_isr) = (if in_isr then [store 5 1] else [], Ask (load 0) (\<lambda>r. Irq_time (number r)))"
| "irq_waiter_at (Irq_time t) = ([], Ask (Board Read_clock) (\<lambda>r. Irq_latency t (number r)))"
| "irq_waiter_at (Irq_latency t now) = ([store 3 (u64 (now - t))], Ask (load 2) (\<lambda>r. Irq_count (number r)))"
| "irq_waiter_at (Irq_count n) = ([store 2 (u32 (n + 1))], Await (On_flag 0) (\<lambda>_. Irq_woken))"

definition flag_irq_setup ::
    "target \<Rightarrow> (nat \<Rightarrow> nat) \<Rightarrow> (payload, 'a) world_scheme \<Rightarrow> (bool \<times> (payload, 'a) world_scheme) option" where
  "flag_irq_setup c sz s =
     map_option sa_start_storm
       (run_calls c (dev (Serial_begin 115200) # spawned (sz 0) 0 (body irq_waiter_at Irq_wait) @
          spawned (sz 1) 1 (body (beat_at 4 (ms 1)) Beat)) s)"

section \<open>\<open>loop()\<close>\<close>

text \<open>\<open>clocks n\<close> is the clock value of the poll number \<open>n\<close> of this \<open>loop()\<close>; poll 0 is \<open>poll_and_wait()\<close>.\<close>

definition poll_at :: "target \<Rightarrow> tick_t \<Rightarrow> (payload, 'a) world_scheme \<Rightarrow> (payload, 'a) world_scheme" where
  "poll_at c clock s = poll (program c (Some 0)) resolve_signals clock s"

function quiesce ::
    "target \<Rightarrow> (nat \<Rightarrow> tick_t) \<Rightarrow> nat \<Rightarrow> nat \<Rightarrow> int \<Rightarrow> (payload, 'a) world_scheme \<Rightarrow> nat \<times> (payload, 'a) world_scheme" where
  "quiesce c clocks idle_polls polls lastWakes s =
     (if idle_polls < kQuiesceStable \<and> polls < kQuiesceMaxPolls then
        let s1 = poll_at c (clocks (polls + 1)) s
        in if var s1 2 = lastWakes then quiesce c clocks (idle_polls + 1) (polls + 1) lastWakes s1
           else quiesce c clocks 0 (polls + 1) (var s1 2) s1
      else (polls, s))"
  by pat_completeness auto
termination by (relation "measure (\<lambda>(c, clocks, idle_polls, polls, w, s). kQuiesceMaxPolls - polls)") auto

declare quiesce.simps [simp del]

partial_function (option) watchdog_drain ::
    "target \<Rightarrow> (nat \<Rightarrow> tick_t) \<Rightarrow> nat \<Rightarrow> int \<Rightarrow> int \<Rightarrow> (payload, 'a) world_scheme \<Rightarrow> (bool \<times> (payload, 'a) world_scheme) option" where
  "watchdog_drain c clocks polls deadline wakesBeforeDrain s =
     (case read_clock s of (now, s1) \<Rightarrow>
        if now < deadline then
          let s2 = poll_at c (clocks (polls + 1)) s1
          in if var s2 2 > wakesBeforeDrain then Some (True, s2)
             else watchdog_drain c clocks (polls + 1) deadline wakesBeforeDrain s2
        else Some (False, s1))"

definition flag_irq_report :: "int \<Rightarrow> int \<Rightarrow> int \<Rightarrow> int \<Rightarrow> bool \<Rightarrow> bool \<Rightarrow> bool \<Rightarrow> bool \<Rightarrow> device_call list" where
  "flag_irq_report signalsInStorm wakesInStorm heartbeatsAtStop latency liveness coalescing noIsrBody drainedOne =
     (let ok = (\<lambda>b. if b then ''ok'' else ''FAIL'')
      in [Println '''', Println ''== FlagIRQ stress verdict =='',
          Print ''storm_signals='', Println_int signalsInStorm,
          Print ''storm_wakes='', Println_int wakesInStorm,
          Print ''heartbeats='', Println_int heartbeatsAtStop,
          Print ''last_latency_us='', Println_int (u32 latency),
          Print ''liveness='', Println (ok liveness),
          Print ''coalescing(storm_wakes<=storm_signals)='', Println (ok coalescing),
          Print ''no_coroutine_body_in_isr='', Println (ok noIsrBody),
          Print ''watchdog_drain(exactly_one_wake)='', Println (ok drainedOne),
          Print ''RESULT='',
          Println (if liveness \<and> coalescing \<and> noIsrBody \<and> drainedOne then ''PASS'' else ''FAIL'')])"

definition flag_irq_loop ::
    "target \<Rightarrow> bool \<Rightarrow> (nat \<Rightarrow> tick_t) \<Rightarrow> bool \<Rightarrow> (payload, 'a) world_scheme \<Rightarrow> (bool \<times> (payload, 'a) world_scheme) option" where
  "flag_irq_loop c esp32 clocks running s =
     (let s1 = snd (poll_and_wait (program c (Some 0)) resolve_signals has_external_waiters (clocks 0) s)
      in if var s1 6 \<noteq> 0 \<or> var s1 1 < kStormSignals then Some (running, s1)
         else
           (case sa_stop_storm esp32 running s1 of (running2, s2) \<Rightarrow>
           (case quiesce c clocks 0 0 (var s2 2) s2 of (polls, s3) \<Rightarrow>
              let signalsInStorm = var s3 1;
                  wakesInStorm = var s3 2;
                  heartbeatsAtStop = var s3 4;
                  wakesBeforeDrain = var s3 2
              in case run_calls c [Set_flag 0] s3 of
                None \<Rightarrow> None
              | Some s4 \<Rightarrow>
                  (case read_clock s4 of (now, s5) \<Rightarrow>
                  (case watchdog_drain c clocks polls (u64 (now + kWatchdogUs)) wakesBeforeDrain s5 of
                     None \<Rightarrow> None
                   | Some (drained, s6) \<Rightarrow>
                       let liveness = (wakesInStorm \<ge> 1 \<and> heartbeatsAtStop \<ge> 1);
                           coalescing = (wakesInStorm \<le> signalsInStorm);
                           noIsrBody = (var s6 5 = 0);
                           drainedOne = (drained \<and> var s6 2 = u32 (wakesBeforeDrain + 1))
                       in Some (running2, set_static 6 1 (log_all
                            (flag_irq_report signalsInStorm wakesInStorm heartbeatsAtStop (var s6 3)
                               liveness coalescing noIsrBody drainedOne) s6)))))))"

end
