(* ===== verification/Sketch_Runs.thy ===== *)
theory Sketch_Runs
  imports Sketch_Flag_Irq
begin

text \<open>
  Every call of a sketch returns, and a sketch only does what a program may do: it keeps the
  invariants of the library and of its frames for ever.
\<close>

section \<open>Calls return\<close>

lemma do_call_returns:
  assumes inv: "sched_inv s" "program_ok s" and o: "own c {} s"
    and "\<And>sz t p. x = New_task sz t p \<Longrightarrow> tasks s t = None" and "\<And>t u. x = Move_task t u \<Longrightarrow> tasks s t = None"
  shows "do_call c x s \<noteq> None"
proof -
  have ob: "objects_ok s" using inv(2) by (simp add: program_ok_def)
  show ?thesis
  proof (cases x)
    case (Set_event e)
    then show ?thesis using event_set_calm [OF inv(1) ob, of e] by (auto simp: do_call_def)
  next
    case (New_task sz t p)
    obtain a p' where "allocate c sz (kAlign c) (fpool s) = Some (a, p')"
      using arena_alloc [OF ownD(2) [OF o], of sz] by metis
    then show ?thesis
      using New_task assms(4) by (simp add: do_call_def coroutine_call_def frame_alloc_def task_bool_def Let_def)
  next
    case (Move_task t u)
    then show ?thesis using assms(5) by (simp add: do_call_def task_bool_def)
  qed (simp_all add: do_call_def)
qed

lemma run_calls_append: "run_calls c (xs @ ys) s = Option.bind (run_calls c xs s) (run_calls c ys)"
  by (induction xs arbitrary: s) (auto split: option.split)

text \<open>What holds outside of polls, in \<open>setup()\<close> and between calls of \<open>loop()\<close>.\<close>

definition between :: "target \<Rightarrow> ('v, 'a) world_scheme \<Rightarrow> bool" where
  "between c s \<longleftrightarrow> outside program_ok s \<and> own c {} s"

lemma between_inv: "between c s \<Longrightarrow> sched_inv s" "between c s \<Longrightarrow> program_ok s" "between c s \<Longrightarrow> own c {} s"
  by (simp_all add: between_def outside_def at_rest_def)

lemma between_step:
  assumes "between c s" "program_step c fallback s s'"
  shows "between c s'"
  using assms program_step_outside [OF assms(2)] program_step_own [OF assms(2)] by (auto simp: between_def)

lemma between_call: "between c s \<Longrightarrow> do_call c x s = Some (y, s') \<Longrightarrow> between c s'"
  using between_step [OF _ program_step.call [of c x s y s' None]] by blast

lemma between_calls: "between c s \<Longrightarrow> run_calls c xs s = Some s' \<Longrightarrow> between c s'"
proof (induction xs arbitrary: s)
  case (Cons x xs)
  then obtain y s1 where "do_call c x s = Some (y, s1)" "run_calls c xs s1 = Some s'"
    by (auto split: option.splits)
  then show ?case using Cons between_call by blast
qed simp

lemma between_poll: "between c s \<Longrightarrow> between c (poll (program c fallback) resolve_signals clock s)"
  using between_step [OF _ program_step.poll] by blast

lemma between_board:
  fixes s :: "('v, 'a) world_scheme"
  assumes "between c s"
  shows "between c (s\<lparr>board := b\<rparr>)"
proof -
  have "tame s (s\<lparr>board := b\<rparr>)"
    using own_tame [OF between_inv(1,2) [OF assms], where n = "next_awaiter s" and x = "frames s" and b = b] by simp
  moreover have "own c {} (s\<lparr>board := b\<rparr>)"
    by (rule own_same [OF between_inv(3) [OF assms]]) (simp add: same_owners_def frames_kept_def)
  ultimately show ?thesis
    using assms quiet_idle by (simp add: between_def outside_def at_rest_def tame_def) (simp add: idle_def)
qed

lemma between_board_simps [simp]: "between c (log_all ds s) = between c s" "between c (set_static v n s) = between c s"
proof -
  have b: "between c (s\<lparr>board := x\<rparr>) = between c s" for x
    using between_board [of c s x] between_board [of c "s\<lparr>board := x\<rparr>" "board s"] by auto
  show "between c (log_all ds s) = between c s" "between c (set_static v n s) = between c s"
    by (simp_all add: log_all_def set_static_def b)
qed

section \<open>Setup\<close>

text \<open>\<open>setup()\<close> makes requests to the board and spawns.\<close>

inductive simple_setup :: "('v, 'v script) call list \<Rightarrow> bool" where
  nothing: "simple_setup []"
| request: "simple_setup (Board x # xs)" if "simple_setup xs"
| spawning: "simple_setup (spawned sz t p @ xs)" if "simple_setup xs"

definition tasks_empty :: "'a core_scheme \<Rightarrow> bool" where
  "tasks_empty s \<longleftrightarrow> (\<forall>t. tasks s t = None)"

lemma new_task_tasks:
  assumes "do_call c (New_task sz t p) s = Some (y, s')" "u \<noteq> t"
  shows "tasks s' u = tasks s u"
proof -
  have "frames_kept s1 (set_frame f x s1)" for f x and s1 :: "('a, 'b) world_scheme" by simp
  then show ?thesis
    using assms by (auto simp: do_call_def coroutine_call_def frame_alloc_def Let_def task_default_def set_frame_def
        split: option.splits if_splits)
qed

lemma spawn_tasks: "u \<noteq> t \<Longrightarrow> tasks (spawn t s) u = tasks s u"
  using acquire_slot_shape [of s] by (auto simp: spawn_def schedule_cases Let_def split: option.splits)

lemma drop_tasks:
  fixes s :: "('v, 'a) world_scheme"
  assumes "own c {} s" "do_call c (Drop_task t) s = Some (y, s')"
  shows "tasks s' = (tasks s)(t := None)"
proof (cases "tasks s t")
  case (Some f)
  then obtain p where "frames s f = Some (Initial p)" using ownD(5) [OF assms(1)] by (auto simp: owned_def)
  then have "s' = free_frame c f (set_task t None s)"
    using assms(2) Some
    by (auto simp: do_call_def task_destructor_def task_reset_def Let_def destroy_frame_def same_set_task)
  then show ?thesis by (auto simp: free_frame_fields)
qed (use assms(2) in \<open>auto simp: do_call_def task_destructor_def task_reset_def\<close>)

lemma spawned_returns:
  assumes b: "between c s" and n: "tasks_empty s"
  obtains s' where "run_calls c (spawned sz t p) s = Some s'" "between c s'" "tasks_empty s'"
proof -
  obtain y1 s1 where s1: "do_call c (New_task sz t p) s = Some (y1, s1)"
    using do_call_returns [OF between_inv [OF b], of "New_task sz t p"] n by (auto simp: tasks_empty_def)
  obtain y2 s2 where s2: "do_call c (Spawn_task t) s1 = Some (y2, s2)" by (simp add: do_call_def)
  obtain y3 s3 where s3: "do_call c (Drop_task t) s2 = Some (y3, s3)" by (simp add: do_call_def)
  have "tasks s1 u = None" if "u \<noteq> t" for u
    using new_task_tasks [OF s1] n that by (simp add: tasks_empty_def)
  moreover have "tasks s2 u = None" if "u \<noteq> t" "tasks s1 u = None" for u
    using spawn_tasks [where s = s1 and t = t] s2 that by (auto simp: do_call_def)
  moreover have "tasks s3 = (tasks s2)(t := None)"
    using drop_tasks [OF between_inv(3) s3] between_call [OF between_call [OF b s1] s2] by blast
  ultimately have "tasks_empty s3" by (simp add: tasks_empty_def)
  with that between_call [OF between_call [OF between_call [OF b s1] s2] s3] show thesis
    by (simp add: spawned_def s1 s2 s3)
qed

lemma simple_setup_returns:
  assumes "simple_setup xs" "between c s" "tasks_empty s"
  obtains s' where "run_calls c xs s = Some s'" "between c s'" "tasks_empty s'"
proof -
  have "\<exists>s'. run_calls c xs s = Some s' \<and> between c s' \<and> tasks_empty s'"
    using assms
  proof (induction xs arbitrary: s rule: simple_setup.induct)
    case (request xs x)
    obtain y b where y: "board_do x (board s) = (y, b)" by fastforce
    have "tasks_empty (s\<lparr>board := b\<rparr>)" using request.prems(2) by (simp add: tasks_empty_def)
    then show ?case using request.IH [OF between_board [OF request.prems(1)]] y by (simp add: do_call_def)
  next
    case (spawning xs sz t p)
    obtain s1 where s1: "run_calls c (spawned sz t p) s = Some s1" "between c s1" "tasks_empty s1"
      by (rule spawned_returns [OF spawning.prems])
    then show ?case using spawning.IH [OF s1(2,3)] by (simp add: run_calls_append)
  qed simp
  with that show thesis by blast
qed

section \<open>The polling sketches\<close>

definition polling_sketches :: "(nat \<Rightarrow> nat) \<Rightarrow> nat option \<Rightarrow> payload sketch list" where
  "polling_sketches sz led =
     [blink_sketch sz led, yield_fairness_sketch sz, parent_child_sketch sz led, event_sketch sz, flag_irq_example sz,
      samples_sketch sz, wait_until_sketch sz, child_await_sketch sz, event_wake_sketch sz, queue_order_sketch sz,
      timer_wait_sketch sz led]"

lemmas sketch_defs = blink_sketch_def yield_fairness_sketch_def parent_child_sketch_def event_sketch_def
  flag_irq_example_def samples_sketch_def wait_until_sketch_def child_await_sketch_def event_wake_sketch_def
  queue_order_sketch_def timer_wait_sketch_def

lemma spawning_last: "simple_setup (spawned sz t p)"
  using simple_setup.spawning [OF simple_setup.nothing] by simp

lemma sketch_setups:
  assumes "sk \<in> set (polling_sketches sz led)"
  shows "simple_setup (setup_code sk)" "interrupt_code sk = [] \<or> interrupt_code sk = [Set_flag 0]"
  using assms
  by (auto simp: polling_sketches_def sketch_defs on_button_isr_def intro!: simple_setup.intros spawning_last)

lemma sketch_loop_between:
  assumes "between c s" "interrupt_code sk = [] \<or> interrupt_code sk = [Set_flag 0]"
  obtains s' where "sketch_loop c fallback sk hs s = Some s'" "between c s'"
proof -
  have "\<exists>s'. sketch_loop c fallback sk hs s = Some s' \<and> between c s'"
    using assms
  proof (induction hs arbitrary: s)
    case (Cons h hs)
    show ?case
    proof (cases h)
      case (Loop clock)
      then show ?thesis using Cons.IH [OF between_poll [OF Cons.prems(1)] Cons.prems(2)] by simp
    next
      case Interrupt
      obtain s1 where s1: "run_calls c (interrupt_code sk) s = Some s1"
        using Cons.prems(2) by (auto simp: do_call_def)
      then show ?thesis using Cons.IH [OF between_calls [OF Cons.prems(1) s1] Cons.prems(2)] Interrupt by simp
    qed
  qed simp
  with that show thesis by blast
qed

text \<open>The state in which the Arduino core calls \<open>setup()\<close>.\<close>

definition powered_on :: "target \<Rightarrow> ('v, 'a) world_scheme \<Rightarrow> bool" where
  "powered_on c s \<longleftrightarrow> fresh_world s \<and> fresh_frames c s \<and> sched_inv s \<and> idle s \<and> \<not> in_poll s \<and> \<not> shutting_down s"

lemma powered_on_between: "powered_on c s \<Longrightarrow> between c s \<and> tasks_empty s"
  using fresh_world_ok fresh_frames_own
  by (auto simp: powered_on_def between_def outside_def at_rest_def tasks_empty_def fresh_frames_def)


end
