(* ===== verification/Sketch_Verdicts.thy ===== *)
theory Sketch_Verdicts
  imports Sketch_Runs
begin

text \<open>The verdicts of the sketches \<open>FramePoolCheck\<close>, \<open>TaskLifecycle\<close> and \<open>ClockMonotonic\<close>.\<close>

section \<open>Allocating from the tail of the arena\<close>

text \<open>An arena whose last block is its only free one.\<close>

lemma round_up_less:
  assumes "k < word_bits c" and "v + (2 ^ k - 1) < 2 ^ word_bits c"
  shows "round_up c v (2 ^ k) < v + 2 ^ k"
proof -
  have "round_up c v (2 ^ k) \<le> v + (2 ^ k - 1)" unfolding round_up_eq [OF assms] by (rule diff_le_self)
  moreover have "(0 :: nat) < 2 ^ k" by simp
  ultimately show ?thesis by linarith
qed

lemma alloc_spec_tail:
  assumes "\<forall>x \<in> set pre. bh_allocated x" "\<not> bh_allocated b" "payload_offset c align (off + total_size pre) + sz \<le> blk_size b"
  shows "alloc_spec c sz align off (pre @ [b]) =
    Some (storage_addr c + off + total_size pre + payload_offset c align (off + total_size pre),
      pre @ split_block c sz align (off + total_size pre) b)"
  using assms
proof (induction pre arbitrary: off)
  case (Cons x pre)
  then show ?case using Cons.IH [of "off + blk_size x"] by (simp add: add.assoc)
qed simp

definition one_free :: "target \<Rightarrow> pool \<Rightarrow> block_header list \<Rightarrow> nat \<Rightarrow> bool" where
  "one_free c p bs n \<longleftrightarrow> pool_rep c p bs \<and>
     (\<exists>pre b. bs = pre @ [b] \<and> (\<forall>x \<in> set pre. bh_allocated x) \<and> \<not> bh_allocated b \<and> n \<le> blk_size b)"

lemma alloc_fits:
  assumes c: "wf_target c" and p: "one_free c p bs n"
    and a: "effective_align c align = 2 ^ j" "j < word_bits c"
    and n: "2 * kHeader c + 2 ^ j + sz + 2 * kAlign c \<le> n"
  obtains ptr p' bs' lo hi where "allocate c sz align p = Some (Some ptr, p')"
    "one_free c p' bs' (n - (kHeader c + 2 ^ j + sz + kAlign c))"
    "live c 0 bs' = insert (ptr, lo, hi) (live c 0 bs)" "(ptr, lo, hi) \<notin> live c 0 bs" "ptr mod 2 ^ j = 0"
    "allocation_failures p' = allocation_failures p"
proof -
  obtain pre b where bs: "bs = pre @ [b]" "\<forall>x \<in> set pre. bh_allocated x" "\<not> bh_allocated b" "n \<le> blk_size b"
    and rep: "pool_rep c p bs" using p by (auto simp: one_free_def)
  let ?off = "total_size pre" and ?al = "effective_align c align"
  let ?po = "payload_offset c ?al ?off"
  have tot: "?off + blk_size b = kUsable c" using pool_rep_total [OF rep] by (simp add: bs(1))
  have "?off + kHeader c \<le> kUsable c" using tot n bs(4) by linarith
  then have po: "?po = kHeader c + align_padding c (storage_addr c + ?off + kHeader c) (2 ^ j)"
    unfolding a(1) by (rule payload_offset_eq [OF c refl a(2)])
  then have po_less: "?po < kHeader c + 2 ^ j" using align_padding_spec(2) [OF a(2)] by simp
  obtain k where k: "k < word_bits c" "kAlign c = 2 ^ k" using kAlign_pow2 [OF c] by blast
  define needed where "needed = round_up c (?po + sz) (kAlign c)"
  have w: "?po + sz + (2 ^ k - 1) < 2 ^ word_bits c"
    using word_room [OF c] tot bs(4) n po_less k(2) by linarith
  have needed: "needed < ?po + sz + kAlign c" unfolding needed_def k(2) by (rule round_up_less [OF k(1) w])
  have fit: "?po + sz \<le> blk_size b" using n bs(4) po_less by linarith
  have s: "alloc_spec c sz ?al 0 bs = Some (storage_addr c + ?off + ?po, pre @ split_block c sz ?al ?off b)"
    using alloc_spec_tail [OF bs(2,3), of c ?al 0 sz] fit by (simp add: bs(1))
  have split: "split_block c sz ?al ?off b =
      [mk_header needed ?po True, mk_header (blk_size b - needed) (kHeader c) False]"
    using n bs(4) needed po_less by (simp add: split_block_def Let_def needed_def)
  from allocate_walk [OF c rep a, of sz] obtain p' where p':
    "allocate c sz align p = Some (Some (storage_addr c + ?off + ?po), p')"
    "tiles (headers p') 0 (pre @ split_block c sz ?al ?off b) (kUsable c)"
    "bytes_used p' = used_bytes (pre @ split_block c sz ?al ?off b)"
    "peak_bytes_used p' = max (peak_bytes_used p) (bytes_used p')"
    "allocation_failures p' = allocation_failures p"
    by (auto simp: s)
  note r = pool_rep_alloc [OF c rep a s p'(2-4)]
  obtain lo hi where l: "live c 0 (pre @ split_block c sz ?al ?off b) =
      insert (storage_addr c + ?off + ?po, lo, hi) (live c 0 bs)"
    "(storage_addr c + ?off + ?po) mod ?al = 0" "storage_addr c + ?off + ?po + sz \<le> hi"
    "(storage_addr c + ?off + ?po, lo, hi) \<notin> live c 0 bs"
    using r(2) by (elim exE conjE) (rule that)
  let ?x = "mk_header needed ?po True" and ?y = "mk_header (blk_size b - needed) (kHeader c) False"
  have "blk_size b < 2 ^ 32" by (rule unat32_lt)
  then have y: "blk_size ?y = blk_size b - needed" "\<not> bh_allocated ?y" "bh_allocated ?x" by simp_all
  have "n - (kHeader c + 2 ^ j + sz + kAlign c) \<le> blk_size ?y" using y(1) bs(4) needed po_less by linarith
  moreover have "\<forall>x \<in> set (pre @ [?x]). bh_allocated x" using bs(2) y(3) by simp
  moreover have "pre @ split_block c sz ?al ?off b = (pre @ [?x]) @ [?y]" unfolding split by simp
  ultimately have "one_free c p' (pre @ split_block c sz ?al ?off b) (n - (kHeader c + 2 ^ j + sz + kAlign c))"
    unfolding one_free_def using r(1) y(2) by blast
  from that [OF p'(1) this l(1,4) _ p'(5)] l(2) show thesis by (simp add: a(1))
qed

section \<open>FramePoolCheck\<close>

definition whole_pool :: "target \<Rightarrow> pool \<Rightarrow> bool" where
  "whole_pool c p \<longleftrightarrow> (\<exists>b. pool_rep c p [b] \<and> \<not> bh_allocated b)"

lemma freed:
  assumes "wf_target c" "pool_rep c p bs" "live c 0 bs = insert (a, lo, hi) L" "(a, lo, hi) \<notin> L"
  obtains p' bs' where "deallocate c (Some a) p = Some (p', [])" "pool_rep c p' bs'" "live c 0 bs' = L"
proof -
  have "(a, lo, hi) \<in> live c 0 bs" unfolding assms(3) by (rule insertI1)
  from deallocate_spec [OF assms(1,2) this] obtain p' bs' where
    "deallocate c (Some a) p = Some (p', [])" "pool_rep c p' bs'" "live c 0 bs' = live c 0 bs - {(a, lo, hi)}"
    by (elim exE conjE) (rule that)
  moreover have "insert (a, lo, hi) L - {(a, lo, hi)} = L" using assms(4) by simp
  ultimately show thesis using that assms(3) by simp
qed

lemma align_32:
  assumes "wf_target c" "kAlign c \<le> 64"
  obtains j where "effective_align c 32 = 2 ^ j" "j < word_bits c" "(2 :: nat) ^ j \<le> 64" "\<forall>x :: nat. x mod 2 ^ j = 0 \<longrightarrow> and x 31 = 0"
proof -
  obtain k where k: "k < word_bits c" "kAlign c = 2 ^ k" using kAlign_pow2 [OF assms(1)] by blast
  have w: "32 \<le> word_bits c" using assms(1) by (simp add: wf_target_def)
  have m: "and x 31 = x mod 32" for x :: nat using and_mask_mod [of x 5] by simp
  show thesis
  proof (cases "32 < kAlign c")
    case True
    then have "(2 :: nat) ^ 5 < 2 ^ k" using k(2) by simp
    then have "5 < k" by (rule power_less_imp_less_exp [rotated]) simp
    then have "(2 :: nat) ^ 5 dvd 2 ^ k" by (intro le_imp_power_dvd) simp
    then have d: "(32 :: nat) dvd 2 ^ k" by simp
    have "and x 31 = 0" if "x mod 2 ^ k = 0" for x :: nat
      unfolding m using dvd_trans [OF d] that by (simp add: mod_eq_0_iff_dvd)
    moreover have "effective_align c 32 = 2 ^ k" using True k(2) by (simp add: effective_align_def)
    ultimately show thesis using that k assms(2) by simp
  next
    case False
    then have "effective_align c 32 = 2 ^ 5" by (simp add: effective_align_def)
    then show thesis using that [of 5] w m by simp
  qed
qed

text \<open>C32. The sketch \<open>FramePoolCheck\<close> prints OK three times in every round, on every target
  whose alignment and header take at most 64 bytes: the three allocations succeed, the
  over-aligned one is aligned, and freeing them in another order gives all memory back, so that
  the next round starts from a whole arena again. Nothing is reported to the error hook.\<close>

theorem frame_pool_check_passes:
  assumes "wf_target cc" and "pool_bytes cc = 2048" and "kAlign cc \<le> 64" and "kHeader cc \<le> 64" and "whole_pool cc p"
  shows "\<exists>peak p'. frame_pool_loop cc p = Some ([],
      [Print ''alloc='', Print ''OK'', Print '' over_aligned='', Print ''OK'', Print '' recovered='', Println ''OK'',
       Print ''capacity='', Print_int (int (kUsable cc)), Print '' peak_used='', Println_int peak, Wait_ms 1000], p') \<and>
    whole_pool cc p'"
proof -
  note wf = assms(1)
  obtain b where b: "pool_rep cc p [b]" "\<not> bh_allocated b" using assms(5) by (auto simp: whole_pool_def)
  have "0 < kAlign cc" using kAlign_pow2 [OF wf] by auto
  then have "pool_bytes cc mod kAlign cc < kAlign cc" by (rule mod_less_divisor)
  then have usable: "1984 \<le> kUsable cc" "kUsable cc \<le> 2048" unfolding kUsable_def assms(2) using assms(3) by linarith+
  have "blk_size b = kUsable cc" using pool_rep_total [OF b(1)] by simp
  then have f0: "one_free cc p [b] 1984" using b usable by (simp add: one_free_def)
  obtain k where k: "effective_align cc (kAlign cc) = 2 ^ k" "k < word_bits cc" "(2 :: nat) ^ k \<le> 64"
    using kAlign_pow2 [OF wf] assms(3) by (auto simp: effective_align_def)
  obtain j where j: "effective_align cc 32 = 2 ^ j" "j < word_bits cc" "(2 :: nat) ^ j \<le> 64"
    "\<forall>x :: nat. x mod 2 ^ j = 0 \<longrightarrow> and x 31 = 0"
    by (rule align_32 [OF wf assms(3)])
  have n1: "2 * kHeader cc + 2 ^ k + 64 + 2 * kAlign cc \<le> 1984" using assms(3,4) k(3) by simp
  obtain a p1 bs1 lo1 hi1 where A: "allocate cc 64 (kAlign cc) p = Some (Some a, p1)"
    "one_free cc p1 bs1 (1984 - (kHeader cc + 2 ^ k + 64 + kAlign cc))"
    "live cc 0 bs1 = insert (a, lo1, hi1) (live cc 0 [b])"
    by (rule alloc_fits [OF wf f0 k(1,2) n1])
  have n2: "2 * kHeader cc + 2 ^ j + 200 + 2 * kAlign cc \<le> 1984 - (kHeader cc + 2 ^ k + 64 + kAlign cc)"
    using assms(3,4) k(3) j(3) by simp
  obtain b2 p2 bs2 lo2 hi2 where B: "allocate cc 200 32 p1 = Some (Some b2, p2)"
    "one_free cc p2 bs2 (1984 - (kHeader cc + 2 ^ k + 64 + kAlign cc) - (kHeader cc + 2 ^ j + 200 + kAlign cc))"
    "live cc 0 bs2 = insert (b2, lo2, hi2) (live cc 0 bs1)" "(b2, lo2, hi2) \<notin> live cc 0 bs1" "b2 mod 2 ^ j = 0"
    by (rule alloc_fits [OF wf A(2) j(1,2) n2])
  have n3: "2 * kHeader cc + 2 ^ k + 16 + 2 * kAlign cc \<le>
      1984 - (kHeader cc + 2 ^ k + 64 + kAlign cc) - (kHeader cc + 2 ^ j + 200 + kAlign cc)"
    using assms(3,4) k(3) j(3) by simp
  obtain d p3 bs3 lo3 hi3 n where C: "allocate cc 16 (kAlign cc) p2 = Some (Some d, p3)" "one_free cc p3 bs3 n"
    "live cc 0 bs3 = insert (d, lo3, hi3) (live cc 0 bs2)" "(d, lo3, hi3) \<notin> live cc 0 bs2"
    by (rule alloc_fits [OF wf B(2) k(1,2) n3])
  have none: "live cc 0 [b] = {}" using b(2) by simp
  let ?a = "(a, lo1, hi1)" and ?b = "(b2, lo2, hi2)" and ?d = "(d, lo3, hi3)"
  have ne: "?a \<noteq> ?b" "?d \<noteq> ?a" "?d \<noteq> ?b" using A(3) B(3,4) C(4) none by auto
  have l3: "live cc 0 bs3 = insert ?b {?a, ?d}" using A(3) B(3) C(3) none by auto
  have r3: "pool_rep cc p3 bs3" using C(2) by (simp add: one_free_def)
  obtain p4 bs4 where D: "deallocate cc (Some b2) p3 = Some (p4, [])" "pool_rep cc p4 bs4" "live cc 0 bs4 = {?a, ?d}"
    by (rule freed [OF wf r3 l3]) (use ne in auto)
  obtain p5 bs5 where E: "deallocate cc (Some a) p4 = Some (p5, [])" "pool_rep cc p5 bs5" "live cc 0 bs5 = {?d}"
    by (rule freed [OF wf D(2,3)]) (use ne in auto)
  obtain p6 bs6 where F: "deallocate cc (Some d) p5 = Some (p6, [])" "pool_rep cc p6 bs6" "live cc 0 bs6 = {}"
    by (rule freed [OF wf E(2,3)]) auto
  have al: "and b2 31 = 0" using j(4) B(5) by simp
  from full_recovery [OF wf F(2,3)] obtain x where x: "bs6 = [x]" "\<not> bh_allocated x" "bytes_used p6 = 0"
    "bytes_free cc p6 = kUsable cc" by blast
  have u: "u32 (int (kUsable cc)) = int (kUsable cc)" using usable by (simp add: u32_def)
  have "whole_pool cc p6" using F(2) x(1,2) by (auto simp: whole_pool_def)
  moreover have "frame_pool_loop cc p = Some ([],
      [Print ''alloc='', Print ''OK'', Print '' over_aligned='', Print ''OK'', Print '' recovered='', Println ''OK'',
       Print ''capacity='', Print_int (int (kUsable cc)), Print '' peak_used='',
       Println_int (u32 (int (peak_bytes_used p6))), Wait_ms 1000], p6)"
    by (simp add: frame_pool_loop_def A(1) B(1) C(1) D(1) E(1) F(1) x(3,4) al u verdict_def)
  ultimately show ?thesis by blast
qed

section \<open>ClockMonotonic\<close>

lemma clock_batch_outcome:
  "clock_batch reads n (Suc r) (reads r) = (ok, previous, k) \<Longrightarrow>
    (ok \<longleftrightarrow> (\<forall>i < n. reads (r + i) \<le> reads (r + i + 1))) \<and> (ok \<longrightarrow> previous = reads (r + n) \<and> k = r + n + 1)"
proof (induction n arbitrary: r)
  case (Suc n)
  have all: "(\<forall>i < Suc n. reads (r + i) \<le> reads (r + i + 1)) \<longleftrightarrow>
      reads r \<le> reads (Suc r) \<and> (\<forall>i < n. reads (Suc r + i) \<le> reads (Suc r + i + 1))"
    by (auto simp: less_Suc_eq_0_disj)
  show ?case
  proof (cases "reads (Suc r) < reads r")
    case True
    then show ?thesis using Suc.prems all by (auto simp: Let_def)
  next
    case False
    then have "clock_batch reads n (Suc (Suc r)) (reads (Suc r)) = (ok, previous, k)"
      using Suc.prems by (simp add: Let_def)
    from Suc.IH [OF this] all False show ?thesis by (simp add: not_less)
  qed
qed auto

text \<open>C34. The verdict of the sketch \<open>ClockMonotonic\<close> is exact. A round enters the wait that
  depends on the clock, after printing no FAIL, if and only if no read of the batch is below the
  one before it, the last is above the first, and the first is not below the last read of the
  round before; it then keeps the last read for the next round.\<close>

theorem clock_verdict_exact:
  assumes "clock_monotonic_loop reads s = (out, s')"
  defines "r \<equiv> read_count s"
  defines "healthy \<equiv> (\<forall>i < 200000. reads (r + i) \<le> reads (r + i + 1)) \<and> reads r < reads (r + 200000) \<and>
    (s_have_last s \<longrightarrow> s_last s \<le> reads r)"
  shows "(Wait_ms 1000 \<in> set out \<longleftrightarrow> healthy) \<and>
    (healthy \<longleftrightarrow> {Println ''FAIL'', Println ''FAIL(frozen?)'', Println ''FAIL(rollback)''} \<inter> set out = {}) \<and>
    (healthy \<longrightarrow> s' = \<lparr>s_last = reads (r + 200000), s_have_last = True, read_count = r + 200001\<rparr>)"
proof -
  obtain ok previous k where b: "clock_batch reads 200000 (Suc r) (reads r) = (ok, previous, k)" by (rule prod_cases3)
  note o = clock_batch_outcome [OF b]
  have loop: "clock_monotonic_loop reads s =
      (let batch_start = reads r; progressed = (previous > batch_start);
           cross_ok = (\<not> s_have_last s \<or> batch_start \<ge> s_last s);
           s1 = s\<lparr>s_last := previous, s_have_last := True, read_count := k\<rparr>;
           report =
             [Print ''monotonic='', Println (verdict ok),
              Print ''progressed_in_batch='', Println (if progressed then ''OK'' else ''FAIL(frozen?)''),
              Print ''cross_batch='',
              Println (if \<not> s_have_last s then ''n/a(first batch)'' else if cross_ok then ''OK'' else ''FAIL(rollback)''),
              Print ''now_us_low32='', Println_int (uint (and previous 0xFFFFFFFF))]
       in if ok \<and> progressed \<and> cross_ok then (report @ [Wait_ms 1000], s1)
          else (report @ [Println ''clock unhealthy: skipping clock-dependent delay''], busy_idle s1))"
    unfolding clock_monotonic_loop_def Let_def Suc_eq_plus1 [symmetric] r_def [symmetric] b prod.case by (rule refl)
  show ?thesis
  proof (cases ok)
    case True
    then have mono: "\<forall>i < 200000. reads (r + i) \<le> reads (r + i + 1)" and p: "previous = reads (r + 200000)" "k = r + 200001"
      using o by simp_all
    have h: "healthy \<longleftrightarrow> reads r < reads (r + 200000) \<and> (s_have_last s \<longrightarrow> s_last s \<le> reads r)"
      using mono unfolding healthy_def by blast
    have fields: "s\<lparr>s_last := x, s_have_last := True, read_count := k\<rparr> =
        \<lparr>s_last = x, s_have_last = True, read_count = k\<rparr>" for x by (cases s) simp
    show ?thesis
      by (cases "reads r < reads (r + 200000)"; cases "s_have_last s"; cases "s_last s \<le> reads r")
        (use assms(1) p True fields in \<open>auto simp: loop Let_def verdict_def h\<close>)
  next
    case False
    then have "\<not> (\<forall>i < 200000. reads (r + i) \<le> reads (r + i + 1))" using o by simp
    then have h: "\<not> healthy" unfolding healthy_def by blast
    show ?thesis using assms(1) False h unfolding loop
      by (auto simp: Let_def verdict_def)
  qed
qed

section \<open>TaskLifecycle\<close>

text \<open>A task that is created and destroyed without being scheduled leaves nothing behind.\<close>

lemma lazy_task_lifetime:
  fixes s :: "('v, 'a) world_scheme"
  assumes o: "own c {} s" and free: "tasks s t = None" and a: "allocate c sz (kAlign c) (fpool s) = Some (a, p1)"
    and s1: "do_call c (New_task sz t p) s = Some (y1, s1)" and s2: "do_call c (Drop_task t) s1 = Some (y2, s2)"
  shows "task_bool t s1 = (a \<noteq> None) \<and> frames s2 = frames s \<and> tasks s2 = tasks s \<and> slots s2 = slots s \<and>
    bytes_used (fpool s2) = bytes_used (fpool s) \<and> board s2 = board s"
proof -
  have wf: "wf_target c" using ownD(2) [OF o] by (simp add: arena_frames_def)
  obtain bs where bs: "pool_rep c (fpool s) bs" using ownD(2) [OF o] by (auto simp: arena_frames_def)
  have al: "kAlign c < 2 ^ word_bits c" using kAlign_pow2 [OF wf] by auto
  show ?thesis
  proof (cases a)
    case None
    have "p1 = count_failure c (fpool s)" using allocate_spec [OF wf bs al, of sz] a None by auto
    moreover have "s1 = task_default t (on_error Frame_pool_exhausted (s\<lparr>fpool := p1\<rparr>))"
      using s1 free None a
      by (simp add: do_call_def task_bool_def coroutine_call_def frame_alloc_def task_default_def set_task_def on_error_def)
    moreover have "s2 = s1"
      using s2 calculation(2) by (simp add: do_call_def task_destructor_def task_reset_def task_default_def)
    moreover have "(tasks s)(t := None) = tasks s" using free by auto
    ultimately show ?thesis using None free
      by (simp add: task_bool_def task_default_def set_task_def on_error_def count_failure_def)
  next
    case (Some f)
    obtain r p' where "allocate c sz (kAlign c) (fpool s) = Some (r, p')" "set_option r \<inter> dom (frames s) = {}"
      by (rule arena_alloc [OF ownD(2) [OF o], of sz])
    then have new: "f \<notin> dom (frames s)" using a Some by auto
    obtain p2 where p2: "deallocate c (Some f) p1 = Some (p2, [])" "bytes_used p2 = bytes_used (fpool s)"
      using alloc_dealloc_restores [OF wf bs al, of sz f p1] a Some by auto
    have e1: "s1 = set_frame f (Some (Initial p)) (set_task t (Some f) (s\<lparr>fpool := p1\<rparr>))"
      using s1 free Some a by (simp add: do_call_def task_bool_def coroutine_call_def frame_alloc_def)
    have t1: "tasks s1 t = Some f" "frames s1 f = Some (Initial p)" by (simp_all add: e1 set_frame_def set_task_def)
    have e2: "s2 = free_frame c f (set_task t None s1)"
      using s2 t1 by (simp add: do_call_def task_destructor_def task_reset_def Let_def destroy_frame_def same_set_task)
    have f1: "fpool s1 = p1" "board s1 = board s" "slots s1 = slots s" "tasks s1 = (tasks s)(t \<mapsto> f)"
      "frames s1 = (frames s)(f \<mapsto> Initial p)" by (simp_all add: e1 set_frame_def set_task_def)
    have "(frames s)(f := None) = frames s" "(tasks s)(t := None) = tasks s" using new free by auto
    then show ?thesis
      using Some t1 p2 f1
      by (simp add: e2 free_frame_def set_frame_def frame_delete_def task_bool_def) (simp add: set_task_def)
  qed
qed

text \<open>C33. The sketch \<open>TaskLifecycle\<close>, in every state in which a program may call it: each round
  returns, the body of the task that is never scheduled does not run, and destroying the task
  brings back every frame, every byte of the pool and every slot; the task owns a frame unless the pool
  has no room for one.\<close>

theorem task_lifecycle_passes:
  fixes s :: "(payload, 'a) world_scheme"
  assumes "between c s" and "tasks s 0 = None" and "var s 0 = 0"
  shows "\<exists>s' room free failures. task_lifecycle_loop c sz s = Some s' \<and>
    (room \<longleftrightarrow> \<not> (\<exists>p. allocate c sz (kAlign c) (fpool s) = Some (None, p))) \<and>
    device_log (board s') = device_log (board s) @
      [Print ''owned='', Print (verdict room), Print '' body_ran='', Print ''OK(lazy)'',
       Print '' recovered='', Println ''OK'', Print ''pool_free='', Print_int free,
       Print '' alloc_failures='', Println_int failures, Wait_ms 1000] \<and>
    frames s' = frames s \<and> tasks s' = tasks s \<and> slots s' = slots s \<and> bytes_used (fpool s') = bytes_used (fpool s) \<and>
    between c s' \<and> var s' 0 = 0"
proof -
  note o = between_inv(3) [OF assms(1)]
  obtain a p1 where a: "allocate c sz (kAlign c) (fpool s) = Some (a, p1)"
    using arena_alloc [OF ownD(2) [OF o], of sz] by metis
  obtain y1 s1 where s1: "do_call c (New_task sz 0 demo) s = Some (y1, s1)"
    using do_call_returns [OF between_inv [OF assms(1)], of "New_task sz 0 demo"] assms(2) by auto
  obtain y2 s2 where s2: "do_call c (Drop_task 0) s1 = Some (y2, s2)" by (simp add: do_call_def)
  have b: "between c s2" using between_call [OF between_call [OF assms(1) s1] s2] .
  note same = lazy_task_lifetime [OF o assms(2) a s1 s2]
  let ?out = "[Print ''owned='', Print (verdict (a \<noteq> None)), Print '' body_ran='', Print ''OK(lazy)'',
       Print '' recovered='', Println ''OK'', Print ''pool_free='', Print_int (u32 (int (bytes_free c (fpool s2)))),
       Print '' alloc_failures='', Println_int (u32 (int (allocation_failures (fpool s2)))), Wait_ms 1000]"
  have "task_lifecycle_loop c sz s = Some (log_all ?out s2)"
    using same assms(3) by (simp add: task_lifecycle_loop_def s1 s2 verdict_def Let_def)
  moreover have "(a \<noteq> None) \<longleftrightarrow> \<not> (\<exists>p. allocate c sz (kAlign c) (fpool s) = Some (None, p))" using a by auto
  moreover have "device_log (board (log_all ?out s2)) = device_log (board s) @ ?out" "var (log_all ?out s2) 0 = 0"
    "frames (log_all ?out s2) = frames s" "tasks (log_all ?out s2) = tasks s" "slots (log_all ?out s2) = slots s"
    "bytes_used (fpool (log_all ?out s2)) = bytes_used (fpool s)"
    using same assms(3) by (simp_all add: log_all_def)
  moreover have "between c (log_all ?out s2)" using b by simp
  ultimately show ?thesis
    by (intro exI [of _ "log_all ?out s2"] exI [of _ "a \<noteq> None"] exI [of _ "u32 (int (bytes_free c (fpool s2)))"]
        exI [of _ "u32 (int (allocation_failures (fpool s2)))"]) (simp only: simp_thms)
qed

end
