(* ===== verification/Sketch_Turns.thy ===== *)
theory Sketch_Turns
  imports Sketch_Verdicts
begin

text \<open>
  The run of a sketch, turn by turn: what \<open>spawn\<close> does in \<open>setup()\<close>, the turns of a poll, and
  the turn of a coroutine that runs to its next suspension. The properties of single sketches
  are invariants of these turns.
\<close>

section \<open>Spawning\<close>

lemma do_call_log: "sched_inv s \<Longrightarrow> program_ok s \<Longrightarrow> do_call c x s = Some (y, s') \<Longrightarrow> \<exists>es. hook_log s' = hook_log s @ es"
  using do_call_tame [of s c x y s'] quiet_evolves [of s s'] by (auto simp: tame_def evolves_def)

lemma spawned_effect:
  fixes s s' :: "('v, 'a) world_scheme"
  assumes b: "between c s" and n: "tasks_empty s" and r: "run_calls c (spawned sz t p) s = Some s'"
    and quiet_hook: "hook_log s' = hook_log s"
  obtains i f where "i < max_tasks s" "handle_of s i = None" "f \<notin> dom (frames s)"
    "handle_of s' = (handle_of s)(i := Some f)" "ready_list s' = ready_list s @ [i]" "max_tasks s' = max_tasks s"
    "sched.more s' = sched.more (set_frame f (Some (Initial p)) s)"
proof -
  obtain y1 s1 y2 s2 y3 where s1: "do_call c (New_task sz t p) s = Some (y1, s1)"
    and s2: "do_call c (Spawn_task t) s1 = Some (y2, s2)" and s3: "do_call c (Drop_task t) s2 = Some (y3, s')"
    using r by (auto simp: spawned_def split: option.splits)
  have b1: "between c s1" and b2: "between c s2" using between_call b s1 s2 by blast+
  obtain e1 e2 e3 where "hook_log s1 = hook_log s @ e1" "hook_log s2 = hook_log s1 @ e2" "hook_log s' = hook_log s2 @ e3"
    using do_call_log [OF between_inv(1,2) [OF b] s1] do_call_log [OF between_inv(1,2) [OF b1] s2]
      do_call_log [OF between_inv(1,2) [OF b2] s3] by blast
  then have h: "hook_log s1 = hook_log s" "hook_log s2 = hook_log s1" using quiet_hook by simp_all
  obtain a p' where a: "allocate c sz (kAlign c) (fpool s) = Some (a, p')" "set_option a \<inter> dom (frames s) = {}"
    by (rule arena_alloc [OF ownD(2) [OF between_inv(3) [OF b]], of sz])
  have "a \<noteq> None"
  proof
    assume "a = None"
    then have "hook_log s1 = hook_log s @ [Frame_pool_exhausted]"
      using s1 n a(1) by (auto simp: do_call_def task_bool_def coroutine_call_def frame_alloc_def task_default_def Let_def tasks_empty_def
          set_task_def on_error_def)
    then show False using h(1) by simp
  qed
  then obtain f where f: "a = Some f" by blast
  let ?s1 = "set_frame f (Some (Initial p)) (set_task t (Some f) (s\<lparr>fpool := p'\<rparr>))"
  have e1: "s1 = ?s1"
    using s1 n a(1) f by (simp add: do_call_def task_bool_def coroutine_call_def frame_alloc_def tasks_empty_def)
  have v1: "tasks s1 t = Some f" "shutting_down s1 = shutting_down s" "max_tasks s1 = max_tasks s" "handle_of s1 = handle_of s"
    "ready_list s1 = ready_list s" "sched.more s1 = sched.more (set_frame f (Some (Initial p)) s)"
    by (simp_all add: e1 set_frame_def set_task_def ready_list_def) (cases s; simp)
  have e2: "s2 = snd (schedule t s1)" using s2 by (simp add: do_call_def spawn_def)
  have nd: "\<not> shutting_down s1" using b1 by (simp add: between_def outside_def)
  have "fst (acquire_slot s1) \<noteq> None"
  proof
    assume "fst (acquire_slot s1) = None"
    then have "s2 = on_error Task_limit s1"
      using e2 v1(1) nd acquire_slot_shape [of s1] by (auto simp: schedule_cases split: option.splits prod.splits)
    then show False using h(2) by simp
  qed
  then obtain i where i: "acquire_slot s1 = (Some i, set_generation i (gen_of s1 i + 1) s1)"
    using acquire_slot_shape [of s1] by auto
  note aq = acquire_Some [OF i]
  let ?u = "set_task t None s1"
  have e2': "s2 = adopt i (Some f) None (set_generation i (gen_of s1 i + 1) ?u)"
    using e2 v1(1) nd i by (simp add: schedule_cases Let_def set_task_upd_slot)
  have free: "handle_of s1 i = None"
    using sched_invD(7) [OF between_inv(1) [OF b1]] aq(1,2) by (simp add: frame_ok_def)
  have rl: "ready_list s2 = ready_list s1 @ [i]"
  proof -
    have r: "ready_ok (set_generation i (gen_of s1 i + 1) ?u)"
      "ready_list (set_generation i (gen_of s1 i + 1) ?u) = ready_list s1"
      by (rule ready_ok_keep [OF sched_invD(5) [OF between_inv(1) [OF b1]]]; simp)+
    show ?thesis unfolding e2' by (subst adopt_fifo(2) [OF r(1)]) (use aq(1,2) r(2) in simp_all)
  qed
  have "tasks s2 t = None" by (simp add: e2')
  then have e3: "s' = s2" using s3 by (simp add: do_call_def task_destructor_def task_reset_def)
  show thesis
    by (rule that [of i f]) (use aq(1) free v1 rl a(2) f in \<open>simp_all add: e3 e2'\<close>)
qed

text \<open>A spawn with room in the pool and a slot reports nothing.\<close>

definition free_slots :: "'a sched_scheme \<Rightarrow> nat set" where
  "free_slots s = {j. j < max_tasks s \<and> st_of s j = Free \<and> gen_of s j \<noteq> max_generation}"

lemma spawned_quiet:
  fixes s s' :: "('v, 'a) world_scheme"
  assumes b: "between c s" and n: "tasks_empty s" and r: "run_calls c (spawned sz t p) s = Some s'"
    and a: "allocate c sz (kAlign c) (fpool s) = Some (Some f, p')" and free: "free_slots s \<noteq> {}"
  shows "hook_log s' = hook_log s \<and> fpool s' = p' \<and> (\<exists>i. free_slots s - {i} \<subseteq> free_slots s')"
proof -
  let ?s1 = "set_frame f (Some (Initial p)) (set_task t (Some f) (s\<lparr>fpool := p'\<rparr>))"
  obtain y1 s1 y2 s2 y3 where s1: "do_call c (New_task sz t p) s = Some (y1, s1)"
    and s2: "do_call c (Spawn_task t) s1 = Some (y2, s2)" and s3: "do_call c (Drop_task t) s2 = Some (y3, s')"
    using r by (auto simp: spawned_def split: option.splits)
  have b1: "between c s1" using between_call [OF b s1] .
  have e1: "s1 = ?s1"
    using s1 n a by (simp add: do_call_def task_bool_def coroutine_call_def frame_alloc_def tasks_empty_def)
  have v1: "tasks s1 t = Some f" "hook_log s1 = hook_log s" "fpool s1 = p'" "max_tasks s1 = max_tasks s"
    "st_of s1 = st_of s" "gen_of s1 = gen_of s"
    by (simp_all add: e1 set_frame_def set_task_def fun_eq_iff)
  have nd: "\<not> shutting_down s1" using b1 by (simp add: between_def outside_def)
  have "fst (acquire_slot s1) \<noteq> None"
  proof
    assume "fst (acquire_slot s1) = None"
    then have "acquire_slot s1 = (None, s1)" using acquire_slot_shape [of s1] by auto
    from acquire_None(2) [OF this] free show False by (auto simp: free_slots_def v1 is_active_def)
  qed
  then obtain i where i: "acquire_slot s1 = (Some i, set_generation i (gen_of s1 i + 1) s1)"
    using acquire_slot_shape [of s1] by auto
  let ?s2 = "adopt i (Some f) None (set_generation i (gen_of s1 i + 1) (set_task t None s1))"
  have e2: "s2 = ?s2" using s2 v1(1) nd i by (simp add: do_call_def spawn_def schedule_cases Let_def set_task_upd_slot)
  have "tasks s2 t = None" by (simp add: e2)
  then have e3: "s' = s2" using s3 by (simp add: do_call_def task_destructor_def task_reset_def)
  have "free_slots s - {i} \<subseteq> free_slots s'"
    by (auto simp: e3 e2 free_slots_def v1)
  then show ?thesis by (auto simp: e3 e2 v1)
qed

text \<open>A setup that begins with a spawn and reports no error.\<close>

lemma run_calls_log: "between c s \<Longrightarrow> run_calls c xs s = Some s' \<Longrightarrow> \<exists>es. hook_log s' = hook_log s @ es"
proof (induction xs arbitrary: s)
  case (Cons x xs)
  then obtain y s1 where s1: "do_call c x s = Some (y, s1)" "run_calls c xs s1 = Some s'" by (auto split: option.splits)
  obtain e1 where "hook_log s1 = hook_log s @ e1" using do_call_log between_inv(1,2) Cons.prems(1) s1(1) by blast
  moreover obtain e2 where "hook_log s' = hook_log s1 @ e2"
    using Cons.IH [OF between_call [OF Cons.prems(1) s1(1)] s1(2)] by blast
  ultimately show ?case by simp
qed simp

lemma spawned_first:
  fixes s s' :: "('v, 'a) world_scheme"
  assumes b: "between c s" and n: "tasks_empty s" and r: "run_calls c (spawned sz t p @ xs) s = Some s'"
    and h: "hook_log s' = hook_log s"
  obtains s1 i f where "run_calls c xs s1 = Some s'" "between c s1" "tasks_empty s1" "hook_log s' = hook_log s1"
    "i < max_tasks s" "handle_of s i = None" "f \<notin> dom (frames s)"
    "handle_of s1 = (handle_of s)(i := Some f)" "ready_list s1 = ready_list s @ [i]" "max_tasks s1 = max_tasks s"
    "sched.more s1 = sched.more (set_frame f (Some (Initial p)) s)"
proof -
  obtain s1 where s1: "run_calls c (spawned sz t p) s = Some s1" "between c s1" "tasks_empty s1"
    by (rule spawned_returns [OF b n])
  then have x: "run_calls c xs s1 = Some s'" using r by (simp add: run_calls_append)
  obtain e1 e2 where "hook_log s1 = hook_log s @ e1" "hook_log s' = hook_log s1 @ e2"
    using run_calls_log [OF b s1(1)] run_calls_log [OF s1(2) x] by blast
  then have h1: "hook_log s1 = hook_log s" "hook_log s' = hook_log s1" using h by simp_all
  obtain i f where "i < max_tasks s" "handle_of s i = None" "f \<notin> dom (frames s)"
    "handle_of s1 = (handle_of s)(i := Some f)" "ready_list s1 = ready_list s @ [i]" "max_tasks s1 = max_tasks s"
    "sched.more s1 = sched.more (set_frame f (Some (Initial p)) s)"
    by (rule spawned_effect [OF b n s1(1) h1(1)])
  then show thesis by (rule that [OF x s1(2,3) h1(2)])
qed

section \<open>The turns of a poll\<close>

abbreviation "frames_inv c \<equiv> \<lambda>s. program_ok s \<and> own c {} s"

lemma more_fields:
  fixes s s' :: "('v, 'a) world_scheme"
  assumes "sched.more s' = sched.more s"
  shows "frames s' = frames s" "board s' = board s" "next_awaiter s' = next_awaiter s" "queues s' = queues s"
    "senders s' = senders s" "receivers s' = receivers s"
  using objects_of_more(3) [OF assms] world_of_more [of s' s] by simp_all

lemma poll_shape:
  fixes s :: "('v, 'a) world_scheme"
  assumes b: "between c s"
  obtains t where
    "poll (program c fallback) resolve_signals clock s =
      (fold (run_turn (program c fallback)) (ready_list t) t)\<lparr>in_poll := False\<rparr>"
    "at_rest (frames_inv c) t" "frames t = frames s" "board t = board s" "handle_of t = handle_of s"
    "max_tasks t = max_tasks s" "distinct (ready_list t)"
    "\<exists>ys. ready_list t = ready_list s @ ys"
proof -
  have rest: "at_rest (frames_inv c) s" "\<not> in_poll s" "\<not> shutting_down s"
    using b by (simp_all add: between_def outside_def at_rest_def)
  let ?x = "sampled resolve_signals clock s"
  let ?t = "process_due_timers ?x"
  note x = owned.sampled_inv [OF rest(1), of clock] and t = owned.timers_rest [OF owned.sampled_inv(1) [OF rest(1)], of clock]
  have fold: "poll (program c fallback) resolve_signals clock s =
      (fold (run_turn (program c fallback)) (ready_list ?t) ?t)\<lparr>in_poll := False\<rparr>"
    using owned.poll_pass_inv(1) [OF rest, where clock = clock and fallback = fallback] unfolding poll_def t(2) by simp
  let ?s = "s\<lparr>in_poll := True, now_us := clock\<rparr>"
  have inv: "sched_inv ?s" "program_ok ?s"
    using rest(1) owned.stable [OF _ step_same_clock(1)] by (auto simp: at_rest_def)
  obtain s' where "poll_external_signals ?s = Some s'" "calm ?s s'"
    by (rule poll_signals_calm [OF inv(1)]) (use inv(2) in \<open>simp add: program_ok_def\<close>)
  then have "calm ?s ?x" by (simp add: sampled_def resolve_signals_def)
  then have "q_world.more ?x = q_world.more ?s" by (simp add: calm_def)
  from world_of_more [OF this] have fx: "frames ?x = frames s" "board ?x = board s" by simp_all
  have "handle_of ?x = handle_of s"
    using resolve_signals_frames_kept [of ?s] by (simp add: frames_kept_def sampled_def)
  moreover have "handle_of ?t = handle_of ?x" "max_tasks ?t = max_tasks ?x" "sched.more ?t = sched.more ?x"
    using process_due_views [OF sched_invD(3), of ?x] x(1) by (simp_all add: at_rest_def)
  ultimately have v: "frames ?t = frames s" "board ?t = board s" "handle_of ?t = handle_of s" "max_tasks ?t = max_tasks s"
    using more_fields(1,2) [of ?t ?x] fx x(5) by simp_all
  have "distinct (ready_list ?t)"
    by (rule ready_okD(3) [OF sched_invD(5)]) (use t(1) in \<open>simp add: at_rest_def\<close>)
  moreover have "\<exists>ys. ready_list ?t = ready_list s @ ys" using x(6) t(2) by auto
  ultimately show thesis by (rule that [OF fold t(1) v])
qed

text \<open>A turn whose coroutine is suspended again at its end.\<close>

lemma turn_shape:
  fixes s :: "('v, 'a) world_scheme"
  assumes rest: "at_rest (frames_inv c) s" and rl: "ready_list s = i # rs" and h: "handle_of s i = Some f"
    and r: "resume_frame c fallback f (begin_run i s) = Some u" and sus: "frames u f = Some (In_await a k)"
  shows "frames (run_turn (program c fallback) i s) = frames u" "board (run_turn (program c fallback) i s) = board u"
    "handle_of (run_turn (program c fallback) i s) = handle_of u"
    "ready_list (run_turn (program c fallback) i s) = ready_list u"
    "sched.more (run_turn (program c fallback) i s) = sched.more u"
    "max_tasks (run_turn (program c fallback) i s) = max_tasks u"
proof -
  let ?p = "program c fallback"
  have res: "resumed ?p i s = u\<lparr>current := None\<rparr>"
    using h r by (simp add: resumed_def handle_resume_def program_def)
  have hu: "handle_of u i = Some f" using owned.resumed_inv(12) [of s c i rs fallback] rest rl h res by (simp add: at_rest_def)
  have nd: "\<not> handle_done ?p (handle_of (resumed ?p i s) i) (resumed ?p i s)"
    unfolding res using hu sus by (simp add: handle_done_def program_def frame_done_def)
  have "run_turn ?p i s = (if st_of (resumed ?p i s) i = Running then set_state i Suspended (resumed ?p i s) else resumed ?p i s)"
    using nd by (simp add: run_turn_eq Let_def)
  then have e: "run_turn ?p i s = u\<lparr>current := None\<rparr> \<or> run_turn ?p i s = set_state i Suspended (u\<lparr>current := None\<rparr>)"
    by (auto simp: res)
  then show m: "sched.more (run_turn ?p i s) = sched.more u" by auto
  show "frames (run_turn ?p i s) = frames u" "board (run_turn ?p i s) = board u" using more_fields(1,2) [OF m] by simp_all
  show "handle_of (run_turn ?p i s) = handle_of u" "max_tasks (run_turn ?p i s) = max_tasks u" using e by (auto simp: fun_eq_iff)
  have "ready_list (set_state i Suspended (u\<lparr>current := None\<rparr>)) = ready_list (u\<lparr>current := None\<rparr>)"
    by (rule ready_list_cong) simp_all
  moreover have "ready_list (u\<lparr>current := None\<rparr>) = ready_list u" by (simp add: ready_list_def)
  ultimately show "ready_list (run_turn ?p i s) = ready_list u" using e by auto
qed

section \<open>Resuming a sketch's coroutine\<close>

lemma board_calls [simp]:
  "do_call c (load v) s = Some (From_board (Value (var s v)), s)"
  "do_call c (store v n) s = Some (From_board Nothing, set_static v n s)"
  "do_call c (dev d) s = Some (From_board Nothing, log_all [d] s)"
  by (simp_all add: do_call_def set_static_def log_all_def)

lemma log_all_simps [simp]:
  "log_all es (log_all ds s) = log_all (ds @ es) s" "var (log_all ds s) v = var s v" "log_all [] s = s"
  "set_static v n (log_all ds s) = log_all ds (set_static v n s)" "var (set_static v n s) w = (if w = v then n else var s w)"
  by (simp_all add: log_all_def set_static_def)

lemma run_steps:
  "run_body c fallback f (body at m) s = run_body c fallback f (steps at (fst (at m)) (snd (at m))) s"
  "run_body c fallback f (steps at (x # ys) e) s =
    (case do_call c x s of None \<Rightarrow> None | Some (_, s1) \<Rightarrow> run_body c fallback f (steps at ys e) s1)"
  "run_body c fallback f (steps at [] Return) s = Some (set_frame f (Some Final) s)"
  "run_body c fallback f (steps at [] (Ask x k)) s =
    (case do_call c x s of None \<Rightarrow> None | Some (y, s1) \<Rightarrow> run_body c fallback f (body at (k y)) s1)"
  "run_body c fallback f (steps at [] (Await w k)) s =
    (case co_await c fallback (Some f) w s of
       None \<Rightarrow> None
     | Some (Inl y, s1) \<Rightarrow> run_body c fallback f (body at (k y)) s1
     | Some (Inr a, s1) \<Rightarrow> Some (set_frame f (Some (In_await a (\<lambda>r. body at (k r)))) s1))"
  by (simp add: body_def) (subst run_body.simps, simp add: steps_simps)+

lemma co_await_timed [simp]:
  "co_await c fallback h On_yield s = Some (Inr Yield_awaiter, yield_current s)"
  "co_await c fallback h (On_delay d) s = Some (Inr (Delay_awaiter d), arm_current_timer d s)"
  by (simp_all add: co_await_def await_begin_def await_ready_def await_suspend_def yield_suspend_def delay_suspend_def Let_def)

lemma await_finish_timed [simp]:
  "await_finish c fallback Yield_awaiter s = Some (Unit, s)" "await_finish c fallback (Delay_awaiter d) s = Some (Unit, s)"
  by (simp_all add: await_finish_def await_resume_def await_end_def)

lemma arm_fields:
  "handle_of (arm_current_timer d s) = handle_of s" "max_tasks (arm_current_timer d s) = max_tasks s"
  "sched.more (arm_current_timer d s) = sched.more s"
  by (auto simp: arm_current_timer_def yield_current_def Let_def fun_eq_iff split: option.split prod.split)

lemma set_static_fields [simp]:
  "handle_of (set_static v n s) = handle_of s" "max_tasks (set_static v n s) = max_tasks s" "frames (set_static v n s) = frames s"
  "ready_list (set_static v n s) = ready_list s" "current (set_static v n s) = current s" "st_of (set_static v n s) = st_of s"
  by (simp_all add: set_static_def ready_list_def)

lemma log_all_fields [simp]:
  "handle_of (log_all ds s) = handle_of s" "max_tasks (log_all ds s) = max_tasks s" "frames (log_all ds s) = frames s"
  "ready_list (log_all ds s) = ready_list s" "current (log_all ds s) = current s" "st_of (log_all ds s) = st_of s"
  by (simp_all add: log_all_def ready_list_def)

lemma set_frame_fields [simp]:
  "handle_of (set_frame f x s) = handle_of s" "max_tasks (set_frame f x s) = max_tasks s"
  "frames (set_frame f x s) = (frames s)(f := x)" "ready_list (set_frame f x s) = ready_list s" "board (set_frame f x s) = board s"
  by (simp_all add: set_frame_def ready_list_def)

end
