(* ===== verification/Sketch_Fairness.thy ===== *)
theory Sketch_Fairness
  imports Sketch_Turns
begin

text \<open>
  The example \<open>03_YieldFairness\<close>: both counters advance by one in every poll, whatever the
  clock does and whatever the timed task does between them.
\<close>

section \<open>One resumption\<close>

definition counter_script :: "nat \<Rightarrow> payload script" where
  "counter_script v = body (counter_at v) Counter_step"

definition counting :: "nat \<Rightarrow> payload frame \<Rightarrow> bool" where
  "counting v x \<longleftrightarrow> x = Initial (counter_script v) \<or> x = In_await Yield_awaiter (\<lambda>_. counter_script v)"

definition reporting :: "payload frame \<Rightarrow> bool" where
  "reporting x \<longleftrightarrow> x = Initial (body reporter_at Reporter_begin) \<or>
     (\<exists>d. x = In_await (Delay_awaiter d) (\<lambda>_. body reporter_at Reporter_woken))"

lemma counter_resumed:
  assumes "frames s f = Some x" "counting v x"
  shows "resume_frame c fallback f s = Some (set_frame f (Some (In_await Yield_awaiter (\<lambda>_. counter_script v)))
    (yield_current (set_static v (u32 (var s v + 1)) s)))"
  using assms by (auto simp: resume_frame_def counting_def counter_script_def run_steps)

lemma reporter_resumed:
  assumes "frames s f = Some x" "reporting x"
  shows "\<exists>ds. resume_frame c fallback f s = Some (set_frame f (Some (In_await (Delay_awaiter (delay_ms 1000)) (\<lambda>_. body reporter_at Reporter_woken)))
    (arm_current_timer (delay_ms 1000) (log_all ds s)))"
proof -
  have "\<exists>ds. resume_frame c fallback f s = Some (set_frame f (Some (In_await (Delay_awaiter (delay_ms 1000))
      (\<lambda>_. body reporter_at Reporter_woken))) (arm_current_timer (delay_ms 1000) (log_all ds s)))"
    if "x = Initial (body reporter_at Reporter_begin)"
    using assms(1) that by (intro exI [of _ "[]"]) (simp add: resume_frame_def run_steps)
  moreover have ?thesis if "x = In_await (Delay_awaiter d) (\<lambda>_. body reporter_at Reporter_woken)" for d
    using assms(1) that by (simp add: resume_frame_def run_steps) blast
  ultimately show ?thesis using assms(2) by (auto simp: reporting_def)
qed

section \<open>One turn\<close>

text \<open>The slots \<open>i\<close> and \<open>j\<close> hold the counters, all others reporters.\<close>

definition fair :: "nat \<Rightarrow> nat \<Rightarrow> (payload, 'a) world_scheme \<Rightarrow> bool" where
  "fair i j s \<longleftrightarrow> i \<noteq> j \<and>
     (\<exists>f x. handle_of s i = Some f \<and> frames s f = Some x \<and> counting 0 x) \<and>
     (\<exists>f x. handle_of s j = Some f \<and> frames s f = Some x \<and> counting 1 x) \<and>
     (\<forall>k f. k < max_tasks s \<and> k \<noteq> i \<and> k \<noteq> j \<and> handle_of s k = Some f \<longrightarrow>
        (\<exists>x. frames s f = Some x \<and> reporting x))"

lemma fair_update:
  assumes f: "fair i j s" and o: "owners_ok s" and ij: "i < max_tasks s" "j < max_tasks s"
    and k: "k < max_tasks s" "handle_of s k = Some f"
    and s': "frames s' = (frames s)(f := Some x)" "handle_of s' = handle_of s" "max_tasks s' = max_tasks s"
    and x: "k = i \<Longrightarrow> counting 0 x" "k = j \<Longrightarrow> counting 1 x" "k \<noteq> i \<Longrightarrow> k \<noteq> j \<Longrightarrow> reporting x"
  shows "fair i j s'"
proof -
  have other: "g \<noteq> f" if "m \<noteq> k" "m < max_tasks s" "handle_of s m = Some g" for m g
    using owners_okD(2) [OF o, of m k g] that k by auto
  have fr: "frames s' g = (if g = f then Some x else frames s g)" for g by (simp add: s'(1))
  have counter: "\<exists>g y. handle_of s' m = Some g \<and> frames s' g = Some y \<and> counting v y"
    if "m < max_tasks s" "m = k \<Longrightarrow> counting v x" "\<exists>g y. handle_of s m = Some g \<and> frames s g = Some y \<and> counting v y" for m v
    using that other [of m] k(2) by (cases "m = k") (auto simp: fr s'(2))
  have reporter: "\<exists>y. frames s' g = Some y \<and> reporting y"
    if "m < max_tasks s" "m \<noteq> i" "m \<noteq> j" "handle_of s m = Some g" for m g
    using that other [of m g] k(2) x(3) f by (cases "m = k") (auto simp: fr fair_def)
  have "\<exists>g y. handle_of s' i = Some g \<and> frames s' g = Some y \<and> counting 0 y"
    by (rule counter [OF ij(1)]) (use x(1) f in \<open>auto simp: fair_def\<close>)
  moreover have "\<exists>g y. handle_of s' j = Some g \<and> frames s' g = Some y \<and> counting 1 y"
    by (rule counter [OF ij(2)]) (use x(2) f in \<open>auto simp: fair_def\<close>)
  moreover have "\<forall>m g. m < max_tasks s \<and> m \<noteq> i \<and> m \<noteq> j \<and> handle_of s m = Some g \<longrightarrow>
      (\<exists>y. frames s' g = Some y \<and> reporting y)" using reporter by blast
  ultimately show ?thesis using f by (simp add: fair_def s'(2,3))
qed

lemma fair_turn:
  fixes s :: "(payload, 'a) world_scheme" and fallback
  assumes rest: "at_rest (frames_inv c) s" and rl: "ready_list s = k # rs" and f: "fair i j s"
    and ij: "i < max_tasks s" "j < max_tasks s"
  defines "s' \<equiv> run_turn (program c fallback) k s"
  shows "fair i j s'" "max_tasks s' = max_tasks s"
    "var s' 0 = (if k = i then u32 (var s 0 + 1) else var s 0)" "var s' 1 = (if k = j then u32 (var s 1 + 1) else var s 1)"
    "k \<in> {i, j} \<Longrightarrow> ready_list s' = rs @ [k]" "handle_of s' = handle_of s"
proof -
  have inv: "sched_inv s" and o: "owners_ok s" using rest ownD(1) by (auto simp: at_rest_def)
  let ?b = "begin_run k s"
  note b = begin_run_inv [OF inv rl]
  have fb: "frames ?b = frames s" "board ?b = board s" using more_fields(1,2) [of ?b s] by simp_all
  obtain g where g: "handle_of s k = Some g" using b(6) by blast
  let ?ok = "fair i j s' \<and> max_tasks s' = max_tasks s \<and>
    var s' 0 = (if k = i then u32 (var s 0 + 1) else var s 0) \<and> var s' 1 = (if k = j then u32 (var s 1 + 1) else var s 1) \<and>
    (k \<in> {i, j} \<longrightarrow> ready_list s' = rs @ [k]) \<and> handle_of s' = handle_of s"
  have counter: ?ok if k: "k = i \<and> v = 0 \<or> k = j \<and> v = 1" for v :: nat
  proof -
    obtain x where x: "frames s g = Some x" "counting v x" using f g k by (auto simp: fair_def)
    let ?w = "set_static v (u32 (var ?b v + 1)) ?b" and ?y = "In_await Yield_awaiter (\<lambda>_. counter_script v)"
    let ?u = "set_frame g (Some ?y) (yield_current ?w)"
    have r: "resume_frame c fallback g ?b = Some ?u" using counter_resumed x fb(1) by metis
    have yc: "yield_current ?w = make_ready k ?w" by (rule yield_make_ready) simp
    note t = turn_shape [OF rest rl g r, folded s'_def, of Yield_awaiter "\<lambda>_. counter_script v", simplified]
    have ro: "ready_ok ?w" by (rule ready_ok_keep [OF sched_invD(5) [OF b(1)]]; simp add: set_static_def)
    have mr: "ready_list (make_ready k ?w) = rs @ [k]"
      by (subst make_ready_fifo(2) [OF ro]) (use b(2,4) in simp_all)
    have m: "sched.more (yield_current ?w) = sched.more ?w" by (simp add: yc)
    have v: "frames s' = (frames s)(g \<mapsto> ?y)" "handle_of s' = handle_of s" "max_tasks s' = max_tasks s"
      "board s' = board ?w" "ready_list s' = rs @ [k]"
      using t mr fb(1) more_fields(1,2) [OF m] by (simp_all add: yc)
    have "fair i j s'"
      by (rule fair_update [OF f o ij b(4) g v(1-3)]) (use k f in \<open>auto simp: counting_def fair_def\<close>)
    then show ?thesis using v k f fb(2) by (auto simp: fair_def set_static_def)
  qed
  have reporter: ?ok if k: "k \<noteq> i" "k \<noteq> j"
  proof -
    obtain x where x: "frames s g = Some x" "reporting x" using f g k b(4) by (auto simp: fair_def)
    obtain ds where r: "resume_frame c fallback g ?b = Some (set_frame g (Some (In_await (Delay_awaiter (delay_ms 1000))
        (\<lambda>_. body reporter_at Reporter_woken))) (arm_current_timer (delay_ms 1000) (log_all ds ?b)))"
      using reporter_resumed x fb(1) by metis
    let ?y = "In_await (Delay_awaiter (delay_ms 1000)) (\<lambda>_. body reporter_at Reporter_woken) :: payload frame"
    note t = turn_shape [OF rest rl g r, folded s'_def, of "Delay_awaiter (delay_ms 1000)" "\<lambda>_. body reporter_at Reporter_woken", simplified]
    have v: "frames s' = (frames s)(g \<mapsto> ?y)" "handle_of s' = handle_of s" "max_tasks s' = max_tasks s"
      "board s' = board (log_all ds ?b)"
      using t fb(1) more_fields(1,2) [OF arm_fields(3) [of "delay_ms 1000" "log_all ds ?b"]] by (simp_all add: arm_fields)
    have "fair i j s'"
      by (rule fair_update [OF f o ij b(4) g v(1-3)]) (use k in \<open>auto simp: reporting_def\<close>)
    then show ?thesis using v k fb(2) by (simp add: log_all_def)
  qed
  have ?ok using counter [of 0] counter [of 1] reporter by blast
  then show "fair i j s'" "max_tasks s' = max_tasks s"
    "var s' 0 = (if k = i then u32 (var s 0 + 1) else var s 0)" "var s' 1 = (if k = j then u32 (var s 1 + 1) else var s 1)"
    "k \<in> {i, j} \<Longrightarrow> ready_list s' = rs @ [k]" "handle_of s' = handle_of s" by blast+
qed

section \<open>Polls and the setup\<close>

lemma u32_add: "u32 (u32 n + m) = u32 (n + m)"
  by (simp add: u32_def mod_simps)

lemma fair_turns:
  fixes s :: "(payload, 'a) world_scheme" and fallback
  assumes "at_rest (frames_inv c) s" "ready_list s = xs @ zs" "distinct xs" "fair i j s"
    "i < max_tasks s" "j < max_tasks s" "{i, j} \<subseteq> set (xs @ zs)"
  defines "s' \<equiv> fold (run_turn (program c fallback)) xs s"
  shows "fair i j s' \<and> max_tasks s' = max_tasks s \<and> {i, j} \<subseteq> set (ready_list s') \<and>
    var s' 0 = (if i \<in> set xs then u32 (var s 0 + 1) else var s 0) \<and>
    var s' 1 = (if j \<in> set xs then u32 (var s 1 + 1) else var s 1)"
  using assms(1-7) unfolding s'_def
proof (induction xs arbitrary: s zs)
  case (Cons k xs)
  let ?t = "run_turn (program c fallback) k s"
  have rl: "ready_list s = k # (xs @ zs)" using Cons.prems(2) by simp
  note f = fair_turn [OF Cons.prems(1) rl Cons.prems(4-6), where fallback = fallback]
  note t = owned.turn_inv [OF Cons.prems(1) rl, of fallback]
  obtain ys where ys: "ready_list ?t = xs @ (zs @ ys)" using t(3) by auto
  have mem: "{i, j} \<subseteq> set (xs @ (zs @ ys))"
  proof -
    have "k \<in> set (ready_list ?t)" if "k \<in> {i, j}" using f(5) [OF that] by simp
    then show ?thesis using Cons.prems(7) ys by auto
  qed
  have d: "distinct xs" "k \<notin> set xs" using Cons.prems(3) by simp_all
  have ij: "i \<noteq> j" using Cons.prems(4) by (simp add: fair_def)
  have m: "i < max_tasks ?t" "j < max_tasks ?t" using f(2) Cons.prems(5,6) by simp_all
  note IH = Cons.IH [OF t(1) ys d(1) f(1) m mem]
  show ?case using IH f(2-4) d(2) ij by auto
qed auto

lemma fair_poll:
  fixes s :: "(payload, 'a) world_scheme" and fallback clock
  assumes b: "between c s" and f: "fair i j s" and r: "{i, j} \<subseteq> set (ready_list s)"
  defines "s' \<equiv> poll (program c fallback) resolve_signals clock s"
  shows "fair i j s' \<and> {i, j} \<subseteq> set (ready_list s') \<and> var s' 0 = u32 (var s 0 + 1) \<and> var s' 1 = u32 (var s 1 + 1)"
proof -
  obtain t where t: "s' = (fold (run_turn (program c fallback)) (ready_list t) t)\<lparr>in_poll := False\<rparr>"
    "at_rest (frames_inv c) t" "frames t = frames s" "board t = board s" "handle_of t = handle_of s"
    "max_tasks t = max_tasks s" "distinct (ready_list t)" "\<exists>ys. ready_list t = ready_list s @ ys"
    unfolding s'_def by (rule poll_shape [OF b])
  have ij: "i < max_tasks t" "j < max_tasks t"
    using r ready_okD(4) [OF sched_invD(5) [OF between_inv(1) [OF b]]] t(6) by auto
  have m: "{i, j} \<subseteq> set (ready_list t @ [])" using r t(8) by auto
  have ft: "fair i j t" using f by (simp add: fair_def t(3,5,6))
  let ?u = "fold (run_turn (program c fallback)) (ready_list t) t"
  from fair_turns [OF t(2) _ t(7) ft ij m, of fallback]
  have u: "fair i j ?u" "{i, j} \<subseteq> set (ready_list ?u)" "var ?u 0 = u32 (var t 0 + 1)" "var ?u 1 = u32 (var t 1 + 1)"
    using m by simp_all
  have "ready_list s' = ready_list ?u" by (simp add: t(1) ready_list_def)
  moreover have "fair i j s'" using u(1) by (simp add: fair_def t(1))
  ultimately show ?thesis using u(2-4) by (simp add: t(1,4))
qed

text \<open>Setup: three spawns that report no error.\<close>

lemma fair_setup:
  fixes s :: "(payload, 'a) world_scheme"
  assumes b: "between c s" and n: "tasks_empty s" and free: "\<forall>k < max_tasks s. handle_of s k = None"
    and r: "run_calls c (setup_code (yield_fairness_sketch sz)) s = Some s'" and h: "hook_log s' = hook_log s"
  obtains i j where "fair i j s'" "{i, j} \<subseteq> set (ready_list s')" "var s' 0 = var s 0" "var s' 1 = var s 1"
proof -
  let ?s = "log_all [Serial_begin 115200] s" and ?a = "counter_script 0" and ?b = "counter_script 1"
  let ?c = "body reporter_at Reporter_begin"
  have s: "between c ?s" using b by simp
  have n0: "tasks_empty ?s" using n by (simp add: tasks_empty_def log_all_def)
  have r0: "run_calls c (spawned (sz 0) 0 ?a @ spawned (sz 0) 1 ?b @ spawned (sz 1) 2 ?c @ []) ?s = Some s'"
    using r by (simp add: yield_fairness_sketch_def counter_script_def)
  have h0: "hook_log s' = hook_log ?s" using h by (simp add: log_all_def)
  obtain s1 i f where 1: "run_calls c (spawned (sz 0) 1 ?b @ spawned (sz 1) 2 ?c @ []) s1 = Some s'" "between c s1"
    "tasks_empty s1" "hook_log s' = hook_log s1" "i < max_tasks ?s" "handle_of ?s i = None" "f \<notin> dom (frames ?s)"
    "handle_of s1 = (handle_of ?s)(i := Some f)" "ready_list s1 = ready_list ?s @ [i]" "max_tasks s1 = max_tasks ?s"
    "sched.more s1 = sched.more (set_frame f (Some (Initial ?a)) ?s)"
    by (rule spawned_first [OF s n0 r0 h0])
  obtain s2 j g where 2: "run_calls c (spawned (sz 1) 2 ?c @ []) s2 = Some s'" "between c s2"
    "tasks_empty s2" "hook_log s' = hook_log s2" "j < max_tasks s1" "handle_of s1 j = None" "g \<notin> dom (frames s1)"
    "handle_of s2 = (handle_of s1)(j := Some g)" "ready_list s2 = ready_list s1 @ [j]" "max_tasks s2 = max_tasks s1"
    "sched.more s2 = sched.more (set_frame g (Some (Initial ?b)) s1)"
    by (rule spawned_first [OF 1(2,3,1,4)])
  obtain s3 k d where 3: "run_calls c [] s3 = Some s'" "between c s3"
    "tasks_empty s3" "hook_log s' = hook_log s3" "k < max_tasks s2" "handle_of s2 k = None" "d \<notin> dom (frames s2)"
    "handle_of s3 = (handle_of s2)(k := Some d)" "ready_list s3 = ready_list s2 @ [k]" "max_tasks s3 = max_tasks s2"
    "sched.more s3 = sched.more (set_frame d (Some (Initial ?c)) s2)"
    by (rule spawned_first [OF 2(2,3,1,4)])
  note m = more_fields(1,2) [OF 1(11)] more_fields(1,2) [OF 2(11)] more_fields(1,2) [OF 3(11)]
  have e: "s' = s3" using 3(1) by simp
  have ne: "i \<noteq> j" "i \<noteq> k" "j \<noteq> k" "f \<noteq> g" "f \<noteq> d" "g \<noteq> d"
    using 1(6,8) 2(6-8) 3(6-8) m by (auto simp: 1 2 3 split: if_splits)
  have h3: "handle_of s' = (handle_of s)(i := Some f, j := Some g, k := Some d)" by (simp add: e 1(8) 2(8) 3(8))
  have f3: "frames s' f = Some (Initial ?a)" "frames s' g = Some (Initial ?b)" "frames s' d = Some (Initial ?c)"
    using ne by (simp_all add: e m)
  have m3: "max_tasks s' = max_tasks s" by (simp add: e 1(10) 2(10) 3(10))
  have "\<exists>x. frames s' h = Some x \<and> reporting x"
    if "l < max_tasks s'" "l \<noteq> i" "l \<noteq> j" "handle_of s' l = Some h" for l h
  proof (cases "l = k")
    case True
    then show ?thesis using that f3(3) by (simp add: h3 reporting_def)
  next
    case False
    then show ?thesis using that free by (simp add: h3 m3)
  qed
  then have "fair i j s'" using ne f3(1,2) by (auto simp: fair_def h3 counting_def)
  moreover have "{i, j} \<subseteq> set (ready_list s')" by (simp add: e 1(9) 2(9) 3(9))
  moreover have "var s' 0 = var s 0" "var s' 1 = var s 1" by (simp_all add: e m)
  ultimately show thesis by (rule that)
qed

text \<open>C13. The example \<open>03_YieldFairness\<close> is fair: unless its three \<open>spawn\<close>s report an error, every
  \<open>loop()\<close> returns and gives each of the two yielding tasks exactly one step, so after any number
  of polls at any clock values both counters equal the number of polls, wrapped to 32 bits. The
  delayed task starves neither, and they do not starve it of its place.\<close>

theorem counters_advance_together:
  fixes s :: "(payload, 'a) world_scheme"
  assumes "powered_on c s" and "statics (board s) = (\<lambda>_. 0)"
    and "run_calls c (setup_code (yield_fairness_sketch sz)) s = Some s1" and "hook_log s1 = hook_log s"
  shows "\<exists>s'. sketch_loop c (Some 0) (yield_fairness_sketch sz) (map Loop clocks) s1 = Some s' \<and>
    var s' 0 = u32 (int (length clocks)) \<and> var s' 1 = u32 (int (length clocks))"
proof -
  have b: "between c s" "tasks_empty s" using powered_on_between [OF assms(1)] by simp_all
  have free: "\<forall>k < max_tasks s. handle_of s k = None" using assms(1) by (simp add: powered_on_def fresh_frames_def)
  obtain i j where s1: "fair i j s1" "{i, j} \<subseteq> set (ready_list s1)" "var s1 0 = var s 0" "var s1 1 = var s 1"
    by (rule fair_setup [OF b free assms(3,4)])
  have "\<exists>s'. sketch_loop c (Some 0) sk (map Loop clocks) t = Some s' \<and>
      var s' 0 = u32 (var t 0 + int (length clocks)) \<and> var s' 1 = u32 (var t 1 + int (length clocks))"
    if "between c t" "fair i j t" "{i, j} \<subseteq> set (ready_list t)" "u32 (var t 0) = var t 0" "u32 (var t 1) = var t 1"
    for t :: "(payload, 'a) world_scheme" and sk
    using that
  proof (induction clocks arbitrary: t)
    case (Cons clock clocks)
    let ?t = "poll (program c (Some 0)) resolve_signals clock t"
    note p = fair_poll [OF Cons.prems(1-3), where fallback = "Some 0" and clock = clock]
    have "u32 (int m + u32 (n + 1)) = u32 (n + int (Suc m))" "u32 (u32 n) = u32 n" for m n
      by (simp_all add: u32_def mod_simps algebra_simps)
    from Cons.IH [OF between_poll [OF Cons.prems(1), where fallback = "Some 0" and clock = clock]] p this(2) show ?case by (simp add: u32_add add.assoc)
  qed simp
  from this [OF between_calls [OF b(1) assms(3)] s1(1,2), of "yield_fairness_sketch sz"] s1(3,4) assms(2)
  show ?thesis by (simp add: u32_def)
qed

end
