(* ===== verification/Scenarios_Sketches.thy ===== *)
theory Scenarios_Sketches
  imports Scenarios_Frames Sketch_Fairness
begin

text \<open>Concrete runs of the sketches on the 64-bit host, from power-on with three slots.\<close>

section \<open>Power-on\<close>

definition started :: "nat \<Rightarrow> payload world" where
  "started n =
    (let s = sched_init host_pool n
     in \<lparr>hook_log = hook_log s, tasks = tasks s, fpool = fpool s, max_tasks = max_tasks s,
         slots = slots s, ready_head = ready_head s, ready_tail = ready_tail s, ready_count = ready_count s,
         active_count = active_count s, peak_count = peak_count s, current = current s, in_poll = in_poll s,
         shutting_down = shutting_down s, now_us = now_us s, nearest_deadline = nearest_deadline s,
         events = (\<lambda>_. event_init), flags = (\<lambda>_. flag_init), armed_head = None, pending = False,
         wake_created = False, wake_given = False, queues = (\<lambda>_. queue_init 2),
         senders = (\<lambda>_. \<lparr>sa_queue = 0, sa_value = 0, sa_next = None, sa_slot = None, sa_linked = False\<rparr>),
         receivers = (\<lambda>_. \<lparr>ra_queue = 0, ra_storage = None, ra_has_result = False, ra_next = None,
           ra_slot = None, ra_linked = False\<rparr>),
         frames = (\<lambda>_. None), next_awaiter = 0, board = new_board\<rparr>)"

lemma started_fields:
  "tasks (started n) = (\<lambda>_. None)" "frames (started n) = (\<lambda>_. None)" "fpool (started n) = host_pool" "max_tasks (started n) = n"
  "handle_of (started n) i = None" "st_of (started n) i = Free" "gen_of (started n) i = 0"
  "\<not> in_poll (started n)" "\<not> shutting_down (started n)" "hook_log (started n) = []" "board (started n) = new_board"
  by (simp_all add: started_def Let_def sched_init_def slot_init_def view_defs)

lemma started_powered_on:
  assumes "n \<le> 2 ^ 16"
  shows "powered_on host (started n)"
proof -
  let ?s = "sched_init host_pool n"
  have i: "sched_inv ?s" "idle ?s" using sched_init_inv(1) [OF assms] sched_init_inv(2) by blast+
  have "fresh_world (started n)"
    by (auto simp: fresh_world_def started_def Let_def event_init_def flag_init_def intro: exI [of _ 2])
  moreover have "arena_frames host host_pool {}"
    using wf_host host_pool_rep by (auto simp: arena_frames_def whole_def mk_header_def)
  then have "fresh_frames host (started n)" by (simp add: fresh_frames_def started_fields)
  moreover have "sched_inv (started n)" using i(1) by (subst sched_inv_more [of _ ?s]) (simp_all add: started_def Let_def)
  moreover have "idle (started n)" using i(2) by (simp add: started_def Let_def idle_def)
  ultimately show ?thesis by (simp add: powered_on_def started_fields)
qed

section \<open>Every polling sketch\<close>


section \<open>Fair yields\<close>

lemma host_fits:
  assumes p: "one_free host p bs n" and n: "sz + 80 \<le> n"
  obtains f p' bs' where "allocate host sz (kAlign host) p = Some (Some f, p')" "one_free host p' bs' (n - (sz + 48))"
proof -
  have a: "effective_align host (kAlign host) = 2 ^ 4" "(4 :: nat) < word_bits host"
    by (simp_all add: effective_align_def host_consts) (simp add: host_def)
  have "2 * kHeader host + 2 ^ 4 + sz + 2 * kAlign host \<le> n" using n by (simp add: host_consts)
  from alloc_fits [OF wf_host p a this] obtain f p' bs' where "allocate host sz (kAlign host) p = Some (Some f, p')"
    "one_free host p' bs' (n - (kHeader host + 2 ^ 4 + sz + kAlign host))" by metis
  then show thesis using that by (simp add: host_consts algebra_simps)
qed

text \<open>Frames of 8 bytes: the three spawns of the sketch succeed.\<close>

definition roomy :: "nat \<Rightarrow> (payload, 'a) world_scheme \<Rightarrow> bool" where
  "roomy k s \<longleftrightarrow> between host s \<and> tasks_empty s \<and> k \<le> card (free_slots s) \<and> (\<exists>bs. one_free host (fpool s) bs (56 * k + 80))"

lemma roomy_spawn:
  fixes s :: "(payload, 'a) world_scheme"
  assumes "roomy (Suc k) s"
  obtains s' where "run_calls host (spawned 8 t p) s = Some s'" "roomy k s'" "hook_log s' = hook_log s"
proof -
  obtain bs where s: "between host s" "tasks_empty s" "Suc k \<le> card (free_slots s)"
    and p: "one_free host (fpool s) bs (56 * Suc k + 80)" using assms by (auto simp: roomy_def)
  obtain f p' bs' where a: "allocate host 8 (kAlign host) (fpool s) = Some (Some f, p')"
    "one_free host p' bs' (56 * Suc k + 80 - (8 + 48))" by (rule host_fits [OF p, of 8]) auto
  obtain s' where s': "run_calls host (spawned 8 t p) s = Some s'" "between host s'" "tasks_empty s'"
    by (rule spawned_returns [OF s(1,2)])
  have fin: "finite (free_slots s)" "finite (free_slots s')" by (simp_all add: free_slots_def)
  have ne: "free_slots s \<noteq> {}" using s(3) by auto
  obtain i where q: "hook_log s' = hook_log s" "fpool s' = p'" "free_slots s - {i} \<subseteq> free_slots s'"
    using spawned_quiet [OF s(1,2) s'(1) a(1) ne] by blast
  have "card (free_slots s) - 1 \<le> card (free_slots s - {i})" by (simp add: card_Diff_singleton_if)
  also have "\<dots> \<le> card (free_slots s')" by (rule card_mono [OF fin(2) q(3)])
  finally have "roomy k s'" using s(3) s'(2,3) a(2) q(2) by (auto simp: roomy_def algebra_simps)
  then show thesis using that s'(1) q(1) by blast
qed

lemma fair_setup_quiet:
  obtains s1 where "run_calls host (setup_code (yield_fairness_sketch (\<lambda>_. 8))) (started 3) = Some s1" "hook_log s1 = []"
proof -
  let ?s = "log_all [Serial_begin 115200] (started 3)"
  have b: "between host (started 3)" "tasks_empty (started 3)"
    using powered_on_between [OF started_powered_on, of 3] by simp_all
  have "free_slots ?s = {0, 1, 2}"
    by (auto simp: free_slots_def log_all_def started_fields max_generation_def)
  then have "card (free_slots ?s) = 3" by simp
  moreover have "one_free host host_pool whole 248"
    unfolding one_free_def using host_pool_rep by (auto simp: whole_def mk_header_def)
  ultimately have r: "roomy 3 ?s"
    using b by (auto simp: roomy_def tasks_empty_def started_fields intro!: exI [of _ whole])
      (simp_all add: log_all_def started_fields)
  obtain s1 where 1: "run_calls host (spawned 8 0 (body (counter_at 0) Counter_step)) ?s = Some s1" "roomy 2 s1" "hook_log s1 = hook_log ?s"
    using roomy_spawn [of 2 ?s] r by (auto simp: numeral_3_eq_3 numeral_2_eq_2)
  obtain s2 where 2: "run_calls host (spawned 8 1 (body (counter_at 1) Counter_step)) s1 = Some s2" "roomy 1 s2" "hook_log s2 = hook_log s1"
    using roomy_spawn [of 1 s1] 1(2) by (auto simp: numeral_2_eq_2)
  obtain s3 where 3: "run_calls host (spawned 8 2 (body reporter_at Reporter_begin)) s2 = Some s3" "hook_log s3 = hook_log s2"
    by (rule roomy_spawn [of 0 s2]) (use 2(2) in simp_all)
  have "hook_log s3 = []" by (simp add: 1(3) 2(3) 3(2) log_all_def started_fields)
  moreover have "run_calls host (setup_code (yield_fairness_sketch (\<lambda>_. 8))) (started 3) = Some s3"
    by (simp add: yield_fairness_sketch_def run_calls_append 1(1) 2(1) [unfolded One_nat_def] 3(1))
  ultimately show thesis using that by blast
qed

theorem counters_advance_together_witness:
  "\<exists>s1 s'. run_calls host (setup_code (yield_fairness_sketch (\<lambda>_. 8))) (started 3) = Some s1 \<and>
    sketch_loop host (Some 0) (yield_fairness_sketch (\<lambda>_. 8)) (map Loop [5, 9]) s1 = Some s' \<and> var s' 0 = 2 \<and> var s' 1 = 2"
proof -
  obtain s1 where s1: "run_calls host (setup_code (yield_fairness_sketch (\<lambda>_. 8))) (started 3) = Some s1" "hook_log s1 = []"
    by (rule fair_setup_quiet)
  have "powered_on host (started 3)" by (rule started_powered_on) simp
  from counters_advance_together [OF this _ s1(1), of "[5, 9]"] s1 show ?thesis
    by (simp add: started_fields new_board_def u32_def)
qed

section \<open>The verdicts of the checks\<close>

definition check_target :: target where
  "check_target = host\<lparr>pool_bytes := 2048\<rparr>"

lemma check_consts: "kAlign check_target = 16" "kHeader check_target = 16" "kUsable check_target = 2048" "pool_bytes check_target = 2048"
proof -
  have "sz_sub check_target = sz_sub host" "sz_add check_target = sz_add host" "sz_not check_target = sz_not host"
    by (simp_all add: check_target_def sz_sub_def sz_add_def sz_not_def fun_eq_iff)
  moreover have "kAlign check_target = kAlign host" by (simp add: check_target_def kAlign_def)
  moreover have "header_bytes check_target = header_bytes host" by (simp add: check_target_def)
  ultimately have "kHeader check_target = kHeader host" by (simp add: kHeader_def)
  then show "kAlign check_target = 16" "kHeader check_target = 16" "kUsable check_target = 2048" "pool_bytes check_target = 2048"
    using host_consts \<open>kAlign check_target = kAlign host\<close> by (simp_all add: kUsable_def) (simp_all add: check_target_def)
qed

lemma wf_check: "wf_target check_target"
  using wf_host check_consts host_consts by (simp add: wf_target_def) (simp add: check_target_def host_def)

lemma check_whole: "whole_pool check_target (pool_init check_target (\<lambda>_. mk_header 0 0 False))"
  unfolding whole_pool_def
  by (rule exI [of _ "mk_header 2048 16 False"])
    (simp add: pool_rep_def pool_init_def pool_reset_def check_consts block_ok_def used_bytes_def mk_header_def)

theorem frame_pool_check_passes_witness:
  "\<exists>out p'. frame_pool_loop check_target (pool_init check_target (\<lambda>_. mk_header 0 0 False)) = Some ([], out, p') \<and>
    Println ''OK'' \<in> set out \<and> Print ''FAIL'' \<notin> set out \<and> whole_pool check_target p'"
  using frame_pool_check_passes [OF wf_check check_consts(4) _ _ check_whole] check_consts by force

theorem clock_verdict_exact_witness:
  "Wait_ms 1000 \<in> set (fst (clock_monotonic_loop of_nat \<lparr>s_last = 0, s_have_last = False, read_count = 0\<rparr>)) \<and>
    Wait_ms 1000 \<notin> set (fst (clock_monotonic_loop (\<lambda>_. 7) \<lparr>s_last = 0, s_have_last = False, read_count = 0\<rparr>))"
proof -
  let ?s = "\<lparr>s_last = 0, s_have_last = False, read_count = 0\<rparr>"
  have m: "(of_nat i :: tick_t) \<le> of_nat (i + 1)" if "i < 200000" for i
    using that by (simp add: word_le_nat_alt unat_of_nat del: of_nat_add of_nat_Suc)
  obtain out s' where "clock_monotonic_loop of_nat ?s = (out, s')" by fastforce
  from clock_verdict_exact [OF this] this m have "Wait_ms 1000 \<in> set (fst (clock_monotonic_loop of_nat ?s))" by simp
  moreover obtain out2 s2 where "clock_monotonic_loop (\<lambda>_. 7) ?s = (out2, s2)" by fastforce
  from clock_verdict_exact [OF this] this have "Wait_ms 1000 \<notin> set (fst (clock_monotonic_loop (\<lambda>_. 7) ?s))" by simp
  ultimately show ?thesis by blast
qed

theorem task_lifecycle_passes_witness:
  "\<exists>s'. task_lifecycle_loop host 40 (started 1) = Some s' \<and> Print ''FAIL(ran)'' \<notin> set (device_log (board s')) \<and>
    bytes_used (fpool s') = 0"
proof -
  have "powered_on host (started 1)" by (rule started_powered_on) simp
  then have "between host (started 1)" using powered_on_between by blast
  from task_lifecycle_passes [OF this, of 40] obtain s' room free failures where
    "task_lifecycle_loop host 40 (started 1) = Some s'" "device_log (board s') =
      [Print ''owned='', Print (verdict room), Print '' body_ran='', Print ''OK(lazy)'',
       Print '' recovered='', Println ''OK'', Print ''pool_free='', Print_int free,
       Print '' alloc_failures='', Println_int failures, Wait_ms 1000]" "bytes_used (fpool s') = bytes_used host_pool"
    by (auto simp: started_fields new_board_def)
  moreover have "bytes_used host_pool = 0" by (simp add: host_pool_def pool_init_def pool_reset_def)
  ultimately show ?thesis by (auto simp: verdict_def)
qed

end
