(* ===== verification/Spec2Isabelle.thy ===== *)
theory Spec2Isabelle
  imports Scenarios_Sketches Sketch_Flag_Irq
begin

text \<open>
  A verification development of SimpleAwait, a header-only C++20 library of cooperative
  coroutine tasks for microcontrollers. All source paths are relative to
  \<open>src/src/simpleawait/\<close> unless they name another directory.

  The program. A coroutine function returns a \<open>Task<void>\<close> (task.h) whose frame lives in
  a fixed arena (detail/frame_pool.h, detail/global_frame_pool.h). A \<open>Scheduler\<close> with
  fixed slots (scheduler.h) adopts frames and resumes the ready ones in bounded FIFO passes from
  \<open>poll()\<close>. A running task suspends on \<open>yield\<close> and \<open>delay\<close> (delay.h), a child
  task, an \<open>Event\<close> (event.h), a \<open>ThreadSafeFlag\<close> set by interrupts and other cores
  (threadsafeflag.h), a bounded \<open>Queue\<close> (queue.h) or a polled predicate (waituntil.h). Time
  comes from detail/platform_clock.h and detail/time_math.h, idle waits from
  detail/platform_idle.h, critical sections from detail/platform_sync.h, counters from
  diagnostics.h. Every failure is a value of error.h given to the hook of config.h. The sketches of
  \<open>src/examples\<close> and \<open>src/extras/hardware\<close> are the programs on the library.

  State. The world of a program is one record that grows with the layers, each layer an
  extension of the one before, so an operation of a lower layer is typed on every world above it:
  \<open>core\<close> (the frame pool, the \<open>Task\<close> objects, the log of the error hook; theory
  \<open>Task\<close>), \<open>sched\<close> (the slots and counters of \<open>Scheduler\<close>;
  \<open>Scheduler_State\<close>), \<open>ev_world\<close> (the events; \<open>Event\<close>), \<open>flag_world\<close> (the
  flags, the armed list, the pending marker, the wake semaphore; \<open>Thread_Safe_Flag\<close>),
  \<open>q_world\<close> (the queues and their awaiter objects; \<open>Queue\<close>) and \<open>world\<close> (the bodies
  of the coroutine frames and the \<open>board\<close>: static variables, requests to devices, clock reads;
  \<open>Programs\<close>, \<open>Board\<close>). Pointers are natural numbers naming slots, frames,
  objects and awaiters, \<open>None\<close> is \<open>nullptr\<close>; every intrusive link is a field of the
  model, as in the code. \<open>uint64_t\<close>, \<open>uint32_t\<close> and \<open>uint16_t\<close> are words of their
  width; \<open>size_t\<close> arithmetic of the arena is written out modulo the word size of the target.
  The counters \<open>ready_count_\<close>, \<open>active_count_\<close> and the indices into fixed arrays are
  natural numbers, since the invariant bounds them by the number of slots.

  Theories, in the order of the layers.
  \<^item> \<open>Prelude\<close>: error.h, the collections of rewrite rules, generic lemmas.
  \<^item> \<open>Time_Math\<close>: \<open>ms_to_us\<close>, \<open>add_overflows\<close>, \<open>compute_deadline\<close>, \<open>Micros32Extender\<close>: deadlines are exact or
    reported.
  \<^item> \<open>Configuration\<close>: the capacities of config.h and the default error hook, which never returns.
  \<^item> \<open>Platform_Clock\<close>: every backend of \<open>platform_now_us\<close> and their selection; the clock is exact across wraps.
  \<^item> \<open>Platform_Sync\<close>: \<open>CriticalSection\<close> with each backend, over primitives that keep their documentation; a
    section is atomic. The layers above use sections as atomic steps.
  \<^item> \<open>Platform_Idle\<close>: the tick conversion and the decision of \<open>platform_wait_until\<close>.
  \<^item> \<open>Intrusive_List\<close>: the locale \<open>intrusive_queue\<close>, the contract of a singly linked FIFO with head and
    tail pointers. It is interpreted by the ready FIFO and \<open>WaitQueue\<close> (\<open>rq\<close>, \<open>wq\<close> in
    \<open>Scheduler_State\<close>) and by the lists of parked senders and receivers (\<open>sq\<close>, \<open>wr\<close> in \<open>Queue_Inv\<close>).
  \<^item> \<open>Frame_Pool\<close>, \<open>Frame_Pool_Spec\<close>, \<open>Frame_Pool_Props\<close>: \<open>FramePool\<close>. The model walks the in-arena headers as
    the code does; the contract is a list of blocks that tile the arena (\<open>pool_rep\<close>). Allocation,
    deallocation and coalescing are shown to be list functions on it.
  \<^item> \<open>Task\<close>: \<open>Task<void>\<close>, \<open>TaskAwaiter\<close>, the promise's \<open>operator new\<close> and \<open>operator delete\<close>.
  \<^item> \<open>Scheduler_State\<close>, \<open>Scheduler_Ops\<close>: the state and every member function of \<open>Scheduler\<close>, the free
    functions of scheduler.h and the awaitables of delay.h.
  \<^item> \<open>Scheduler_Inv\<close>: the invariant \<open>sched_inv\<close>, and \<open>evolves\<close> and \<open>quiet\<close>, what code that runs between two
    steps of the scheduler may change. \<open>Scheduler_Api\<close>: the operations called by awaitables.
    \<open>Scheduler_Timers\<close>: due timers. \<open>Scheduler_Run\<close>: one turn, a pass, a poll, teardown, over any coroutines
    that keep the laws of the locales \<open>coroutines\<close>, \<open>poll_system\<close> and \<open>teardown\<close>. \<open>Scheduler_Props\<close>: the
    promises of the comments of scheduler.h.
  \<^item> \<open>Event\<close>, \<open>Diagnostics\<close>, \<open>Wait_Until\<close>: the three headers with their properties.
  \<^item> \<open>Thread_Safe_Flag\<close> (the code), \<open>Flag_Inv\<close>, \<open>Flag_Ops\<close>, \<open>Flag_Props\<close> (the invariant and the contracts in
    scheduler context), \<open>Flag_Signals\<close> (a machine in which \<open>set()\<close> from other contexts interleaves with
    every critical section of a poll and with the idle wait).
  \<^item> \<open>Queue\<close> (the code), \<open>Queue_Spec\<close>, \<open>Queue_Inv\<close>, \<open>Queue_Ops\<close>, \<open>Queue_Park\<close>, \<open>Queue_Props\<close>: the ring and the lists, the
    abstract channel \<open>chan_of\<close>, the refinement of it by each operation, runs with their histories.
  \<^item> \<open>Object_Steps\<close>: all objects of a program together, each operation keeps all invariants.
  \<^item> \<open>Programs\<close>: coroutine bodies as (possibly infinite) trees of calls and \<open>co_await\<close> expressions, frames,
    the protocol of C++ awaiters. \<open>program c fallback\<close> runs them; it interprets \<open>poll_system\<close> and
    \<open>teardown\<close>, so the results on passes, polls and teardown hold for every program on the library.
    \<open>Board\<close>: what programs ask of the microcontroller.
  \<^item> \<open>Frame_Owners\<close>, \<open>Ownership\<close>, \<open>Program_Frames\<close>: who owns which frame. Each operation moves, creates or destroys
    owners so that in every reachable state each frame has one owner and is a live block of the pool.
  \<^item> \<open>Sketch_Base\<close> (how a sketch is written: a coroutine is a table of its suspension and branch points),
    \<open>Sketch_Examples\<close>, \<open>Sketch_Hardware\<close>, \<open>Sketch_Checks\<close>, \<open>Sketch_Flag_Irq\<close>: all sketches. \<open>Sketch_Runs\<close>: they
    return from every call and keep all invariants. \<open>Sketch_Verdicts\<close>: what the self-checking ones report.
    \<open>Sketch_Turns\<close>, \<open>Sketch_Fairness\<close>: turn by turn through \<open>03_YieldFairness\<close>.
  \<^item> \<open>Scenarios\<close>, \<open>Scenarios_Objects\<close>, \<open>Scenarios_Sync\<close>, \<open>Scenarios_Programs\<close>, \<open>Scenarios_Frames\<close>,
    \<open>Scenarios_Sketches\<close>: concrete states, in which every property that has hypotheses is applied.

  What the lemmas show. Type and well-formedness invariants are kept by every operation and in
  every state a program reaches; each operation does what its comment promises on every branch,
  refusals included; the ring, the arena and the clock equal their abstract counterparts; queues
  implement a bounded channel and lose, duplicate and reorder nothing; a pass runs exactly the
  tasks that were ready at its start, in their order; handles never outlive their generation;
  every frame is owned once and destroyed once; no signal is slept through; the sketches run for ever and
  the self-checks among them report what they should. One property records a defect
  (a \<open>yield\<close> awaited by a coroutine that is not the running task queues the task twice).

  Loops. Loops over an index are structural recursion or a fold over the indices. Loops that
  follow links or block sizes (\<open>alloc_walk\<close>, \<open>dealloc_walk\<close>, \<open>coalesce_from\<close>, \<open>wake_all\<close>, \<open>resolve_loop\<close>,
  \<open>unarm_loop\<close>, \<open>unlink_sender_loop\<close>, \<open>unlink_receiver_loop\<close>, \<open>run_body\<close>) are partial functions whose value
  is \<open>None\<close> when they do not end; that they do end is proved for all but \<open>run_body\<close>, whose
  end depends on the application; a resumption that would not end leaves the state as it is.
  No fuel is used. \<open>quiesce\<close> ends by its cap on polls; \<open>watchdog_drain\<close> ends when the clock passes
  its deadline, which is the board's affair.

  Parameters of the model. The clock value a poll reads; the sizes and alignments of the target
  (\<open>target\<close>, under \<open>wf_target\<close>, the facts the compiler and the static assertions guarantee), which
  have concrete instances in the witnesses; the sizes the compiler gives coroutine frames; the
  maximal delay and tick rate of FreeRTOS; the payload type of a queue; the clocks and
  critical-section primitives of the vendors, under what their documentation says; the values that
  clock reads of a sketch return.

  Conventions for programs. A coroutine stores the result of a call or a \<open>Task\<close> it moves only in
  a \<open>Task\<close> object that owns nothing (\<open>New_task\<close>, \<open>Move_task\<close>), as the construction of a new object does;
  the interrupt of a polling sketch fires between calls of \<open>loop()\<close>, while \<open>Flag_Signals\<close> has the
  interleavings inside a poll. \<open>unsigned long\<close> has 32 bits; signed counters whose overflow is
  undefined wrap or are unbounded.


  Not modelled. detail/coroutine_support.h and version.h hold no run-time code, the umbrella
  header only includes, and \<open>Empty.ino\<close> has two empty functions. Above \<open>Configuration\<close> the error
  hook is the documented recoverable override, an append to a log. FreeRTOS waits are single
  values. Exceptions thrown by the payload of a queue. The host tests under \<open>src/test\<close>.
\<close>

end
